(* ===== verification/Prelude.thy ===== *)
theory Prelude
  imports Main "HOL-Library.Word"
begin

text \<open>
  What every component of the model shares: Go's machine integers, Go's \<open>error\<close> values and
  the generic list lemmas the component proofs use.

  \<^item> \<open>uint64\<close> is \<open>64 word\<close>: \<open>+\<close> and \<open>*\<close> wrap around and \<open><\<close> compares unsigned values,
    as in Go.
  \<^item> \<open>int\<close> and \<open>int64\<close> (64 bits on every platform the program is built for) are HOL's \<open>int\<close>
    with the wrap-around written out: the result of an operation that can overflow goes
    through \<open>wrap64\<close>. A value of a Go variable satisfies \<open>in_int64\<close>.
  \<^item> Go's integer division truncates towards zero (\<open>go_div\<close>), unlike \<open>div\<close>.
  \<^item> a function that returns \<open>(T, error)\<close> is a function into \<open>go_error + 'a\<close>.
\<close>

named_theorems go_int \<open>facts about Go's integers that simplify arithmetic within range\<close>
named_theorems go_text \<open>facts about the text the program formats and parses\<close>

subsection \<open>Machine integers\<close>

type_synonym u64 = "64 word"

definition in_int64 :: "int \<Rightarrow> bool" where
  "in_int64 x \<longleftrightarrow> - (2 ^ 63) \<le> x \<and> x < 2 ^ 63"

definition wrap64 :: "int \<Rightarrow> int" where
  "wrap64 x = (x + 2 ^ 63) mod 2 ^ 64 - 2 ^ 63"

definition go_div :: "int \<Rightarrow> int \<Rightarrow> int" where
  "go_div a b = sgn a * sgn b * (\<bar>a\<bar> div \<bar>b\<bar>)"

lemma wrap64_id [go_int]: "in_int64 x \<Longrightarrow> wrap64 x = x"
  by (simp add: wrap64_def in_int64_def)

lemma wrap64_in_int64 [go_int]: "in_int64 (wrap64 x)"
proof -
  have "0 \<le> (x + 2 ^ 63) mod 2 ^ 64" and "(x + 2 ^ 63) mod 2 ^ 64 < (2::int) ^ 64"
    by simp_all
  then show ?thesis by (simp add: in_int64_def wrap64_def)
qed

lemma go_div_nonneg [go_int]: "0 \<le> a \<Longrightarrow> 0 < b \<Longrightarrow> go_div a b = a div b"
  by (cases "a = 0") (simp_all add: go_div_def)

lemma go_div_bounds:
  assumes "0 \<le> a" and "0 < b"
  shows "0 \<le> go_div a b" and "go_div a b \<le> a" and "go_div a b * b \<le> a"
    and "a < go_div a b * b + b"
proof -
  have eq: "go_div a b * b + a mod b = a"
    using assms by (simp add: go_div_nonneg)
  have m: "0 \<le> a mod b" "a mod b < b" using assms(2) by simp_all
  show "0 \<le> go_div a b"
    using assms by (simp add: go_div_nonneg pos_imp_zdiv_nonneg_iff)
  show "go_div a b \<le> a"
    using assms zdiv_mono2 [of a 1 b] by (simp add: go_div_nonneg)
  show "go_div a b * b \<le> a" and "a < go_div a b * b + b"
    using eq m by linarith+
qed

lemma unat_u64_less: "unat (v :: u64) < 2 ^ 64"
  using unsigned_less [of v] by simp

lemma unat_of_nat_u64 [go_int]: "n < 2 ^ 64 \<Longrightarrow> unat (of_nat n :: u64) = n"
  by (simp add: unat_of_nat)

lemma unat_u64_Suc: "v \<noteq> (- 1 :: u64) \<Longrightarrow> unat (v + 1) = Suc (unat v)"
  using unatSuc [of v] by (metis Suc_eq_plus1 add.commute add_eq_0_iff unat_eq_zero)

subsection \<open>Go's error values\<close>

text \<open>
  \<open>PathError op path errno\<close> is \<open>os.PathError\<close> as the \<open>os\<close> package returns it;
  \<open>Wrap p e\<close> is \<open>fmt.Errorf(p + "%w", e)\<close>; \<open>ErrText s\<close> is any other error, known by its
  text. \<open>os.IsNotExist\<close> looks at a \<open>PathError\<close> only, never through \<open>%w\<close>.
\<close>

datatype errno = ENOENT | EEXIST | EIO

datatype go_error =
    ErrText string
  | PathError string string errno
  | Wrap string go_error

type_synonym 'a result = "go_error + 'a"

fun errno_text :: "errno \<Rightarrow> string" where
  "errno_text ENOENT = ''no such file or directory''"
| "errno_text EEXIST = ''file exists''"
| "errno_text EIO = ''input/output error''"

fun error_text :: "go_error \<Rightarrow> string" where
  "error_text (ErrText s) = s"
| "error_text (PathError op path e) = op @ '' '' @ path @ '': '' @ errno_text e"
| "error_text (Wrap prefix e) = prefix @ error_text e"

fun is_not_exist :: "go_error \<Rightarrow> bool" where
  "is_not_exist (PathError _ _ e) = (e = ENOENT)"
| "is_not_exist _ = False"

definition is_ok :: "'e + 'a \<Rightarrow> bool" where
  "is_ok r = (case r of Inl _ \<Rightarrow> False | Inr _ \<Rightarrow> True)"

lemma is_ok_simps [simp]: "is_ok (Inr x)" "\<not> is_ok (Inl e)"
  by (simp_all add: is_ok_def)

lemma is_okE: "is_ok r \<Longrightarrow> (\<And>x. r = Inr x \<Longrightarrow> P) \<Longrightarrow> P"
  by (cases r) simp_all

subsection \<open>Lists\<close>

lemma fold_invariant:
  assumes "P s" and "\<And>x s. x \<in> set xs \<Longrightarrow> P s \<Longrightarrow> P (f x s)"
  shows "P (fold f xs s)"
  using assms by (induction xs arbitrary: s) auto

lemma takeWhile_append_stop:
  "(\<And>x. x \<in> set xs \<Longrightarrow> P x) \<Longrightarrow> \<not> P y \<Longrightarrow> takeWhile P (xs @ y # ys) = xs"
  by (induction xs) auto

lemma dropWhile_append_stop:
  "(\<And>x. x \<in> set xs \<Longrightarrow> P x) \<Longrightarrow> \<not> P y \<Longrightarrow> dropWhile P (xs @ y # ys) = y # ys"
  by (induction xs) auto

end
