(* ===== verification/GoFloat.thy ===== *)
theory GoFloat
  imports Complex_Main Prelude "HOL-Library.Log_Nat"
begin

text \<open>
  Go's \<open>float64\<close>: rational numbers with every operation rounded to 53 significant bits, ties
  to even. The exponent is unbounded: the program's values are sums and products of a few
  \<open>uint64\<close> counters and nanosecond times (below \<open>2 ^ 200\<close> in magnitude, and multiples of
  \<open>2 ^ -300\<close> when not zero), so neither overflow to infinity nor subnormals arise, and the code
  divides only by values it has tested against zero.
\<close>

type_synonym f64 = rat

definition round_half_even :: "rat \<Rightarrow> int" where
  "round_half_even m =
     (let f = \<lfloor>m\<rfloor>; r = m - of_int f in
      if r < 1 / 2 then f else if 1 / 2 < r then f + 1 else if even f then f else f + 1)"

text \<open>The exponent of the leading binary digit of a positive fraction: \<open>floor (log2 x)\<close>.\<close>

definition leading_exp :: "rat \<Rightarrow> int" where
  "leading_exp x =
     (let (n, d) = quotient_of x; k = bitlen n - bitlen d
      in if x < 2 powi k then k - 1 else k)"

definition rnd64 :: "rat \<Rightarrow> f64" where
  "rnd64 x =
     (if x = 0 then 0 else
      let e = leading_exp \<bar>x\<bar> - 52
      in of_int (round_half_even (x / 2 powi e)) * 2 powi e)"

text \<open>Conversions and arithmetic. \<open>f64_div\<close> is only used where the divisor is not zero.\<close>

definition f64_of_uint :: "u64 \<Rightarrow> f64" where "f64_of_uint v = rnd64 (of_nat (unat v))"
definition f64_of_int :: "int \<Rightarrow> f64" where "f64_of_int x = rnd64 (of_int x)"
definition f64_add :: "f64 \<Rightarrow> f64 \<Rightarrow> f64" where "f64_add x y = rnd64 (x + y)"
definition f64_sub :: "f64 \<Rightarrow> f64 \<Rightarrow> f64" where "f64_sub x y = rnd64 (x - y)"
definition f64_mul :: "f64 \<Rightarrow> f64 \<Rightarrow> f64" where "f64_mul x y = rnd64 (x * y)"
definition f64_div :: "f64 \<Rightarrow> f64 \<Rightarrow> f64" where "f64_div x y = rnd64 (x / y)"

subsection \<open>Rounding keeps the order with coarse fractions\<close>

lemma round_half_even_int_le: "of_int z \<le> m \<Longrightarrow> z \<le> round_half_even m"
proof -
  assume "of_int z \<le> m"
  then have "z \<le> \<lfloor>m\<rfloor>" by (simp add: le_floor_iff)
  then show ?thesis by (auto simp: round_half_even_def Let_def)
qed

lemma round_half_even_le_int: "m \<le> of_int z \<Longrightarrow> round_half_even m \<le> z"
proof -
  assume m: "m \<le> of_int z"
  then have f: "\<lfloor>m\<rfloor> \<le> z" by (simp add: floor_le_iff)
  show ?thesis
  proof (cases "\<lfloor>m\<rfloor> = z")
    case True
    with m have "m = of_int \<lfloor>m\<rfloor>" by (metis of_int_floor_le order_antisym)
    then have "m - of_int \<lfloor>m\<rfloor> < 1 / 2" by simp
    with True show ?thesis by (simp add: round_half_even_def Let_def)
  next
    case False
    with f have "\<lfloor>m\<rfloor> + 1 \<le> z" by simp
    then show ?thesis by (auto simp: round_half_even_def Let_def)
  qed
qed

lemma leading_exp_le:
  assumes "0 < x"
  shows "2 powi leading_exp x \<le> (x :: rat)"
proof -
  obtain n d where q: "quotient_of x = (n, d)" by fastforce
  have d: "0 < d" using quotient_of_denom_pos [OF q] .
  have x: "x = of_int n / of_int d" using quotient_of_div [OF q] .
  with assms d have n: "0 < n" by (simp add: zero_less_divide_iff)
  let ?k = "bitlen n - bitlen d"
  have pow: "(2 :: rat) powi b = of_int (2 ^ nat b)" if "0 \<le> b" for b :: int
    using that by (simp add: power_int_def)
  have "2 powi (?k - 1) \<le> x"
  proof -
    have b: "0 < bitlen n" "0 < bitlen d" using n d by (simp_all add: bitlen_alt_def)
    have "(of_int d :: rat) \<le> of_int (2 ^ nat (bitlen d))"
      using bitlen_bounds [OF d, THEN conjunct2, THEN less_imp_le] by (simp only: of_int_le_iff)
    moreover have "(of_int (2 ^ nat (bitlen n - 1)) :: rat) \<le> of_int n"
      using bitlen_bounds [OF n, THEN conjunct1] by (simp only: of_int_le_iff)
    ultimately have "2 powi (bitlen n - 1) \<le> (of_int n :: rat)" "of_int d \<le> (2 :: rat) powi bitlen d"
      using b pow [of "bitlen n - 1"] pow [of "bitlen d"] by simp_all
    then have "(2 :: rat) powi (bitlen n - 1) * of_int d \<le> of_int n * 2 powi bitlen d"
      using d n by (intro mult_mono) simp_all
    then show ?thesis
      using d power_int_add [of "2 :: rat" 1 "bitlen d"] by (simp add: x power_int_diff field_simps)
  qed
  then show ?thesis by (simp add: leading_exp_def q Let_def)
qed

lemma rnd64_order:
  assumes x: "0 < x" and k: "\<bar>k\<bar> < 2 ^ 53" and r: "r = of_int k / 2 ^ 5"
  shows "r \<le> x \<Longrightarrow> r \<le> rnd64 x" and "x \<le> r \<Longrightarrow> rnd64 x \<le> r"
proof -
  define e where "e = leading_exp x - 52"
  let ?m = "x / 2 powi e"
  have pos: "(0 :: rat) < 2 powi e" by simp
  have rnd: "rnd64 x = of_int (round_half_even ?m) * 2 powi e"
    using x by (simp add: rnd64_def Let_def e_def)
  have "(2 :: rat) powi (52 + e) = 2 powi 52 * 2 powi e" by (rule power_int_add) simp
  then have "(2 :: rat) powi leading_exp x = 2 ^ 52 * 2 powi e" by (simp add: e_def)
  then have big: "2 ^ 52 * 2 powi e \<le> x" using leading_exp_le [OF x] by simp
  then have "2 ^ 52 \<le> ?m" using pos by (simp only: pos_le_divide_eq)
  then have "of_int (2 ^ 52) \<le> ?m" by (simp only: of_int_power of_int_numeral)
  then have R: "2 ^ 52 \<le> round_half_even ?m" by (rule round_half_even_int_le)
  then have bigR: "2 ^ 52 * 2 powi e \<le> rnd64 x"
  proof -
    have "(of_int (2 ^ 52) :: rat) \<le> of_int (round_half_even ?m)" using R by (simp only: of_int_le_iff)
    then show ?thesis unfolding rnd using pos by (intro mult_right_mono) simp_all
  qed
  have "(r \<le> x \<longrightarrow> r \<le> rnd64 x) \<and> (x \<le> r \<longrightarrow> rnd64 x \<le> r)"
  proof (cases "e \<le> - 5")
    case True
    define z where "z = k * 2 ^ nat (- 5 - e)"
    have "(2 :: rat) powi (- 5 - e) = 2 ^ nat (- 5 - e)" using True by (simp add: power_int_def)
    moreover have "(2 :: rat) powi (- 5 - e + e) = 2 powi (- 5 - e) * 2 powi e" by (rule power_int_add) simp
    moreover have "- 5 - e + e = - 5" by simp
    moreover have "(2 :: rat) powi (- 5) = 1 / 2 ^ 5"
      by (simp only: power_int_minus power_int_numeral inverse_eq_divide)
    ultimately have "(2 :: rat) ^ nat (- 5 - e) * 2 powi e = 1 / 2 ^ 5" by metis
    then have z: "of_int z * 2 powi e = r" by (simp add: z_def r mult.assoc)
    have "r \<le> x \<Longrightarrow> of_int z \<le> ?m" "x \<le> r \<Longrightarrow> ?m \<le> of_int z"
      using pos z by (simp_all add: pos_le_divide_eq pos_divide_le_eq)
    then have "r \<le> x \<Longrightarrow> z \<le> round_half_even ?m" "x \<le> r \<Longrightarrow> round_half_even ?m \<le> z"
      using round_half_even_int_le round_half_even_le_int by blast+
    then show ?thesis
      unfolding rnd z [symmetric] using pos by (simp add: mult_right_mono)
  next
    case False
    then have "(2 :: rat) powi (- 4) \<le> 2 powi e" by (intro power_int_increasing) simp_all
    then have "(2 ^ 48 :: rat) \<le> 2 ^ 52 * 2 powi e" by (simp add: power_int_minus field_simps)
    moreover have "r < 2 ^ 48"
    proof -
      have "(of_int k :: rat) < of_int (2 ^ 53)" using k by (simp only: of_int_less_iff)
      then show ?thesis by (simp add: r)
    qed
    ultimately show ?thesis using big bigR by simp
  qed
  then show "r \<le> x \<Longrightarrow> r \<le> rnd64 x" "x \<le> r \<Longrightarrow> rnd64 x \<le> r" by blast+
qed

end
