(* ===== verification/GoText.thy ===== *)
theory GoText
  imports Prelude
begin

text \<open>
  The parts of Go's \<open>strings\<close>, \<open>bytes\<close>, \<open>strconv\<close> and \<open>fmt\<close> the program calls, on byte
  strings (\<open>string\<close>, one \<open>char\<close> per byte). Decimal formatting (\<open>FormatUint\<close>, \<open>Itoa\<close>,
  \<open>%020d\<close>, \<open>%06d\<close>), parsing with the syntax and range errors of \<open>strconv.NumError\<close>, and the
  splitting functions. White space is the ASCII white space of \<open>unicode.IsSpace\<close>: the
  texts parsed are kernel files and identifiers the program writes itself, which are ASCII.
\<close>

abbreviation NL :: char where "NL \<equiv> CHR 0x0A"
abbreviation CR :: char where "CR \<equiv> CHR 0x0D"
abbreviation TAB :: char where "TAB \<equiv> CHR 0x09"
abbreviation SP :: char where "SP \<equiv> CHR '' ''"
abbreviation QT :: char where "QT \<equiv> CHR 0x22"

subsection \<open>Decimal digits\<close>

definition digit_char :: "nat \<Rightarrow> char" where
  "digit_char d = char_of (48 + d)"

definition is_digit :: "char \<Rightarrow> bool" where
  "is_digit c \<longleftrightarrow> 48 \<le> (of_char c :: nat) \<and> (of_char c :: nat) \<le> 57"

definition digit_val :: "char \<Rightarrow> nat" where
  "digit_val c = of_char c - 48"

fun dec :: "nat \<Rightarrow> string" where
  "dec n = (if n < 10 then [digit_char n] else dec (n div 10) @ [digit_char (n mod 10)])"

declare dec.simps [simp del]

definition pad0 :: "nat \<Rightarrow> string \<Rightarrow> string" where
  "pad0 w s = replicate (w - length s) (CHR ''0'') @ s"

definition format_uint :: "u64 \<Rightarrow> string" where
  "format_uint v = dec (unat v)"

definition format_int :: "int \<Rightarrow> string" where
  "format_int x = (if x < 0 then CHR ''-'' # dec (nat (- x)) else dec (nat x))"

definition fmt_020d :: "u64 \<Rightarrow> string" where
  "fmt_020d v = pad0 20 (dec (unat v))"

definition fmt_06d :: "int \<Rightarrow> string" where
  "fmt_06d x = (if x < 0 then CHR ''-'' # pad0 5 (dec (nat (- x))) else pad0 6 (dec (nat x)))"

subsection \<open>Parsing integers\<close>

datatype num_error = ErrSyntax | ErrRange

text \<open>
  \<open>strconv.ParseUint(s, 10, 64)\<close>: digits from left to right, stopping at the first bad
  character or the first digit that overflows; the value on a range error is the largest
  \<open>uint64\<close>.
\<close>

fun parse_uint_loop :: "nat \<Rightarrow> string \<Rightarrow> u64 \<times> num_error option" where
  "parse_uint_loop n [] = (of_nat n, None)"
| "parse_uint_loop n (c # cs) =
     (if \<not> is_digit c then (0, Some ErrSyntax)
      else if 2 ^ 64 \<le> n * 10 + digit_val c then (- 1, Some ErrRange)
      else parse_uint_loop (n * 10 + digit_val c) cs)"

definition parse_uint :: "string \<Rightarrow> u64 \<times> num_error option" where
  "parse_uint s = (if s = [] then (0, Some ErrSyntax) else parse_uint_loop 0 s)"

text \<open>\<open>strconv.ParseInt(s, 10, 64)\<close>, and \<open>strconv.Atoi\<close>, which agrees with it on 64 bits.\<close>

definition parse_int :: "string \<Rightarrow> int \<times> num_error option" where
  "parse_int s =
     (if s = [] then (0, Some ErrSyntax) else
      let neg = (hd s = CHR ''-'');
          digits = (if hd s = CHR ''+'' \<or> hd s = CHR ''-'' then tl s else s)
      in case parse_uint digits of
           (un, Some ErrSyntax) \<Rightarrow> (0, Some ErrSyntax)
         | (un, _) \<Rightarrow>
             (if \<not> neg \<and> 2 ^ 63 \<le> unat un then (2 ^ 63 - 1, Some ErrRange)
              else if neg \<and> 2 ^ 63 < unat un then (- (2 ^ 63), Some ErrRange)
              else (if neg then - int (unat un) else int (unat un), None)))"

abbreviation atoi :: "string \<Rightarrow> int \<times> num_error option" where
  "atoi \<equiv> parse_int"

subsection \<open>Splitting and trimming\<close>

definition is_space :: "char \<Rightarrow> bool" where
  "is_space c \<longleftrightarrow> c \<in> {SP, TAB, NL, CHR 0x0B, CHR 0x0C, CR}"

definition contains_any :: "string \<Rightarrow> string \<Rightarrow> bool" where
  "contains_any s cs = list_ex (\<lambda>c. c \<in> set cs) s"

definition trim_suffix_char :: "char \<Rightarrow> string \<Rightarrow> string" where
  "trim_suffix_char c s = (if s \<noteq> [] \<and> last s = c then butlast s else s)"

fun splitN :: "nat \<Rightarrow> char \<Rightarrow> string \<Rightarrow> string list" where
  "splitN 0 c s = []"
| "splitN (Suc 0) c s = [s]"
| "splitN (Suc (Suc n)) c s =
     (if c \<in> set s
      then takeWhile (\<lambda>x. x \<noteq> c) s # splitN (Suc n) c (tl (dropWhile (\<lambda>x. x \<noteq> c) s))
      else [s])"

fun fields_from :: "string \<Rightarrow> string \<Rightarrow> string list" where
  "fields_from cur [] = (if cur = [] then [] else [rev cur])"
| "fields_from cur (c # s) =
     (if is_space c then (if cur = [] then fields_from [] s else rev cur # fields_from [] s)
      else fields_from (c # cur) s)"

definition Fields :: "string \<Rightarrow> string list" where
  "Fields s = fields_from [] s"

definition trim_space :: "string \<Rightarrow> string" where
  "trim_space s = rev (dropWhile is_space (rev (dropWhile is_space s)))"

definition has_prefix :: "string \<Rightarrow> string \<Rightarrow> bool" where
  "has_prefix s p \<longleftrightarrow> take (length p) s = p"

definition trim_prefix :: "string \<Rightarrow> string \<Rightarrow> string" where
  "trim_prefix s p = (if has_prefix s p then drop (length p) s else s)"

text \<open>\<open>filepath.Base\<close> on slash-separated paths.\<close>

definition path_base :: "string \<Rightarrow> string" where
  "path_base p =
     (if p = [] then ''.'' else
      let q = rev (dropWhile (\<lambda>c. c = CHR ''/'') (rev p))
      in if q = [] then ''/'' else rev (takeWhile (\<lambda>c. c \<noteq> CHR ''/'') (rev q)))"

subsection \<open>Facts about digits\<close>

lemma of_digit_char: "d < 10 \<Longrightarrow> (of_char (digit_char d) :: nat) = 48 + d"
  by (simp add: digit_char_def)

lemma is_digit_digit_char [simp]: "d < 10 \<Longrightarrow> is_digit (digit_char d)"
  by (simp add: is_digit_def of_digit_char)

lemma digit_val_digit_char [simp]: "d < 10 \<Longrightarrow> digit_val (digit_char d) = d"
  by (simp add: digit_val_def of_digit_char)

lemma digit_val_less: "is_digit c \<Longrightarrow> digit_val c < 10"
  unfolding is_digit_def digit_val_def by linarith

lemma digit_char_digit_val [simp]: "is_digit c \<Longrightarrow> digit_char (digit_val c) = c"
  by (simp add: is_digit_def digit_val_def digit_char_def)

lemma is_digit_zero [simp]: "is_digit (CHR ''0'')" "digit_val (CHR ''0'') = 0"
  by (simp_all add: is_digit_def digit_val_def)

lemma is_digit_not [simp]:
  "\<not> is_digit SP" "\<not> is_digit NL" "\<not> is_digit CR" "\<not> is_digit TAB"
  "\<not> is_digit (CHR ''-'')" "\<not> is_digit (CHR ''+'')" "\<not> is_digit (CHR '','')"
  "\<not> is_digit (CHR 0x22)" "\<not> is_digit (CHR ''.'')" "\<not> is_digit (CHR ''/'')"
  by (simp_all add: is_digit_def)

lemma space_not_digit: "is_space c \<Longrightarrow> \<not> is_digit c"
  by (auto simp: is_space_def is_digit_def)

definition digits_val :: "string \<Rightarrow> nat" where
  "digits_val s = foldl (\<lambda>n c. n * 10 + digit_val c) 0 s"

lemma digits_val_snoc [simp]: "digits_val (s @ [c]) = digits_val s * 10 + digit_val c"
  by (simp add: digits_val_def)

lemma digits_val_Nil [simp]: "digits_val [] = 0"
  by (simp add: digits_val_def)

lemma foldl_digits: "foldl (\<lambda>n c. n * 10 + digit_val c) n s = n * 10 ^ length s + digits_val s"
proof (induction s arbitrary: n rule: rev_induct)
  case Nil
  then show ?case by simp
next
  case (snoc c s)
  then show ?case by (simp add: algebra_simps)
qed

lemma digits_val_append: "digits_val (s @ t) = digits_val s * 10 ^ length t + digits_val t"
  using foldl_digits [of "digits_val s" t] by (simp add: digits_val_def)

lemma digits_val_zeros [simp]: "digits_val (replicate k (CHR ''0'')) = 0"
  by (induction k) (simp_all add: digits_val_append [of "[_]", simplified] digits_val_def)

lemma digits_val_less: "list_all is_digit s \<Longrightarrow> digits_val s < 10 ^ length s"
proof (induction s rule: rev_induct)
  case Nil
  then show ?case by simp
next
  case (snoc c s)
  then have "digits_val s + 1 \<le> 10 ^ length s" and "digit_val c < 10"
    by (simp_all add: digit_val_less)
  then show ?case by simp
qed

lemma digits_val_inj:
  "length s = length t \<Longrightarrow> list_all is_digit s \<Longrightarrow> list_all is_digit t \<Longrightarrow>
   digits_val s = digits_val t \<Longrightarrow> s = t"
proof (induction s arbitrary: t rule: rev_induct)
  case Nil
  then show ?case by simp
next
  case (snoc c s)
  obtain d u where t: "t = u @ [d]"
    using snoc.prems(1) by (cases t rule: rev_cases) auto
  have dig: "digit_val c < 10" "digit_val d < 10"
    using snoc.prems t by (auto simp: digit_val_less)
  have "digits_val s * 10 + digit_val c = digits_val u * 10 + digit_val d"
    using snoc.prems t by simp
  with dig have "digits_val s = digits_val u" and v: "digit_val c = digit_val d"
    by arith+
  then have "s = u" using snoc t by auto
  moreover have "is_digit c" "is_digit d" using snoc.prems t by auto
  with v have "c = d" by (metis digit_char_digit_val)
  ultimately show ?case using t by simp
qed

subsection \<open>Facts about formatting\<close>

lemma dec_digits [simp]: "list_all is_digit (dec n)"
proof (induction n rule: dec.induct)
  case (1 n)
  then show ?case by (subst dec.simps) (auto simp: list_all_iff)
qed

lemma dec_nonempty [simp]: "dec n \<noteq> []"
  by (subst dec.simps) simp

lemma digits_val_dec [simp]: "digits_val (dec n) = n"
proof (induction n rule: dec.induct)
  case (1 n)
  show ?case
  proof (cases "n < 10")
    case True
    then show ?thesis by (subst dec.simps) (simp add: digits_val_def)
  next
    case False
    with 1 show ?thesis by (subst dec.simps) simp
  qed
qed

lemma length_dec_le: "n < 10 ^ k \<Longrightarrow> 0 < k \<Longrightarrow> length (dec n) \<le> k"
proof (induction n arbitrary: k rule: dec.induct)
  case (1 n)
  show ?case
  proof (cases "n < 10")
    case True
    with 1 show ?thesis by (subst dec.simps) simp
  next
    case False
    then obtain j where k: "k = Suc j" "0 < j"
      using 1(2,3) by (cases k; cases "k - 1") auto
    then have "n div 10 < 10 ^ j" using 1(2) by auto
    with 1 False k have "length (dec (n div 10)) \<le> j" by simp
    with False k show ?thesis by (subst dec.simps) simp
  qed
qed

lemma pad0_digits [simp]: "list_all is_digit s \<Longrightarrow> list_all is_digit (pad0 w s)"
  by (auto simp: pad0_def list_all_iff)

lemma digits_val_pad0 [simp]: "digits_val (pad0 w s) = digits_val s"
  by (simp add: pad0_def digits_val_append)

lemma length_pad0: "length (pad0 w s) = max w (length s)"
  by (simp add: pad0_def)

lemma pad0_nonempty [simp]: "s \<noteq> [] \<Longrightarrow> pad0 w s \<noteq> []"
  by (simp add: pad0_def)

lemma fmt_020d_digits [simp]: "list_all is_digit (fmt_020d v)"
  by (simp add: fmt_020d_def)

lemma digits_val_fmt_020d [simp]: "digits_val (fmt_020d v) = unat v"
  by (simp add: fmt_020d_def)

lemma length_fmt_020d [simp, go_text]: "length (fmt_020d v) = 20"
proof -
  have "unat v < 2 ^ 64" using unat_u64_less [of v] by simp
  also have "\<dots> < (10::nat) ^ 20" by simp
  finally have "length (dec (unat v)) \<le> 20" by (rule length_dec_le) simp
  then show ?thesis by (simp add: fmt_020d_def length_pad0)
qed

lemma digits_no_char: "list_all is_digit s \<Longrightarrow> \<not> is_digit c \<Longrightarrow> c \<notin> set s"
  by (auto simp: list_all_iff)

subsection \<open>Facts about parsing\<close>

lemma parse_uint_loop_ok:
  "list_all is_digit s \<Longrightarrow> n * 10 ^ length s + digits_val s < 2 ^ 64 \<Longrightarrow>
   parse_uint_loop n s = (of_nat (n * 10 ^ length s + digits_val s), None)"
proof (induction s arbitrary: n)
  case Nil
  then show ?case by simp
next
  case (Cons c s)
  have v: "digits_val (c # s) = digit_val c * 10 ^ length s + digits_val s"
    using digits_val_append [of "[c]" s] by (simp add: digits_val_def)
  then have eq: "n * 10 ^ length (c # s) + digits_val (c # s) =
      (n * 10 + digit_val c) * 10 ^ length s + digits_val s"
    by (simp add: algebra_simps)
  have "n * 10 + digit_val c \<le> (n * 10 + digit_val c) * 10 ^ length s" by simp
  with eq Cons.prems(2) have "n * 10 + digit_val c < 2 ^ 64" by linarith
  with Cons eq show ?case by simp
qed

lemma parse_uint_digits:
  "s \<noteq> [] \<Longrightarrow> list_all is_digit s \<Longrightarrow> digits_val s < 2 ^ 64 \<Longrightarrow>
   parse_uint s = (of_nat (digits_val s), None)"
  using parse_uint_loop_ok [of s 0] by (simp add: parse_uint_def)

lemma parse_uint_loop_None:
  "parse_uint_loop n s = (v, None) \<Longrightarrow> n < 2 ^ 64 \<Longrightarrow>
   list_all is_digit s \<and> unat v = n * 10 ^ length s + digits_val s"
proof (induction s arbitrary: n)
  case Nil
  then show ?case by (auto simp: unat_of_nat)
next
  case (Cons c s)
  have v: "digits_val (c # s) = digit_val c * 10 ^ length s + digits_val s"
    using digits_val_append [of "[c]" s] by (simp add: digits_val_def)
  from Cons show ?case
    by (auto simp: v algebra_simps not_le split: if_splits)
qed

lemma parse_uint_None:
  assumes "parse_uint s = (v, None)"
  shows "s \<noteq> []" and "list_all is_digit s" and "unat v = digits_val s"
  using assms parse_uint_loop_None [of 0 s v] by (auto simp: parse_uint_def split: if_splits)

lemma parse_format_uint [simp, go_text]: "parse_uint (format_uint v) = (v, None)"
  using unat_u64_less [of v]
  by (simp add: format_uint_def parse_uint_digits)

lemma parse_fmt_020d [simp, go_text]: "parse_uint (fmt_020d v) = (v, None)"
proof -
  have "fmt_020d v \<noteq> []" by (simp add: fmt_020d_def)
  then show ?thesis
    using unat_u64_less [of v] by (simp add: parse_uint_digits)
qed

lemma hd_dec_digit: "is_digit (hd (dec n))"
  using dec_digits [of n] dec_nonempty [of n] by (auto simp: list_all_iff simp del: dec_digits)

lemma parse_format_int [simp, go_text]:
  assumes "in_int64 x"
  shows "parse_int (format_int x) = (x, None)"
proof (cases "x < 0")
  case True
  have b: "nat (- x) < 2 ^ 64" "nat (- x) \<le> 2 ^ 63"
    using assms by (auto simp: in_int64_def)
  then have "unat (of_nat (nat (- x)) :: u64) = nat (- x)"
    by (simp add: unat_of_nat_u64)
  with True b show ?thesis
    by (simp add: parse_int_def format_int_def parse_uint_digits Let_def)
next
  case False
  have b: "nat x < 2 ^ 64" "nat x < 2 ^ 63"
    using assms by (auto simp: in_int64_def)
  then have u: "unat (of_nat (nat x) :: u64) = nat x"
    by (simp add: unat_of_nat_u64)
  have "hd (dec (nat x)) \<noteq> CHR ''+''" "hd (dec (nat x)) \<noteq> CHR ''-''"
    using hd_dec_digit [of "nat x"] by (auto simp: is_digit_def)
  with False b u show ?thesis
    by (simp add: parse_int_def format_int_def parse_uint_digits Let_def)
qed

end
