(* ===== verification/Paths.thy ===== *)
theory Paths
  imports GoText
begin

text \<open>
  The parts of Go's \<open>path/filepath\<close> (slash-separated paths) and \<open>time\<close> the program calls:
  \<open>Clean\<close>, \<open>Join\<close>, \<open>Dir\<close>, \<open>Abs\<close> (over the outcome of \<open>os.Getwd\<close>) and \<open>Duration.String\<close>.
\<close>

subsection \<open>Paths\<close>

fun path_parts :: "string \<Rightarrow> string \<Rightarrow> string list" where
  "path_parts cur [] = [rev cur]"
| "path_parts cur (c # s) =
     (if c = CHR ''/'' then rev cur # path_parts [] s else path_parts (c # cur) s)"

fun join_with :: "string \<Rightarrow> string list \<Rightarrow> string" where
  "join_with sep [] = []"
| "join_with sep [p] = p"
| "join_with sep (p # q # ps) = p @ sep @ join_with sep (q # ps)"

definition is_abs :: "string \<Rightarrow> bool" where
  "is_abs p \<longleftrightarrow> has_prefix p ''/''"

definition clean_step :: "bool \<Rightarrow> string \<Rightarrow> string list \<Rightarrow> string list" where
  "clean_step rooted c acc =
     (if c = [] \<or> c = ''.'' then acc
      else if c = ''..'' then
        (case acc of [] \<Rightarrow> if rooted then [] else [c]
         | a # as \<Rightarrow> if a = ''..'' then c # acc else as)
      else c # acc)"

definition path_clean :: "string \<Rightarrow> string" where
  "path_clean p =
     (let parts = rev (fold (clean_step (is_abs p)) (path_parts [] p) []);
          body = join_with ''/'' parts
      in if is_abs p then CHR ''/'' # body else if body = [] then ''.'' else body)"

definition path_join :: "string list \<Rightarrow> string" where
  "path_join ps =
     (let qs = filter (\<lambda>p. p \<noteq> []) ps in if qs = [] then [] else path_clean (join_with ''/'' qs))"

definition path_dir :: "string \<Rightarrow> string" where
  "path_dir p = path_clean (rev (dropWhile (\<lambda>c. c \<noteq> CHR ''/'') (rev p)))"

definition path_abs :: "string result \<Rightarrow> string \<Rightarrow> string result" where
  "path_abs getwd p =
     (if is_abs p then Inr (path_clean p)
      else case getwd of Inl e \<Rightarrow> Inl e | Inr wd \<Rightarrow> Inr (path_join [wd, p]))"

lemma path_examples:
  "path_join [''/var/log'', ''x.log''] = ''/var/log/x.log''"
  "path_clean ''a/./b//../c'' = ''a/c''" "path_clean ''/../x'' = ''/x''" "path_clean [] = ''.''"
  "path_dir ''/a/b.log'' = ''/a''" "path_dir ''b.log'' = ''.''"
  by code_simp+

subsection \<open>Durations\<close>

text \<open>\<open>time.Duration\<close> is a number of nanoseconds; \<open>fmtFrac\<close> drops trailing zeros.\<close>

definition micro :: string where "micro = [CHR 0xC2, CHR 0xB5]"

definition fmt_frac :: "nat \<Rightarrow> nat \<Rightarrow> string" where
  "fmt_frac v prec =
     (let f = rev (dropWhile (\<lambda>c. c = CHR ''0'') (rev (pad0 prec (dec (v mod 10 ^ prec)))))
      in dec (v div 10 ^ prec) @ (if f = [] then [] else CHR ''.'' # f))"

definition fmt_seconds :: "nat \<Rightarrow> string" where
  "fmt_seconds u =
     (let secs = u div 10 ^ 9; mins = secs div 60; hours = mins div 60;
          s = fmt_frac ((secs mod 60) * 10 ^ 9 + u mod 10 ^ 9) 9 @ ''s''
      in if mins = 0 then s
         else if hours = 0 then dec mins @ ''m'' @ s
         else dec hours @ ''h'' @ dec (mins mod 60) @ ''m'' @ s)"

definition duration_string :: "int \<Rightarrow> string" where
  "duration_string d =
     (let u = nat \<bar>d\<bar>;
          body = (if u = 0 then ''0s''
                  else if u < 10 ^ 3 then dec u @ ''ns''
                  else if u < 10 ^ 6 then fmt_frac u 3 @ micro @ ''s''
                  else if u < 10 ^ 9 then fmt_frac u 6 @ ''ms''
                  else fmt_seconds u)
      in (if d < 0 then ''-'' else []) @ body)"

lemma digit_char_literals:
  "digit_char (Suc 0) = CHR ''1''"
  "digit_char 0 = CHR ''0''"
  "digit_char 1 = CHR ''1''"
  "digit_char 2 = CHR ''2''"
  "digit_char 3 = CHR ''3''"
  "digit_char 4 = CHR ''4''"
  "digit_char 5 = CHR ''5''"
  "digit_char 6 = CHR ''6''"
  "digit_char 7 = CHR ''7''"
  "digit_char 8 = CHR ''8''"
  "digit_char 9 = CHR ''9''"
  by code_simp+

lemma duration_examples:
  "duration_string 100000000 = ''100ms''" "duration_string 90000000000 = ''1m30s''"
  "duration_string 1500000 = ''1.5ms''" "duration_string 0 = ''0s''"
  by (simp_all add: duration_string_def fmt_seconds_def fmt_frac_def pad0_def dec.simps
      digit_char_literals Let_def)

subsection \<open>Timestamps\<close>

text \<open>\<open>Time.UTC().Format(time.RFC3339Nano)\<close> of a time given in nanoseconds since 1970: the date in
  the proleptic Gregorian calendar, counted in 400-year eras from 1 March of year 0.\<close>

definition civil_date :: "int \<Rightarrow> int \<times> int \<times> int" where
  "civil_date days =
     (let z = days + 719468; era = z div 146097; doe = z mod 146097;
          yoe = (doe - doe div 1460 + doe div 36524 - doe div 146096) div 365;
          doy = doe - (365 * yoe + yoe div 4 - yoe div 100);
          mp = (5 * doy + 2) div 153;
          d = doy - (153 * mp + 2) div 5 + 1;
          m = (if mp < 10 then mp + 3 else mp - 9)
      in (yoe + era * 400 + (if m \<le> 2 then 1 else 0), m, d))"

definition two_digits :: "int \<Rightarrow> string" where
  "two_digits x = pad0 2 (dec (nat x))"

definition nano_fraction :: "nat \<Rightarrow> string" where
  "nano_fraction n =
     (let f = rev (dropWhile (\<lambda>c. c = CHR ''0'') (rev (pad0 9 (dec n))))
      in if f = [] then [] else CHR ''.'' # f)"

definition rfc3339_nano :: "int \<Rightarrow> string" where
  "rfc3339_nano ns =
     (let secs = ns div 10 ^ 9; sod = secs mod 86400; (y, m, d) = civil_date (secs div 86400)
      in pad0 4 (dec (nat y)) @ ''-'' @ two_digits m @ ''-'' @ two_digits d @ ''T'' @
         two_digits (sod div 3600) @ '':'' @ two_digits (sod div 60 mod 60) @ '':'' @
         two_digits (sod mod 60) @ nano_fraction (nat (ns mod 10 ^ 9)) @ ''Z'')"

lemma rfc3339_examples:
  "civil_date 0 = (1970, 1, 1)" "civil_date 20664 = (2026, 7, 30)" "civil_date 11016 = (2000, 2, 29)"
  unfolding civil_date_def by (simp only: Let_def, simp)+

text \<open>A timestamp has no character that CSV treats specially.\<close>

lemma in_set_dropWhile: "c \<in> set (dropWhile P s) \<Longrightarrow> c \<in> set s"
  by (induction s) (auto split: if_splits)

lemma digits_chars: "c \<in> set (pad0 n (dec k)) \<Longrightarrow> is_digit c"
  using pad0_digits [OF dec_digits, of n k] by (simp add: list_all_iff)

lemma nano_fraction_chars: "c \<in> set (nano_fraction n) \<Longrightarrow> is_digit c \<or> c = CHR ''.''"
  by (auto simp: nano_fraction_def Let_def dest!: in_set_dropWhile digits_chars split: if_splits)

lemma timestamp_chars:
  "c \<in> set (rfc3339_nano ns) \<Longrightarrow> is_digit c \<or> c \<in> set ''-T:.Z''"
  by (auto simp: rfc3339_nano_def Let_def two_digits_def
      dest!: digits_chars nano_fraction_chars split: prod.splits)

end
