(* ===== verification/Flags.thy ===== *)
theory Flags
  imports GoFloat Paths
begin

text \<open>
  The parts of Go's \<open>flag\<close>, \<open>strconv\<close> and \<open>time\<close> the command line uses: \<open>FlagSet.Parse\<close> with string,
  integer, duration and Boolean flags, \<open>ParseInt\<close> with base 0 (prefixes and underscores),
  \<open>ParseBool\<close> and \<open>ParseDuration\<close>. The locale \<open>flag_value\<close> is the contract between the code that
  formats an argument and the flag that reads it; it is interpreted for the three value types the
  program passes to its children. Error texts quote the argument without Go's escapes.
\<close>

subsection \<open>Integers with base 0\<close>

definition lower_code :: "char \<Rightarrow> nat" where
  "lower_code c = (let n = of_char c :: nat in if 65 \<le> n \<and> n \<le> 90 then n + 32 else n)"

definition digit_of :: "char \<Rightarrow> nat option" where
  "digit_of c = (if is_digit c then Some (digit_val c)
     else if 97 \<le> lower_code c \<and> lower_code c \<le> 122 then Some (lower_code c - 87) else None)"

fun uint_loop :: "nat \<Rightarrow> nat \<Rightarrow> string \<Rightarrow> u64 \<times> num_error option" where
  "uint_loop base n [] = (of_nat n, None)"
| "uint_loop base n (c # cs) =
     (if c = CHR ''_'' then uint_loop base n cs
      else case digit_of c of
        None \<Rightarrow> (0, Some ErrSyntax)
      | Some d \<Rightarrow>
          (if base \<le> d then (0, Some ErrSyntax)
           else if 2 ^ 64 \<le> n * base + d then (- 1, Some ErrRange)
           else uint_loop base (n * base + d) cs))"

definition base_prefix :: "string \<Rightarrow> nat \<times> string" where
  "base_prefix s =
     (if hd s \<noteq> CHR ''0'' then (10, s)
      else if 3 \<le> length s \<and> lower_code (s ! 1) = 98 then (2, drop 2 s)
      else if 3 \<le> length s \<and> lower_code (s ! 1) = 111 then (8, drop 2 s)
      else if 3 \<le> length s \<and> lower_code (s ! 1) = 120 then (16, drop 2 s)
      else (8, tl s))"

text \<open>Underscores may only separate digits; \<open>saw\<close> is the class of the previous character.\<close>

fun underscore_loop :: "bool \<Rightarrow> char \<Rightarrow> string \<Rightarrow> bool" where
  "underscore_loop hex saw [] = (saw \<noteq> CHR ''_'')"
| "underscore_loop hex saw (c # cs) =
     (if is_digit c \<or> hex \<and> 97 \<le> lower_code c \<and> lower_code c \<le> 102
      then underscore_loop hex (CHR ''0'') cs
      else if c = CHR ''_'' then (saw = CHR ''0'' \<and> underscore_loop hex (CHR ''_'') cs)
      else (saw \<noteq> CHR ''_'' \<and> underscore_loop hex (CHR ''!'') cs))"

definition underscore_ok :: "string \<Rightarrow> bool" where
  "underscore_ok s =
     (let s = (if s \<noteq> [] \<and> hd s \<in> {CHR ''-'', CHR ''+''} then tl s else s);
          prefixed = (2 \<le> length s \<and> hd s = CHR ''0'' \<and> lower_code (s ! 1) \<in> {98, 111, 120});
          hex = (prefixed \<and> lower_code (s ! 1) = 120)
      in if prefixed then underscore_loop hex (CHR ''0'') (drop 2 s) else underscore_loop hex (CHR ''^'') s)"

definition parse_uint0 :: "string \<Rightarrow> u64 \<times> num_error option" where
  "parse_uint0 s =
     (if s = [] then (0, Some ErrSyntax)
      else let (base, digits) = base_prefix s in
        case uint_loop base 0 digits of
          (n, Some e) \<Rightarrow> (n, Some e)
        | (n, None) \<Rightarrow> (if CHR ''_'' \<in> set digits \<and> \<not> underscore_ok s then (0, Some ErrSyntax) else (n, None)))"

definition parse_int0 :: "string \<Rightarrow> int \<times> num_error option" where
  "parse_int0 s =
     (if s = [] then (0, Some ErrSyntax) else
      let neg = (hd s = CHR ''-'');
          digits = (if hd s = CHR ''+'' \<or> hd s = CHR ''-'' then tl s else s)
      in case parse_uint0 digits of
           (un, Some ErrSyntax) \<Rightarrow> (0, Some ErrSyntax)
         | (un, _) \<Rightarrow>
             (if \<not> neg \<and> 2 ^ 63 \<le> unat un then (2 ^ 63 - 1, Some ErrRange)
              else if neg \<and> 2 ^ 63 < unat un then (- (2 ^ 63), Some ErrRange)
              else (if neg then - int (unat un) else int (unat un), None)))"

subsection \<open>Durations\<close>

fun leading_int :: "nat \<Rightarrow> string \<Rightarrow> (nat \<times> string) option" where
  "leading_int x [] = Some (x, [])"
| "leading_int x (c # s) =
     (if \<not> is_digit c then Some (x, c # s)
      else if 2 ^ 63 div 10 < x \<or> 2 ^ 63 < x * 10 + digit_val c then None
      else leading_int (x * 10 + digit_val c) s)"

fun leading_fraction :: "bool \<Rightarrow> nat \<Rightarrow> f64 \<Rightarrow> string \<Rightarrow> nat \<times> f64 \<times> string" where
  "leading_fraction over x scale [] = (x, scale, [])"
| "leading_fraction over x scale (c # s) =
     (if \<not> is_digit c then (x, scale, c # s)
      else if over \<or> (2 ^ 63 - 1) div 10 < x \<or> 2 ^ 63 < x * 10 + digit_val c
      then leading_fraction True x scale s
      else leading_fraction False (x * 10 + digit_val c) (f64_mul scale 10) s)"

definition duration_unit :: "string \<Rightarrow> nat option" where
  "duration_unit u = map_of
     [(''ns'', 1), (''us'', 10 ^ 3), (micro @ ''s'', 10 ^ 3), ([CHR 0xCE, CHR 0xBC] @ ''s'', 10 ^ 3),
      (''ms'', 10 ^ 6), (''s'', 10 ^ 9), (''m'', 60 * 10 ^ 9), (''h'', 3600 * 10 ^ 9)] u"

definition unit_char :: "char \<Rightarrow> bool" where
  "unit_char c \<longleftrightarrow> c \<noteq> CHR ''.'' \<and> \<not> is_digit c"

definition duration_value :: "nat \<Rightarrow> nat \<Rightarrow> f64 \<Rightarrow> nat \<Rightarrow> nat option" where
  "duration_value v f scale unit =
     (if 2 ^ 63 div unit < v then None
      else if f = 0 then Some (v * unit)
      else let v = v * unit + nat \<lfloor>f64_mul (f64_of_int (int f)) (f64_div (f64_of_int (int unit)) scale)\<rfloor>
        in if 2 ^ 63 < v then None else Some v)"

definition duration_part :: "string \<Rightarrow> (nat \<times> string) option" where
  "duration_part s =
     (if \<not> (hd s = CHR ''.'' \<or> is_digit (hd s)) then None
      else case leading_int 0 s of
        None \<Rightarrow> None
      | Some (v, s1) \<Rightarrow>
          (let pre = (length s1 \<noteq> length s); dot = (s1 \<noteq> [] \<and> hd s1 = CHR ''.'');
               (f, scale, s2) = (if dot then leading_fraction False 0 1 (tl s1) else (0, 1, s1));
               post = (dot \<and> length s2 \<noteq> length (tl s1));
               u = takeWhile unit_char s2
           in if \<not> pre \<and> \<not> post then None
              else case duration_unit u of
                None \<Rightarrow> None
              | Some unit \<Rightarrow> map_option (\<lambda>x. (x, dropWhile unit_char s2)) (duration_value v f scale unit)))"

lemma leading_int_rest: "leading_int x s = Some (v, r) \<Longrightarrow> length r \<le> length s"
  by (induction x s rule: leading_int.induct) (auto split: if_splits)

lemma leading_fraction_rest: "leading_fraction b x sc s = (f, sc', r) \<Longrightarrow> length r \<le> length s"
  by (induction b x sc s rule: leading_fraction.induct) (auto split: if_splits)

lemma duration_part_rest:
  assumes "duration_part s = Some (x, r)"
  shows "length r < length s"
proof -
  obtain v s1 where 1: "leading_int 0 s = Some (v, s1)"
    using assms by (auto simp: duration_part_def split: if_splits option.splits)
  define dot where "dot = (s1 \<noteq> [] \<and> hd s1 = CHR ''.'')"
  obtain f scale s2 where 2: "(if dot then leading_fraction False 0 1 (tl s1) else (0, 1, s1)) = (f, scale, s2)"
    by (cases "if dot then leading_fraction False 0 1 (tl s1) else (0, 1, s1)") auto
  have u: "duration_unit (takeWhile unit_char s2) \<noteq> None" "r = dropWhile unit_char s2"
    using assms 1 2 by (auto simp: duration_part_def dot_def Let_def split: if_splits option.splits prod.splits)
  have "duration_unit [] = None" by (simp add: duration_unit_def micro_def)
  with u(1) have "takeWhile unit_char s2 \<noteq> []" by metis
  then have "0 < length (takeWhile unit_char s2)" by simp
  moreover have "length (takeWhile unit_char s2) + length r = length s2"
    unfolding u(2) by (metis length_append takeWhile_dropWhile_id)
  moreover have "length s2 \<le> length s1"
    using 2 leading_fraction_rest [of False 0 1 "tl s1" f scale s2] by (auto split: if_splits)
  moreover have "length s1 \<le> length s" using leading_int_rest [OF 1] .
  ultimately show ?thesis by linarith
qed

function duration_loop :: "nat \<Rightarrow> string \<Rightarrow> nat option" where
  "duration_loop d s =
     (if s = [] then Some d
      else case duration_part s of
        None \<Rightarrow> None
      | Some (x, r) \<Rightarrow> if 2 ^ 63 < d + x then None else duration_loop (d + x) r)"
  by pat_completeness auto
termination
  by (relation "measure (\<lambda>(d, s). length s)") (simp, metis duration_part_rest in_measure case_prod_conv)

declare duration_loop.simps [simp del]

definition parse_duration :: "string \<Rightarrow> int option" where
  "parse_duration s =
     (let neg = (s \<noteq> [] \<and> hd s = CHR ''-'');
          body = (if s \<noteq> [] \<and> hd s \<in> {CHR ''-'', CHR ''+''} then tl s else s)
      in if body = ''0'' then Some 0
         else if body = [] then None
         else case duration_loop 0 body of
           None \<Rightarrow> None
         | Some d \<Rightarrow> if neg then Some (- int d) else if 2 ^ 63 - 1 < d then None else Some (int d))"

subsection \<open>Flag sets\<close>

text \<open>A flag sets a field of the command's configuration; a Boolean flag needs no argument.\<close>

datatype 'c flag = Value "string \<Rightarrow> 'c \<Rightarrow> 'c result" | Switch "string \<Rightarrow> 'c \<Rightarrow> 'c result"

definition typed :: "(string \<Rightarrow> 'a result) \<Rightarrow> ('a \<Rightarrow> 'c \<Rightarrow> 'c) \<Rightarrow> string \<Rightarrow> 'c \<Rightarrow> 'c result" where
  "typed parse upd v c = (case parse v of Inl e \<Rightarrow> Inl e | Inr x \<Rightarrow> Inr (upd x c))"

definition parse_error :: go_error where "parse_error = ErrText ''parse error''"

definition parse_int_flag :: "string \<Rightarrow> int result" where
  "parse_int_flag v = (case parse_int0 v of
     (x, None) \<Rightarrow> Inr x
   | (_, Some ErrSyntax) \<Rightarrow> Inl parse_error
   | (_, Some ErrRange) \<Rightarrow> Inl (ErrText ''value out of range''))"

definition parse_duration_flag :: "string \<Rightarrow> int result" where
  "parse_duration_flag v = (case parse_duration v of None \<Rightarrow> Inl parse_error | Some d \<Rightarrow> Inr d)"

definition parse_bool :: "string \<Rightarrow> bool result" where
  "parse_bool v =
     (if v \<in> {''1'', ''t'', ''T'', ''true'', ''TRUE'', ''True''} then Inr True
      else if v \<in> {''0'', ''f'', ''F'', ''false'', ''FALSE'', ''False''} then Inr False
      else Inl parse_error)"

definition StringVar :: "(string \<Rightarrow> 'c \<Rightarrow> 'c) \<Rightarrow> 'c flag" where "StringVar upd = Value (typed Inr upd)"
definition IntVar :: "(int \<Rightarrow> 'c \<Rightarrow> 'c) \<Rightarrow> 'c flag" where "IntVar upd = Value (typed parse_int_flag upd)"
definition DurationVar :: "(int \<Rightarrow> 'c \<Rightarrow> 'c) \<Rightarrow> 'c flag" where "DurationVar upd = Value (typed parse_duration_flag upd)"
definition BoolVar :: "(bool \<Rightarrow> 'c \<Rightarrow> 'c) \<Rightarrow> 'c flag" where "BoolVar upd = Switch (typed parse_bool upd)"

definition quoted :: "string \<Rightarrow> string" where "quoted s = QT # s @ [QT]"

definition set_flag :: "('c \<Rightarrow> 'c result) \<Rightarrow> string \<Rightarrow> string \<Rightarrow> string \<Rightarrow> ('c \<Rightarrow> 'd result) \<Rightarrow> 'c \<Rightarrow> 'd result" where
  "set_flag set_value what v name k c =
     (case set_value c of
        Inl e \<Rightarrow> Inl (ErrText (''invalid '' @ what @ '' '' @ quoted v @ '' for '' @ name @ '': '' @ error_text e))
      | Inr c \<Rightarrow> k c)"

fun parse_flags :: "(string \<times> 'c flag) list \<Rightarrow> string list \<Rightarrow> 'c \<Rightarrow> 'c result" where
  "parse_flags fs [] c = Inr c"
| "parse_flags fs (s # args) c =
     (if length s < 2 \<or> hd s \<noteq> CHR ''-'' \<or> s = ''--'' then Inr c
      else
        (let arg = (if s ! 1 = CHR ''-'' then drop 2 s else tl s);
             name = takeWhile (\<lambda>x. x \<noteq> CHR ''='') arg;
             given = (CHR ''='' \<in> set arg);
             value = tl (dropWhile (\<lambda>x. x \<noteq> CHR ''='') arg)
         in if arg = [] \<or> hd arg \<in> {CHR ''-'', CHR ''=''} then Inl (ErrText (''bad flag syntax: '' @ s))
            else case map_of fs name of
              None \<Rightarrow> Inl (ErrText (if name = ''help'' \<or> name = ''h'' then ''flag: help requested''
                else ''flag provided but not defined: -'' @ name))
            | Some (Switch f) \<Rightarrow>
                (let v = (if given then value else ''true'')
                 in set_flag (f v) ''boolean value'' v (CHR ''-'' # name) (parse_flags fs args) c)
            | Some (Value f) \<Rightarrow>
                (if given then set_flag (f value) ''value'' value (''flag -'' @ name) (parse_flags fs args) c
                 else case args of
                   [] \<Rightarrow> Inl (ErrText (''flag needs an argument: -'' @ name))
                 | v # args \<Rightarrow> set_flag (f v) ''value'' v (''flag -'' @ name) (parse_flags fs args) c)))"

declare parse_flags.simps(2) [simp del]

subsection \<open>Reading back formatted integers\<close>

lemma uint_loop_digits:
  "list_all is_digit s \<Longrightarrow> n * 10 ^ length s + digits_val s < 2 ^ 64 \<Longrightarrow>
   uint_loop 10 n s = (of_nat (n * 10 ^ length s + digits_val s), None)"
proof (induction s arbitrary: n)
  case (Cons c s)
  have v: "digits_val (c # s) = digit_val c * 10 ^ length s + digits_val s"
    using digits_val_append [of "[c]" s] by (simp add: digits_val_def)
  have eq: "n * 10 ^ length (c # s) + digits_val (c # s) =
      (n * 10 + digit_val c) * 10 ^ length s + digits_val s"
    by (simp add: v algebra_simps)
  have "n * 10 + digit_val c \<le> (n * 10 + digit_val c) * 10 ^ length s" by simp
  with eq Cons.prems(2) have lt: "n * 10 + digit_val c < 2 ^ 64" by linarith
  have c: "is_digit c" "digit_val c < 10" using Cons.prems(1) by (simp_all add: digit_val_less)
  then have "c \<noteq> CHR ''_''" "digit_of c = Some (digit_val c)" by (auto simp: is_digit_def digit_of_def)
  moreover have "uint_loop 10 (n * 10 + digit_val c) s =
      (of_nat ((n * 10 + digit_val c) * 10 ^ length s + digits_val s), None)"
    using Cons.IH [of "n * 10 + digit_val c"] Cons.prems eq by simp
  ultimately show ?case using lt c(2) by (simp only: uint_loop.simps eq) simp
qed simp

lemma hd_dec_zero: "0 < n \<Longrightarrow> hd (dec n) \<noteq> CHR ''0''"
proof (induction n rule: dec.induct)
  case (1 n)
  have z: "digit_char n = CHR ''0'' \<Longrightarrow> n < 10 \<Longrightarrow> n = 0"
    using digit_val_digit_char [of n] is_digit_zero(2) by simp
  show ?case
  proof (cases "n < 10")
    case True
    with z 1(2) show ?thesis by (subst dec.simps) auto
  next
    case False
    with 1 show ?thesis by (subst dec.simps) simp
  qed
qed

lemma dec_0: "dec 0 = ''0''"
  by (simp add: dec.simps digit_char_literals)

lemma underscore_not_digit: "list_all is_digit s \<Longrightarrow> CHR ''_'' \<notin> set s"
  by (auto simp: list_all_iff is_digit_def)

lemma parse_uint0_dec: "n < 2 ^ 64 \<Longrightarrow> parse_uint0 (dec n) = (of_nat n, None)"
  using uint_loop_digits [of "dec n" 0] hd_dec_zero [of n] underscore_not_digit [OF dec_digits [of n]]
  by (cases "n = 0") (simp_all add: parse_uint0_def base_prefix_def dec_0)

lemma parse_int0_format:
  assumes "in_int64 x"
  shows "parse_int0 (format_int x) = (x, None)"
proof (cases "x < 0")
  case True
  have b: "nat (- x) < 2 ^ 64" "nat (- x) \<le> 2 ^ 63"
    using assms by (auto simp: in_int64_def)
  then have "unat (of_nat (nat (- x)) :: u64) = nat (- x)" by (simp add: unat_of_nat_u64)
  with True b show ?thesis
    by (simp add: parse_int0_def format_int_def parse_uint0_dec Let_def)
next
  case False
  have b: "nat x < 2 ^ 64" "nat x < 2 ^ 63"
    using assms by (auto simp: in_int64_def)
  then have u: "unat (of_nat (nat x) :: u64) = nat x" by (simp add: unat_of_nat_u64)
  have "hd (dec (nat x)) \<noteq> CHR ''+''" "hd (dec (nat x)) \<noteq> CHR ''-''"
    using hd_dec_digit [of "nat x"] by (auto simp: is_digit_def)
  with False b u show ?thesis
    by (simp add: parse_int0_def format_int_def parse_uint0_dec Let_def)
qed

subsection \<open>Reading back formatted durations\<close>

lemma rnd64_coarse:
  assumes "\<bar>k\<bar> < 2 ^ 53" and "0 \<le> k"
  shows "rnd64 (of_int k / 2 ^ 5) = of_int k / 2 ^ 5"
proof (cases "k = 0")
  case False
  with assms have "0 < (of_int k / 2 ^ 5 :: rat)" by simp
  from rnd64_order [OF this assms(1) refl] show ?thesis by (simp add: order_antisym)
qed (simp add: rnd64_def)

lemma rnd64_nat: "n < 2 ^ 48 \<Longrightarrow> rnd64 (of_nat n) = of_nat n"
  using rnd64_coarse [of "32 * int n"] by simp

lemma leading_int_digits:
  "list_all is_digit s \<Longrightarrow> r = [] \<or> \<not> is_digit (hd r) \<Longrightarrow> n * 10 ^ length s + digits_val s \<le> 2 ^ 63 \<Longrightarrow>
   leading_int n (s @ r) = Some (n * 10 ^ length s + digits_val s, r)"
proof (induction s arbitrary: n)
  case Nil
  then show ?case by (cases r) auto
next
  case (Cons c s)
  have v: "digits_val (c # s) = digit_val c * 10 ^ length s + digits_val s"
    using digits_val_append [of "[c]" s] by (simp add: digits_val_def)
  have eq: "n * 10 ^ length (c # s) + digits_val (c # s) =
      (n * 10 + digit_val c) * 10 ^ length s + digits_val s"
    by (simp add: v algebra_simps)
  have "n * 10 + digit_val c \<le> (n * 10 + digit_val c) * 10 ^ length s" by simp
  with eq Cons.prems(3) have lt: "n * 10 + digit_val c \<le> 2 ^ 63" by linarith
  then have "n \<le> 2 ^ 63 div 10" by simp
  with lt Cons eq show ?case by simp
qed

lemma pow10_coarse: "k \<le> 9 \<Longrightarrow> (10 :: nat) ^ k < 2 ^ 48"
  using power_increasing [of k 9 "10 :: nat"] by simp

lemma rnd64_pow10: "k \<le> 9 \<Longrightarrow> rnd64 (10 ^ k) = 10 ^ k"
  using rnd64_nat [OF pow10_coarse] by simp

lemma leading_fraction_digits:
  "list_all is_digit s \<Longrightarrow> r = [] \<or> \<not> is_digit (hd r) \<Longrightarrow> k + length s \<le> 9 \<Longrightarrow> x < 10 ^ k \<Longrightarrow>
   leading_fraction False x (10 ^ k) (s @ r) = (x * 10 ^ length s + digits_val s, 10 ^ (k + length s), r)"
proof (induction s arbitrary: x k)
  case Nil
  then show ?case by (cases r) auto
next
  case (Cons c s)
  have v: "digits_val (c # s) = digit_val c * 10 ^ length s + digits_val s"
    using digits_val_append [of "[c]" s] by (simp add: digits_val_def)
  have c: "is_digit c" "digit_val c < 10" using Cons.prems(1) by (simp_all add: digit_val_less)
  have le: "x * 10 + digit_val c < 10 ^ Suc k" using Cons.prems(4) c(2) by simp
  have "(10 :: nat) ^ Suc k \<le> 10 ^ 9" using Cons.prems(3) by (intro power_increasing) simp_all
  with le have "x * 10 + digit_val c < 10 ^ 9" by linarith
  then have "\<not> ((2 ^ 63 - 1) div 10 < x \<or> 2 ^ 63 < x * 10 + digit_val c)" by simp
  moreover have "f64_mul (10 ^ k) 10 = 10 ^ Suc k"
    using rnd64_pow10 [of "Suc k"] Cons.prems(3) by (simp add: f64_mul_def mult.commute)
  ultimately have "leading_fraction False x (10 ^ k) ((c # s) @ r) =
      leading_fraction False (x * 10 + digit_val c) (10 ^ Suc k) (s @ r)"
    using c(1) by (simp only: append_Cons leading_fraction.simps) simp
  also have "\<dots> = ((x * 10 + digit_val c) * 10 ^ length s + digits_val s, 10 ^ (Suc k + length s), r)"
    using Cons.IH [of "Suc k" "x * 10 + digit_val c"] Cons.prems(1-3) le by simp
  finally show ?case by (simp add: v algebra_simps)
qed

lemma trimmed_fraction:
  assumes "0 < prec" and "f = rev (dropWhile (\<lambda>c. c = CHR ''0'') (rev (pad0 prec (dec (v mod 10 ^ prec)))))"
  shows "list_all is_digit f" and "length f \<le> prec" and "digits_val f * 10 ^ (prec - length f) = v mod 10 ^ prec"
proof -
  let ?t = "pad0 prec (dec (v mod 10 ^ prec))"
  define z where "z = takeWhile (\<lambda>c. c = CHR ''0'') (rev ?t)"
  have "rev ?t = z @ rev f" using assms(2) by (simp add: z_def)
  then have t: "?t = f @ rev z" by (metis rev_append rev_rev_ident)
  have "\<forall>c \<in> set z. c = CHR ''0''" unfolding z_def using set_takeWhileD by fastforce
  then have zeros: "rev z = replicate (length z) (CHR ''0'')" by (metis replicate_length_same set_rev length_rev)
  have "length (dec (v mod 10 ^ prec)) \<le> prec" using assms(1) by (intro length_dec_le) simp_all
  then have len: "length ?t = prec" by (simp add: length_pad0)
  have "list_all is_digit ?t" by simp
  with t show "list_all is_digit f" by (metis list_all_append)
  have n: "prec = length f + length z" using len unfolding t by simp
  then show "length f \<le> prec" by simp
  have "digits_val ?t = v mod 10 ^ prec" by simp
  then have "digits_val (f @ replicate (length z) (CHR ''0'')) = v mod 10 ^ prec"
    unfolding t zeros .
  then show "digits_val f * 10 ^ (prec - length f) = v mod 10 ^ prec"
    using n by (simp add: digits_val_append)
qed

definition unit_text :: "string \<Rightarrow> nat \<Rightarrow> bool" where
  "unit_text u n \<longleftrightarrow> list_all unit_char u \<and> u \<noteq> [] \<and> duration_unit u = Some n \<and> 0 < n"

abbreviation next_part :: "string \<Rightarrow> bool" where
  "next_part r \<equiv> r = [] \<or> is_digit (hd r)"

lemma unit_text_split:
  assumes "unit_text u n" and "next_part r"
  shows "takeWhile unit_char (u @ r) = u" and "dropWhile unit_char (u @ r) = r"
    and "\<not> is_digit (hd (u @ r))" and "hd (u @ r) \<noteq> CHR ''.''" and "u @ r \<noteq> []"
proof -
  have u: "\<forall>c \<in> set u. unit_char c" "u \<noteq> []" using assms(1) by (auto simp: unit_text_def list_all_iff)
  have r: "r = [] \<or> \<not> unit_char (hd r)" using assms(2) by (auto simp: unit_char_def)
  show "takeWhile unit_char (u @ r) = u" "dropWhile unit_char (u @ r) = r"
    using u r by (cases r; auto)+
  have "unit_char (hd u)" using u by simp
  then show "\<not> is_digit (hd (u @ r))" "hd (u @ r) \<noteq> CHR ''.''" "u @ r \<noteq> []"
    using u by (simp_all add: unit_char_def)
qed

lemma duration_part_int:
  assumes "unit_text u n" and "next_part r" and "k * n \<le> 2 ^ 63"
  shows "duration_part (dec k @ u @ r) = Some (k * n, r)"
proof -
  note s = unit_text_split [OF assms(1,2)]
  have n: "0 < n" "duration_unit u = Some n" using assms(1) by (simp_all add: unit_text_def)
  have "k * 1 \<le> k * n" using n(1) by (intro mult_le_mono) simp_all
  then have k: "k \<le> 2 ^ 63" using assms(3) by linarith
  have i: "leading_int 0 (dec k @ u @ r) = Some (k, u @ r)"
    using leading_int_digits [of "dec k" "u @ r" 0] s(3) k by simp
  have "k \<le> 2 ^ 63 div n" using assms(3) n(1) by (simp add: less_eq_div_iff_mult_less_eq)
  then show ?thesis
    using i s n hd_dec_digit [of k] by (simp add: duration_part_def duration_value_def)
qed

lemma duration_part_frac:
  assumes "unit_text u (10 ^ prec)" and "next_part r" and "v \<le> 2 ^ 63" and "0 < prec" and "prec \<le> 9"
  shows "duration_part (fmt_frac v prec @ u @ r) = Some (v, r)"
proof -
  note s = unit_text_split [OF assms(1,2)]
  have un: "duration_unit u = Some (10 ^ prec)" using assms(1) by (simp add: unit_text_def)
  define f where "f = rev (dropWhile (\<lambda>c. c = CHR ''0'') (rev (pad0 prec (dec (v mod 10 ^ prec)))))"
  note f = trimmed_fraction [OF assms(4) f_def]
  let ?a = "v div 10 ^ prec"
  have tx: "fmt_frac v prec = dec ?a @ (if f = [] then [] else CHR ''.'' # f)"
    by (simp add: fmt_frac_def f_def Let_def)
  have a: "?a \<le> 2 ^ 63 div 10 ^ prec" using assms(3) by (rule div_le_mono)
  have a2: "?a \<le> 2 ^ 63" using assms(3) div_le_dividend [of v "10 ^ prec"] by linarith
  have v: "?a * 10 ^ prec + v mod 10 ^ prec = v" by (rule div_mult_mod_eq)
  show ?thesis
  proof (cases "f = []")
    case True
    then have "v mod 10 ^ prec = 0" using f(3) by simp
    with v have "?a * 10 ^ prec = v" by simp
    with duration_part_int [OF assms(1,2), of ?a] assms(3) True show ?thesis by (simp add: tx)
  next
    case False
    let ?r1 = "CHR ''.'' # f @ u @ r"
    have i: "leading_int 0 (dec ?a @ ?r1) = Some (?a, ?r1)"
      using leading_int_digits [of "dec ?a" ?r1 0] a2 by simp
    have len: "0 + length f \<le> 9" using f(2) assms(5) by simp
    have fr: "leading_fraction False 0 1 (f @ u @ r) = (digits_val f, 10 ^ length f, u @ r)"
      using leading_fraction_digits [OF f(1) _ len, of "u @ r" 0] s(3) by simp
    have "(10 :: rat) ^ prec / 10 ^ length f = 10 ^ (prec - length f)"
      using f(2) by (simp add: power_diff)
    then have dv: "f64_div (f64_of_int (int (10 ^ prec))) (10 ^ length f) = 10 ^ (prec - length f)"
      using rnd64_pow10 assms(5) by (simp add: f64_div_def f64_of_int_def)
    have "v mod 10 ^ prec < 10 ^ prec" by simp
    then have lt: "v mod 10 ^ prec < 2 ^ 48" using pow10_coarse [OF assms(5)] by linarith
    have "digits_val f \<le> digits_val f * 10 ^ (prec - length f)" by simp
    then have "digits_val f < 2 ^ 48" using lt f(3) by linarith
    then have "f64_of_int (int (digits_val f)) = of_nat (digits_val f)"
      using rnd64_nat by (simp add: f64_of_int_def)
    moreover have "of_nat (digits_val f) * 10 ^ (prec - length f) = (of_nat (v mod 10 ^ prec) :: rat)"
      using arg_cong [OF f(3), of "of_nat :: nat \<Rightarrow> rat"] by simp
    ultimately have ml: "f64_mul (f64_of_int (int (digits_val f))) (10 ^ (prec - length f)) = of_nat (v mod 10 ^ prec)"
      using rnd64_nat [OF lt] by (simp add: f64_mul_def)
    have "duration_value ?a (digits_val f) (10 ^ length f) (10 ^ prec) = Some v"
    proof (cases "digits_val f = 0")
      case True
      then have "v mod 10 ^ prec = 0" using f(3) by simp
      with v a True show ?thesis by (simp add: duration_value_def)
    next
      case False
      with a v assms(3) show ?thesis unfolding duration_value_def dv ml by simp
    qed
    moreover have "length f \<noteq> 0" using False by simp
    ultimately show ?thesis
      using i fr s un hd_dec_digit [of ?a] False by (simp add: duration_part_def tx)
  qed
qed

lemma unit_texts:
  "unit_text ''ns'' 1" "unit_text (micro @ ''s'') (10 ^ 3)" "unit_text ''ms'' (10 ^ 6)"
  "unit_text ''s'' (10 ^ 9)" "unit_text ''m'' (60 * 10 ^ 9)" "unit_text ''h'' (3600 * 10 ^ 9)"
  by (simp_all add: unit_text_def unit_char_def is_digit_def duration_unit_def micro_def)

lemma duration_loop_step:
  "duration_part s = Some (x, r) \<Longrightarrow> s \<noteq> [] \<Longrightarrow> d + x \<le> 2 ^ 63 \<Longrightarrow>
   duration_loop d s = duration_loop (d + x) r"
  by (subst duration_loop.simps) simp

lemma duration_loop_Nil [simp]: "duration_loop d [] = Some d"
  by (simp add: duration_loop.simps)

lemma next_part_dec [simp]:
  "is_digit (hd (dec k @ s))" "is_digit (hd (fmt_frac v p @ s))" "is_digit (hd (fmt_frac v p))"
  using hd_dec_digit by (simp_all add: fmt_frac_def Let_def)

lemma fmt_frac_nonempty [simp]: "fmt_frac v p \<noteq> []"
  by (simp add: fmt_frac_def Let_def)

lemma loop_frac:
  assumes "unit_text u (10 ^ prec)" and "d + v \<le> 2 ^ 63" and "0 < prec" and "prec \<le> 9"
  shows "duration_loop d (fmt_frac v prec @ u) = Some (d + v)"
  using duration_part_frac [OF assms(1) _ _ assms(3,4), of "[]" v] assms(2)
  by (simp add: duration_loop_step)

lemma loop_int:
  assumes "unit_text u n" and "next_part r" and "d + k * n \<le> 2 ^ 63"
  shows "duration_loop d (dec k @ u @ r) = duration_loop (d + k * n) r"
  using duration_part_int [OF assms(1,2), of k] assms(3) by (simp add: duration_loop_step)

lemma duration_loop_seconds:
  assumes "u \<le> 2 ^ 63"
  shows "duration_loop 0 (fmt_seconds u) = Some u"
proof -
  define secs where "secs = u div 10 ^ 9"
  define mins where "mins = secs div 60"
  define hours where "hours = mins div 60"
  define w where "w = (secs mod 60) * 10 ^ 9 + u mod 10 ^ 9"
  have u: "u = mins * (60 * 10 ^ 9) + w"
  proof -
    have "u = secs * 10 ^ 9 + u mod 10 ^ 9" "secs = mins * 60 + secs mod 60"
      unfolding secs_def mins_def by (simp_all only: div_mult_mod_eq)
    then have "u = (mins * 60 + secs mod 60) * 10 ^ 9 + u mod 10 ^ 9" by metis
    then show ?thesis by (simp add: w_def algebra_simps)
  qed
  have m: "mins = hours * 60 + mins mod 60" unfolding hours_def by (simp only: div_mult_mod_eq)
  then have u2: "u = hours * (3600 * 10 ^ 9) + (mins mod 60) * (60 * 10 ^ 9) + w"
  proof -
    have "u = mins * 60000000000 + w" using u by simp
    with m have "u = hours * 3600000000000 + (mins mod 60) * 60000000000 + w" by linarith
    then show ?thesis by simp
  qed
  have txs: "fmt_seconds u = (let s = fmt_frac w 9 @ ''s'' in
      if mins = 0 then s else if hours = 0 then dec mins @ ''m'' @ s
      else dec hours @ ''h'' @ dec (mins mod 60) @ ''m'' @ s)"
    by (simp add: fmt_seconds_def Let_def secs_def mins_def hours_def w_def)
  note frac = loop_frac [OF unit_texts(4), of _ w]
  consider "mins = 0" | "mins \<noteq> 0" "hours = 0" | "mins \<noteq> 0" "hours \<noteq> 0" by blast
  then show ?thesis
  proof cases
    case 1
    then show ?thesis unfolding txs using frac [of 0] u assms by simp
  next
    case 2
    have "duration_loop 0 (dec mins @ ''m'' @ fmt_frac w 9 @ ''s'') = Some u"
      using loop_int [OF unit_texts(5), of "fmt_frac w 9 @ ''s''" 0 mins] frac [of "mins * (60 * 10 ^ 9)"] u assms
      by simp
    then show ?thesis using 2 by (simp add: txs)
  next
    case 3
    let ?h = "hours * (3600 * 10 ^ 9)" and ?m = "(mins mod 60) * (60 * 10 ^ 9)"
    have "duration_loop 0 (dec hours @ ''h'' @ dec (mins mod 60) @ ''m'' @ fmt_frac w 9 @ ''s'') =
        duration_loop ?h (dec (mins mod 60) @ ''m'' @ fmt_frac w 9 @ ''s'')"
      using loop_int [OF unit_texts(6), of "dec (mins mod 60) @ ''m'' @ fmt_frac w 9 @ ''s''" 0 hours] u2 assms
        hd_dec_digit [of "mins mod 60"] by simp
    also have "\<dots> = duration_loop (?h + ?m) (fmt_frac w 9 @ ''s'')"
      using loop_int [OF unit_texts(5), of "fmt_frac w 9 @ ''s''" ?h "mins mod 60"] u2 assms by simp
    also have "\<dots> = Some u" using frac [of "?h + ?m"] u2 assms by simp
    finally show ?thesis using 3 by (simp add: txs)
  qed
qed

lemma parse_duration_string:
  assumes "in_int64 d"
  shows "parse_duration (duration_string d) = Some d"
proof -
  define u where "u = nat \<bar>d\<bar>"
  define body where "body = (if u = 0 then ''0s'' else if u < 10 ^ 3 then dec u @ ''ns''
      else if u < 10 ^ 6 then fmt_frac u 3 @ micro @ ''s''
      else if u < 10 ^ 9 then fmt_frac u 6 @ ''ms'' else fmt_seconds u)"
  have s: "duration_string d = (if d < 0 then ''-'' else []) @ body"
    by (simp add: duration_string_def Let_def u_def body_def)
  have u: "u \<le> 2 ^ 63" using assms by (auto simp: in_int64_def u_def)
  have zero: "duration_loop 0 (dec 0 @ ''s'') = Some 0"
    using loop_int [OF unit_texts(4), of "[]" 0 0] by simp
  have "duration_loop 0 body = Some u"
    using u zero loop_int [OF unit_texts(1), of "[]" 0 u] duration_loop_seconds [OF u]
      loop_frac [OF unit_texts(2), of 0 u] loop_frac [OF unit_texts(3), of 0 u]
    by (simp add: body_def dec_0)
  moreover have hd: "is_digit (hd body)" "body \<noteq> []" "body \<noteq> ''0''"
  proof -
    have "is_digit (hd (fmt_seconds u)) \<and> fmt_seconds u \<noteq> [] \<and> last (fmt_seconds u) = CHR ''s''"
      by (simp add: fmt_seconds_def Let_def hd_dec_digit)
    then have "is_digit (hd body) \<and> body \<noteq> [] \<and> last body = CHR ''s''"
      by (simp add: body_def hd_dec_digit)
    then show "is_digit (hd body)" "body \<noteq> []" "body \<noteq> ''0''" by auto
  qed
  then have "hd body \<noteq> CHR ''-''" "hd body \<noteq> CHR ''+''" by auto
  ultimately show ?thesis
    using assms hd by (auto simp: parse_duration_def Let_def s u_def in_int64_def)
qed

subsection \<open>Contract of a formatted argument\<close>

definition flag_name :: "string \<Rightarrow> bool" where
  "flag_name name \<longleftrightarrow> name \<noteq> [] \<and> hd name \<notin> {CHR ''-'', CHR ''=''} \<and> CHR ''='' \<notin> set name"

locale flag_value =
  fixes format :: "'a \<Rightarrow> string" and parse :: "string \<Rightarrow> 'a result" and fits :: "'a \<Rightarrow> bool"
  assumes parse_format: "fits x \<Longrightarrow> parse (format x) = Inr x"
begin

lemma step:
  assumes "flag_name name" and "map_of fs name = Some (Value (typed parse upd))" and "fits x"
  shows "parse_flags fs ((CHR ''-'' # CHR ''-'' # name) # format x # args) c = parse_flags fs args (upd x c)"
proof -
  have n: "name \<noteq> []" "hd name \<notin> {CHR ''-'', CHR ''=''}" "CHR ''='' \<notin> set name"
    using assms(1) by (auto simp: flag_name_def)
  then have tw: "takeWhile (\<lambda>x. x \<noteq> CHR ''='') name = name"
    by (intro takeWhile_eq_all_conv [THEN iffD2]) auto
  show ?thesis
    using n assms by (simp add: tw parse_flags.simps(2) [of fs "CHR ''-'' # CHR ''-'' # name"] Let_def set_flag_def
        typed_def parse_format)
qed

end

interpretation string_value: flag_value "\<lambda>s. s" Inr "\<lambda>_. True"
  by unfold_locales simp

interpretation int_value: flag_value format_int parse_int_flag in_int64
  by unfold_locales (simp add: parse_int_flag_def parse_int0_format)

interpretation duration_value: flag_value duration_string parse_duration_flag in_int64
  by unfold_locales (simp add: parse_duration_flag_def parse_duration_string)

lemmas string_step = string_value.step [folded StringVar_def]
lemmas int_step = int_value.step [folded IntVar_def]
lemmas duration_step = duration_value.step [folded DurationVar_def]

end
