(* ===== verification/Report.thy ===== *)
theory Report
  imports GoFloat GoText "HOL-Library.Mapping"
begin

text \<open>
  The report types of \<open>internal/report/report.go\<close>, field by field. \<open>*uint64\<close> is
  \<open>u64 option\<close>, \<open>map[string]FileSet\<close> a finite \<open>mapping\<close>, a nil slice the empty list; \<open>int\<close> and
  \<open>int64\<close> fields are HOL's \<open>int\<close> (see \<open>Prelude\<close>), \<open>float64\<close> fields \<open>f64\<close>.
  \<open>WriteJSONAtomic\<close> is modelled with the file system, in \<open>AtomicReport\<close>.
\<close>

definition SchemaVersion :: int where "SchemaVersion = 1"

record Sample =
  s_ElapsedNS :: int
  s_Timestamp :: string
  s_Strategy :: string
  s_RunID :: string
  s_MemoryCurrent :: u64
  s_Cache :: u64
  s_RSS :: u64
  s_Anon :: "u64 option"
  s_InactiveFile :: "u64 option"
  s_ActiveFile :: "u64 option"
  s_Dirty :: "u64 option"
  s_Writeback :: "u64 option"
  s_Shmem :: "u64 option"
  s_ActiveBytes :: u64
  s_BackupBytes :: u64
  s_BackupCount :: int

record RotationEvent =
  ev_ElapsedNS :: int
  ev_Timestamp :: string
  ev_Ordinal :: int
  ev_Phase :: string
  ev_Bytes :: int
  ev_Error :: string

record CacheMetrics =
  cm_StartBytes :: u64
  cm_EndBytes :: u64
  cm_MaxBytes :: u64
  cm_MeanBytes :: f64
  cm_MedianBytes :: u64
  cm_P95Bytes :: u64
  cm_OverallRateBytesPerSecond :: f64
  cm_PositiveRateBytesPerSecond :: f64
  cm_ReclaimRateBytesPerSecond :: f64
  cm_RotationTransientMaxBytes :: u64
  cm_RotationIntervalSlopes :: "f64 list"

record FileSet =
  fs_Records :: u64
  fs_Min :: u64
  fs_Max :: u64

record IntegrityReport =
  ir_SchemaVersion :: int
  ir_Expected :: u64
  ir_ValidUnique :: u64
  ir_Missing :: u64
  ir_Duplicates :: u64
  ir_Malformed :: u64
  ir_WrongRunID :: u64
  ir_DescendingTransitions :: u64
  ir_MissingExamples :: "u64 list"
  ir_Files :: "(string, FileSet) mapping"

record WriterState =
  ws_Generated :: u64
  ws_Written :: u64
  ws_ReopenRequests :: u64
  ws_ReopenFailures :: u64
  ws_LastError :: string

record WorkloadConfig =
  wl_MaxFileBytes :: int
  wl_Rotations :: int
  wl_MaxBackups :: int
  wl_RecordBytes :: int
  wl_BytesPerSecond :: int
  wl_BufferBytes :: int
  wl_FlushIntervalNS :: int
  wl_MonitorIntervalNS :: int
  wl_ResidentBytes :: int

record RunSummary =
  rs_SchemaVersion :: int
  rs_RunID :: string
  rs_Strategy :: string
  rs_Success :: bool
  rs_StartedAt :: string
  rs_DurationNS :: int
  rs_CgroupVersion :: string
  rs_CacheSource :: string
  rs_Filesystem :: string
  rs_Rotations :: int
  rs_Workload :: WorkloadConfig
  rs_PeakMemory :: u64
  rs_PeakRSS :: u64
  rs_PeakAnon :: u64
  rs_Cache :: CacheMetrics
  rs_Writer :: WriterState
  rs_WriterImplementation :: string
  rs_Integrity :: IntegrityReport
  rs_Error :: string

record SweepAttempt =
  sa_Strategy :: string
  sa_LimitMiB :: int
  sa_Repetition :: int
  sa_ExitCode :: int
  sa_OOM :: bool
  sa_TimedOut :: bool
  sa_FunctionalPassed :: bool
  sa_IntegrityPassed :: bool
  sa_Passed :: bool
  sa_FailureKind :: string
  sa_Error :: string
  sa_Summary :: "RunSummary option"

record SweepReport =
  sr_SchemaVersion :: int
  sr_Strategy :: string
  sr_MinimumPassMiB :: int
  sr_GreatestFailMiB :: int
  sr_BoundaryResolved :: bool
  sr_BaselineMinimumMiB :: int
  sr_DeltaMinimumMiB :: int
  sr_DeltaResolved :: bool
  sr_OOMFailures :: int
  sr_TimeoutFailures :: int
  sr_FunctionalFailures :: int
  sr_IntegrityFailures :: int
  sr_LowerMiB :: int
  sr_UpperMiB :: int
  sr_StepMiB :: int
  sr_Repetitions :: int
  sr_AttemptTimeoutNS :: int
  sr_Workload :: WorkloadConfig
  sr_Attempts :: "SweepAttempt list"

subsection \<open>Zero values\<close>

text \<open>Go initialises the fields a composite literal leaves out to their zero value.\<close>

definition zero_FileSet :: FileSet where
  "zero_FileSet = \<lparr>fs_Records = 0, fs_Min = 0, fs_Max = 0\<rparr>"

definition zero_CacheMetrics :: CacheMetrics where
  "zero_CacheMetrics =
     \<lparr>cm_StartBytes = 0, cm_EndBytes = 0, cm_MaxBytes = 0, cm_MeanBytes = 0, cm_MedianBytes = 0,
      cm_P95Bytes = 0, cm_OverallRateBytesPerSecond = 0, cm_PositiveRateBytesPerSecond = 0,
      cm_ReclaimRateBytesPerSecond = 0, cm_RotationTransientMaxBytes = 0,
      cm_RotationIntervalSlopes = []\<rparr>"

definition zero_IntegrityReport :: IntegrityReport where
  "zero_IntegrityReport =
     \<lparr>ir_SchemaVersion = 0, ir_Expected = 0, ir_ValidUnique = 0, ir_Missing = 0,
      ir_Duplicates = 0, ir_Malformed = 0, ir_WrongRunID = 0, ir_DescendingTransitions = 0,
      ir_MissingExamples = [], ir_Files = Mapping.empty\<rparr>"

definition zero_WriterState :: WriterState where
  "zero_WriterState =
     \<lparr>ws_Generated = 0, ws_Written = 0, ws_ReopenRequests = 0, ws_ReopenFailures = 0,
      ws_LastError = []\<rparr>"

definition zero_WorkloadConfig :: WorkloadConfig where
  "zero_WorkloadConfig =
     \<lparr>wl_MaxFileBytes = 0, wl_Rotations = 0, wl_MaxBackups = 0, wl_RecordBytes = 0,
      wl_BytesPerSecond = 0, wl_BufferBytes = 0, wl_FlushIntervalNS = 0,
      wl_MonitorIntervalNS = 0, wl_ResidentBytes = 0\<rparr>"

definition zero_RunSummary :: RunSummary where
  "zero_RunSummary =
     \<lparr>rs_SchemaVersion = 0, rs_RunID = [], rs_Strategy = [], rs_Success = False,
      rs_StartedAt = [], rs_DurationNS = 0, rs_CgroupVersion = [], rs_CacheSource = [],
      rs_Filesystem = [], rs_Rotations = 0, rs_Workload = zero_WorkloadConfig,
      rs_PeakMemory = 0, rs_PeakRSS = 0, rs_PeakAnon = 0, rs_Cache = zero_CacheMetrics,
      rs_Writer = zero_WriterState, rs_WriterImplementation = [],
      rs_Integrity = zero_IntegrityReport, rs_Error = []\<rparr>"

definition zero_SweepAttempt :: SweepAttempt where
  "zero_SweepAttempt =
     \<lparr>sa_Strategy = [], sa_LimitMiB = 0, sa_Repetition = 0, sa_ExitCode = 0, sa_OOM = False,
      sa_TimedOut = False, sa_FunctionalPassed = False, sa_IntegrityPassed = False,
      sa_Passed = False, sa_FailureKind = [], sa_Error = [], sa_Summary = None\<rparr>"

definition zero_SweepReport :: SweepReport where
  "zero_SweepReport =
     \<lparr>sr_SchemaVersion = 0, sr_Strategy = [], sr_MinimumPassMiB = 0, sr_GreatestFailMiB = 0,
      sr_BoundaryResolved = False, sr_BaselineMinimumMiB = 0, sr_DeltaMinimumMiB = 0,
      sr_DeltaResolved = False, sr_OOMFailures = 0, sr_TimeoutFailures = 0,
      sr_FunctionalFailures = 0, sr_IntegrityFailures = 0, sr_LowerMiB = 0, sr_UpperMiB = 0,
      sr_StepMiB = 0, sr_Repetitions = 0, sr_AttemptTimeoutNS = 0,
      sr_Workload = zero_WorkloadConfig, sr_Attempts = []\<rparr>"

subsection \<open>Strategies\<close>

text \<open>
  \<open>rotator.Strategy\<close> is a string type with three named values; any other string is a value
  of it too, which the code rejects where it matters.
\<close>

type_synonym Strategy = string

definition Baseline :: Strategy where "Baseline = ''baseline''"
definition CopyTruncate :: Strategy where "CopyTruncate = ''copytruncate''"
definition RenameReopen :: Strategy where "RenameReopen = ''rename-reopen''"

lemma strategies_distinct [simp]:
  "Baseline \<noteq> CopyTruncate" "Baseline \<noteq> RenameReopen" "CopyTruncate \<noteq> RenameReopen"
  "CopyTruncate \<noteq> Baseline" "RenameReopen \<noteq> Baseline" "RenameReopen \<noteq> CopyTruncate"
  by (simp_all add: Baseline_def CopyTruncate_def RenameReopen_def)

end
