(* ===== verification/Metrics.thy ===== *)
theory Metrics
  imports GoFloat Report "HOL-Library.Multiset"
begin

text \<open>
  \<open>internal/metrics/analyze.go\<close>: the cache metrics of a run, from its samples and rotation events.
  Floating-point results are those of \<open>GoFloat\<close>, operation by operation in the order of the code;
  differences of \<open>uint64\<close> and \<open>int64\<close> values wrap around. \<open>sort.Slice\<close> sorts numbers, so that it is
  not stable does not show.
\<close>

definition divide :: "f64 \<Rightarrow> f64 \<Rightarrow> f64" where
  "divide n d = (if d = 0 then 0 else f64_div n d)"

definition nearestRank :: "nat \<Rightarrow> f64 \<Rightarrow> int" where
  "nearestRank n p =
     (let rank = \<lceil>f64_mul p (f64_of_int (int n))\<rceil> - 1
      in if rank < 0 then 0 else if int n \<le> rank then int n - 1 else rank)"

text \<open>The literals \<open>0.95\<close> and \<open>1e9\<close>.\<close>

definition f64_95 :: f64 where "f64_95 = rnd64 (95 / 100)"
definition nanoseconds :: f64 where "nanoseconds = 10 ^ 9"

definition seconds_between :: "int \<Rightarrow> int \<Rightarrow> f64" where
  "seconds_between t0 t1 = f64_div (f64_of_int (wrap64 (t1 - t0))) nanoseconds"

subsection \<open>The pass over the samples\<close>

record rate_sums =
  positiveBytes :: f64
  reclaimBytes :: f64
  positiveSeconds :: f64
  reclaimSeconds :: f64

definition zero_rates :: rate_sums where
  "zero_rates = \<lparr>positiveBytes = 0, reclaimBytes = 0, positiveSeconds = 0, reclaimSeconds = 0\<rparr>"

definition rate_step :: "Sample \<Rightarrow> Sample \<Rightarrow> rate_sums \<Rightarrow> rate_sums" where
  "rate_step prev s r =
     (let dt = seconds_between (s_ElapsedNS prev) (s_ElapsedNS s) in
      if dt \<le> 0 then r
      else if s_Cache prev \<le> s_Cache s
      then r\<lparr>positiveBytes := f64_add (positiveBytes r) (f64_of_uint (s_Cache s - s_Cache prev)),
             positiveSeconds := f64_add (positiveSeconds r) dt\<rparr>
      else r\<lparr>reclaimBytes := f64_add (reclaimBytes r) (f64_of_uint (s_Cache prev - s_Cache s)),
             reclaimSeconds := f64_add (reclaimSeconds r) dt\<rparr>)"

fun rate_loop :: "Sample \<Rightarrow> Sample list \<Rightarrow> rate_sums \<Rightarrow> rate_sums" where
  "rate_loop prev [] r = r"
| "rate_loop prev (s # ss) r = rate_loop s ss (rate_step prev s r)"

definition cache_sum :: "Sample list \<Rightarrow> f64" where
  "cache_sum ss = foldl (\<lambda>acc s. f64_add acc (f64_of_uint (s_Cache s))) 0 ss"

definition cache_max :: "Sample list \<Rightarrow> u64" where
  "cache_max ss = fold (\<lambda>s m. if m < s_Cache s then s_Cache s else m) ss (s_Cache (hd ss))"

subsection \<open>Rotation transients\<close>

definition transient_end :: "RotationEvent list \<Rightarrow> RotationEvent \<Rightarrow> int" where
  "transient_end events start =
     (case List.find (\<lambda>e. ev_Ordinal e = ev_Ordinal start \<and> ev_Phase e = ''retention-complete'' \<and>
         ev_ElapsedNS start \<le> ev_ElapsedNS e) events of
        Some e \<Rightarrow> ev_ElapsedNS e
      | None \<Rightarrow> 2 ^ 63 - 1)"

text \<open>\<open>(base, peak)\<close> once a sample has been found.\<close>

definition peak_step :: "int \<Rightarrow> int \<Rightarrow> Sample \<Rightarrow> (u64 \<times> u64) option \<Rightarrow> (u64 \<times> u64) option" where
  "peak_step t0 t1 s bp =
     (if t0 \<le> s_ElapsedNS s \<and> s_ElapsedNS s \<le> t1
      then (let (base, peak) = (case bp of None \<Rightarrow> (s_Cache s, s_Cache s) | Some x \<Rightarrow> x)
            in Some (base, if peak < s_Cache s then s_Cache s else peak))
      else bp)"

definition transient_step :: "Sample list \<Rightarrow> RotationEvent list \<Rightarrow> RotationEvent \<Rightarrow> u64 \<Rightarrow> u64" where
  "transient_step samples events start m =
     (if ev_Phase start \<noteq> ''copy-start'' \<and> ev_Phase start \<noteq> ''rename'' then m
      else case fold (peak_step (ev_ElapsedNS start) (transient_end events start)) samples None of
        None \<Rightarrow> m
      | Some (base, peak) \<Rightarrow> (if base < peak \<and> m < peak - base then peak - base else m))"

definition rotationTransient :: "Sample list \<Rightarrow> RotationEvent list \<Rightarrow> u64" where
  "rotationTransient samples events = fold (transient_step samples events) events 0"

subsection \<open>Slopes between rotations\<close>

definition ls_step :: "Sample \<Rightarrow> f64 \<times> f64 \<times> f64 \<times> f64 \<Rightarrow> f64 \<times> f64 \<times> f64 \<times> f64" where
  "ls_step s = (\<lambda>(sx, sy, sxy, sxx).
     let x = f64_div (f64_of_int (s_ElapsedNS s)) nanoseconds; y = f64_of_uint (s_Cache s)
     in (f64_add sx x, f64_add sy y, f64_add sxy (f64_mul x y), f64_add sxx (f64_mul x x)))"

definition leastSquares :: "Sample list \<Rightarrow> f64" where
  "leastSquares ss =
     (case fold ls_step ss (0, 0, 0, 0) of (sx, sy, sxy, sxx) \<Rightarrow>
        let n = f64_of_int (int (length ss))
        in divide (f64_sub (f64_mul n sxy) (f64_mul sx sy)) (f64_sub (f64_mul n sxx) (f64_mul sx sx)))"

fun segment_slopes :: "Sample list \<Rightarrow> int list \<Rightarrow> f64 list" where
  "segment_slopes samples (b0 # b1 # bs) =
     (let segment = filter (\<lambda>s. b0 \<le> s_ElapsedNS s \<and> s_ElapsedNS s \<le> b1) samples;
          rest = segment_slopes samples (b1 # bs)
      in if 2 \<le> length segment then leastSquares segment # rest else rest)"
| "segment_slopes samples _ = []"

definition slope_boundaries :: "Sample list \<Rightarrow> RotationEvent list \<Rightarrow> int list" where
  "slope_boundaries samples events =
     sort ([s_ElapsedNS (hd samples)] @
       map ev_ElapsedNS (filter (\<lambda>e. ev_Phase e = ''retention-complete'') events) @
       [s_ElapsedNS (last samples)])"

definition intervalSlopes :: "Sample list \<Rightarrow> RotationEvent list \<Rightarrow> f64 list" where
  "intervalSlopes samples events = segment_slopes samples (slope_boundaries samples events)"

subsection \<open>All metrics\<close>

definition overall_rate :: "Sample list \<Rightarrow> f64" where
  "overall_rate ss =
     (let duration = seconds_between (s_ElapsedNS (hd ss)) (s_ElapsedNS (last ss)) in
      if 0 < duration
      then f64_div (f64_sub (f64_of_uint (s_Cache (last ss))) (f64_of_uint (s_Cache (hd ss)))) duration
      else 0)"

definition Metrics_Analyze :: "Sample list \<Rightarrow> RotationEvent list \<Rightarrow> CacheMetrics" where
  "Metrics_Analyze samples events =
     (if samples = [] then zero_CacheMetrics
      else
        let rates = rate_loop (hd samples) (tl samples) zero_rates;
            sorted_caches = sort (map s_Cache samples);
            n = length samples
        in \<lparr>cm_StartBytes = s_Cache (hd samples), cm_EndBytes = s_Cache (last samples),
            cm_MaxBytes = cache_max samples,
            cm_MeanBytes = f64_div (cache_sum samples) (f64_of_int (int n)),
            cm_MedianBytes = sorted_caches ! (n div 2),
            cm_P95Bytes = sorted_caches ! nat (nearestRank n f64_95),
            cm_OverallRateBytesPerSecond = overall_rate samples,
            cm_PositiveRateBytesPerSecond = divide (positiveBytes rates) (positiveSeconds rates),
            cm_ReclaimRateBytesPerSecond = divide (reclaimBytes rates) (reclaimSeconds rates),
            cm_RotationTransientMaxBytes = rotationTransient samples events,
            cm_RotationIntervalSlopes = intervalSlopes samples events\<rparr>)"

subsection \<open>The nearest rank\<close>

lemma f64_95_bounds: "95 / 100 - 1 / 2 ^ 50 \<le> f64_95" "f64_95 \<le> 95 / 100"
  by code_simp+

text \<open>Although \<open>0.95\<close> is not a \<open>float64\<close> and the product is rounded, the rank is exact.\<close>

lemma nearestRank_95:
  assumes "0 < n" and "n < 2 ^ 40"
  shows "nearestRank n f64_95 = (95 * int n + 99) div 100 - 1"
proof -
  define c where "c = (95 * int n + 99) div 100"
  have n: "0 < int n" "int n < 2 ^ 40" using assms by simp_all
  have div: "100 * c + (95 * int n + 99) mod 100 = 95 * int n + 99"
      "0 \<le> (95 * int n + 99) mod 100" "(95 * int n + 99) mod 100 < 100" by (simp_all add: c_def)
  have "20 * c < 19 * int n + 20" using div(1,2) by linarith
  then have c: "1 \<le> c" "c \<le> int n" "95 * int n \<le> 100 * c" "100 * c \<le> 95 * int n + 95"
    using div n(1) by linarith+
  have pos: "0 < (of_int (int n) :: rat)" and k: "\<bar>32 * int n\<bar> < 2 ^ 53"
    and r: "of_int (int n) = (of_int (32 * int n) / 2 ^ 5 :: rat)" using n by simp_all
  note o = rnd64_order [OF pos k r]
  have "rnd64 (of_int (int n)) = of_int (int n)"
    by (rule antisym [OF o(2) [OF order_refl] o(1) [OF order_refl]])
  then have whole: "f64_of_int (int n) = of_int (int n)" by (simp add: f64_of_int_def)
  define x :: rat where "x = f64_95 * of_int (int n)"
  have lo: "95 / 100 * of_int (int n) - of_int (int n) / 2 ^ 50 \<le> x"
    using f64_95_bounds(1) n mult_right_mono [of "95 / 100 - 1 / 2 ^ 50" f64_95 "of_int (int n)"]
    by (simp add: x_def algebra_simps)
  have hi: "x \<le> 95 / 100 * of_int (int n)"
    using f64_95_bounds(2) n by (simp add: x_def)
  have "(of_int (int n) :: rat) < 2 ^ 40" using n(2) by (metis of_int_less_iff of_int_numeral of_int_power)
  then have small: "of_int (int n) / 2 ^ 50 \<le> (1 / 1000 :: rat)" by simp
  have "(95 :: rat) * of_int (int n) \<le> 100 * of_int c" "(100 :: rat) * of_int c \<le> 95 * of_int (int n) + 95"
    using c(3,4) by (simp_all flip: of_int_le_iff [where 'a = rat])
  then have "of_int (32 * c - 31) / 2 ^ 5 \<le> x" "x \<le> of_int (32 * c) / 2 ^ 5"
    using lo hi small by (simp_all add: field_simps)
  moreover have "0 < x" using lo small n by (simp add: x_def)
  moreover have "\<bar>32 * c - 31\<bar> < 2 ^ 53" "\<bar>32 * c\<bar> < 2 ^ 53" using c(1,2) n(2) by simp_all
  ultimately have "of_int (32 * c - 31) / 2 ^ 5 \<le> rnd64 x" "rnd64 x \<le> of_int (32 * c) / 2 ^ 5"
    using rnd64_order by blast+
  then have "\<lceil>rnd64 x\<rceil> = c" by (intro ceiling_unique) (simp_all add: field_simps)
  then have "\<lceil>f64_mul f64_95 (f64_of_int (int n))\<rceil> = c"
    unfolding f64_mul_def whole x_def .
  then show ?thesis using c(1,2) by (simp add: nearestRank_def Let_def c_def [symmetric])
qed

lemma count_le_nth:
  assumes "sorted L" and "k < length L"
  shows "Suc k \<le> length (filter (\<lambda>x. x \<le> L ! k) L)"
    and "u < L ! k \<Longrightarrow> length (filter (\<lambda>x. x \<le> u) L) \<le> k"
proof -
  have split: "filter P L = filter P (take j L) @ filter P (drop j L)" for P j
    by (metis append_take_drop_id filter_append)
  have "\<forall>x \<in> set (take (Suc k) L). x \<le> L ! k"
    using assms by (auto simp: in_set_conv_nth sorted_iff_nth_mono)
  then show "Suc k \<le> length (filter (\<lambda>x. x \<le> L ! k) L)"
    using assms(2) by (subst split [of _ "Suc k"]) simp
  assume u: "u < L ! k"
  have "\<forall>x \<in> set (drop k L). \<not> x \<le> u"
  proof
    fix x assume "x \<in> set (drop k L)"
    then obtain i where "i < length L - k" "x = L ! (k + i)" by (auto simp: in_set_conv_nth)
    then have "L ! k \<le> x" using assms(1) by (auto intro: sorted_nth_mono)
    with u show "\<not> x \<le> u" by simp
  qed
  then have "filter (\<lambda>x. x \<le> u) (drop k L) = []" by (simp add: filter_empty_conv)
  moreover have "length (filter (\<lambda>x. x \<le> u) (take k L)) \<le> k"
    using length_filter_le [of "\<lambda>x. x \<le> u" "take k L"] by simp
  ultimately show "length (filter (\<lambda>x. x \<le> u) L) \<le> k" by (subst split [of _ k]) simp
qed

lemma length_filter_sort: "length (filter P (sort xs)) = length (filter P xs)"
  by (metis mset_filter mset_sort size_mset)

lemma Max_insert_max:
  "finite S \<Longrightarrow> Max (insert m (insert x S)) = Max (insert (max m x) S)" for x :: "'a::linorder"
  by (cases "S = {}") (simp_all add: max.assoc)

lemma fold_max: "fold (\<lambda>s m. if m < f s then f s else m) ss a = Max (insert a (f ` set ss))"
  for f :: "'a \<Rightarrow> 'b::linorder"
proof (induction ss arbitrary: a)
  case (Cons s ss)
  have "Max (insert a (insert (f s) (f ` set ss))) = Max (insert (max a (f s)) (f ` set ss))"
    by (rule Max_insert_max) simp
  with Cons show ?case by (simp add: max_def)
qed simp

text \<open>What the transient of one rotation is: the largest cache in its window above the first.\<close>

definition window_gain :: "Sample list \<Rightarrow> RotationEvent list \<Rightarrow> RotationEvent \<Rightarrow> u64" where
  "window_gain samples events start =
     (case filter (\<lambda>s. ev_ElapsedNS start \<le> s_ElapsedNS s \<and> s_ElapsedNS s \<le> transient_end events start) samples of
        [] \<Rightarrow> 0
      | s # ss \<Rightarrow> Max (s_Cache ` set (s # ss)) - s_Cache s)"

lemma peak_step_simps:
  "\<not> (t0 \<le> s_ElapsedNS s \<and> s_ElapsedNS s \<le> t1) \<Longrightarrow> peak_step t0 t1 s bp = bp"
  "t0 \<le> s_ElapsedNS s \<Longrightarrow> s_ElapsedNS s \<le> t1 \<Longrightarrow> peak_step t0 t1 s None = Some (s_Cache s, s_Cache s)"
  "t0 \<le> s_ElapsedNS s \<Longrightarrow> s_ElapsedNS s \<le> t1 \<Longrightarrow>
   peak_step t0 t1 s (Some (base, peak)) = Some (base, if peak < s_Cache s then s_Cache s else peak)"
  by (auto simp: peak_step_def)

lemma fold_peak_Some:
  "fold (peak_step t0 t1) samples (Some (base, peak)) =
   Some (base, fold (\<lambda>s m. if m < s_Cache s then s_Cache s else m)
     (filter (\<lambda>s. t0 \<le> s_ElapsedNS s \<and> s_ElapsedNS s \<le> t1) samples) peak)"
proof (induction samples arbitrary: peak)
  case (Cons s samples)
  then show ?case
    by (cases "t0 \<le> s_ElapsedNS s \<and> s_ElapsedNS s \<le> t1") (auto simp: peak_step_simps)
qed simp

lemma fold_peak:
  "fold (peak_step t0 t1) samples None =
   (case filter (\<lambda>s. t0 \<le> s_ElapsedNS s \<and> s_ElapsedNS s \<le> t1) samples of
      [] \<Rightarrow> None
    | s # ss \<Rightarrow> Some (s_Cache s, Max (s_Cache ` set (s # ss))))"
proof (induction samples)
  case (Cons s samples)
  then show ?case
    by (cases "t0 \<le> s_ElapsedNS s \<and> s_ElapsedNS s \<le> t1")
      (auto simp: peak_step_simps fold_peak_Some fold_max)
qed simp

definition opens_transient :: "RotationEvent \<Rightarrow> bool" where
  "opens_transient e \<longleftrightarrow> ev_Phase e = ''copy-start'' \<or> ev_Phase e = ''rename''"

lemma transient_step_max:
  "transient_step samples events start m =
   (if opens_transient start then max m (window_gain samples events start) else m)"
proof (cases "opens_transient start")
  case True
  let ?w = "filter (\<lambda>s. ev_ElapsedNS start \<le> s_ElapsedNS s \<and> s_ElapsedNS s \<le> transient_end events start) samples"
  have m: "max m 0 = m" for m :: u64 by (simp add: max_def)
  show ?thesis
  proof (cases ?w)
    case Nil
    with True show ?thesis
      by (auto simp: transient_step_def opens_transient_def fold_peak window_gain_def m)
  next
    case (Cons s ss)
    define M where "M = Max (s_Cache ` set (s # ss))"
    have "s_Cache s \<le> M" unfolding M_def by (intro Max_ge) simp_all
    then have "(if s_Cache s < M \<and> m < M - s_Cache s then M - s_Cache s else m) = max m (M - s_Cache s)"
      by (cases "s_Cache s = M") (auto simp: max_def)
    moreover have "fold (peak_step (ev_ElapsedNS start) (transient_end events start)) samples None =
        Some (s_Cache s, M)" unfolding fold_peak Cons M_def by simp
    moreover have "window_gain samples events start = M - s_Cache s"
      unfolding window_gain_def Cons M_def by simp
    ultimately show ?thesis
      using True by (auto simp: transient_step_def opens_transient_def)
  qed
qed (auto simp: transient_step_def opens_transient_def)

subsection \<open>Properties\<close>

text \<open>\<open>completes start e\<close>: \<open>e\<close> ends the rotation that \<open>start\<close> begins. \<open>in_rotation events start s\<close>: the
  sample \<open>s\<close> was taken during it, that is from its start up to the first such event, and without
  bound when the rotation was never completed.\<close>

definition completes :: "RotationEvent \<Rightarrow> RotationEvent \<Rightarrow> bool" where
  "completes start e \<longleftrightarrow> ev_Ordinal e = ev_Ordinal start \<and> ev_Phase e = ''retention-complete'' \<and>
     ev_ElapsedNS start \<le> ev_ElapsedNS e"

definition in_rotation :: "RotationEvent list \<Rightarrow> RotationEvent \<Rightarrow> Sample \<Rightarrow> bool" where
  "in_rotation events start s \<longleftrightarrow> ev_ElapsedNS start \<le> s_ElapsedNS s \<and>
     (case dropWhile (\<lambda>e. \<not> completes start e) events of
        [] \<Rightarrow> True
      | e # es \<Rightarrow> s_ElapsedNS s \<le> ev_ElapsedNS e)"

definition cache_growth :: "Sample list \<Rightarrow> u64" where
  "cache_growth ss = (case ss of [] \<Rightarrow> 0 | s # _ \<Rightarrow> Max (s_Cache ` set ss) - s_Cache s)"

lemma find_dropWhile: "List.find P xs = (case dropWhile (\<lambda>x. \<not> P x) xs of [] \<Rightarrow> None | x # _ \<Rightarrow> Some x)"
  by (induction xs) simp_all

lemma in_rotation_window:
  assumes "s_ElapsedNS s < 2 ^ 63"
  shows "in_rotation events start s \<longleftrightarrow>
    ev_ElapsedNS start \<le> s_ElapsedNS s \<and> s_ElapsedNS s \<le> transient_end events start"
proof -
  have "transient_end events start = (case dropWhile (\<lambda>e. \<not> completes start e) events of
      [] \<Rightarrow> 2 ^ 63 - 1 | e # _ \<Rightarrow> ev_ElapsedNS e)"
    unfolding transient_end_def completes_def [symmetric] find_dropWhile
    by (simp split: list.split del: dropWhile_eq_Nil_conv)
  with assms show ?thesis
    by (simp add: in_rotation_def split: list.split del: dropWhile_eq_Nil_conv)
qed

lemma window_gain_growth:
  assumes "\<forall>s \<in> set samples. s_ElapsedNS s < 2 ^ 63"
  shows "window_gain samples events start = cache_growth (filter (in_rotation events start) samples)"
proof -
  have "filter (in_rotation events start) samples =
      filter (\<lambda>s. ev_ElapsedNS start \<le> s_ElapsedNS s \<and> s_ElapsedNS s \<le> transient_end events start) samples"
    using assms by (intro filter_cong) (simp_all add: in_rotation_window)
  then show ?thesis by (simp add: window_gain_def cache_growth_def split: list.split)
qed

text \<open>C23: \<open>rotationTransient\<close> is the largest growth of the cache during a rotation: over all
  \<open>copy-start\<close> and \<open>rename\<close> events, the largest cache sample of the rotation above the first one; 0
  when there is none. A rotation lasts from this event to the first later \<open>retention-complete\<close> event
  of its own ordinal; one that was never completed counts up to the last sample. (The README's
  wording, "maximum cache observed during completed rotation intervals", differs in both respects:
  it is a difference, and open intervals count.)\<close>

theorem transient_is_max:
  assumes "\<forall>s \<in> set samples. s_ElapsedNS s < 2 ^ 63"
  shows "rotationTransient samples events =
     Max (insert 0 {cache_growth (filter (in_rotation events e) samples) |e.
       e \<in> set events \<and> (ev_Phase e = ''copy-start'' \<or> ev_Phase e = ''rename'')})"
proof -
  have "fold (transient_step samples events) es m =
      Max (insert m (window_gain samples events ` {e \<in> set es. opens_transient e}))" for es m
  proof (induction es arbitrary: m)
    case (Cons e es)
    let ?G = "\<lambda>xs. window_gain samples events ` {e \<in> set xs. opens_transient e}"
    have "Max (insert m (insert x (?G es))) = Max (insert (max m x) (?G es))" for x
      by (rule Max_insert_max) simp
    moreover have "?G (e # es) = (if opens_transient e then insert (window_gain samples events e) (?G es) else ?G es)"
      by auto
    ultimately show ?case using Cons by (simp add: transient_step_max)
  qed simp
  then have "rotationTransient samples events =
      Max (insert 0 (window_gain samples events ` {e \<in> set events. opens_transient e}))"
    by (simp add: rotationTransient_def)
  moreover have "window_gain samples events ` {e \<in> set events. opens_transient e} =
      {cache_growth (filter (in_rotation events e) samples) |e.
        e \<in> set events \<and> (ev_Phase e = ''copy-start'' \<or> ev_Phase e = ''rename'')}"
    using window_gain_growth [OF assms] by (auto simp: opens_transient_def)
  ultimately show ?thesis by simp
qed

text \<open>C24: the percentile and the maximum are exact. Although the rank is computed in floating point
  with a factor that is not exactly 95/100, \<open>P95Bytes\<close> is the least sampled cache size that at
  least 95 percent of the samples do not exceed, and \<open>MaxBytes\<close> is the largest.\<close>

theorem p95_is_percentile:
  assumes "samples \<noteq> []" and "length samples < 2 ^ 40" and "m = Metrics_Analyze samples events"
  shows "cm_P95Bytes m \<in> s_Cache ` set samples \<and>
    95 * length samples \<le> 100 * length (filter (\<lambda>s. s_Cache s \<le> cm_P95Bytes m) samples) \<and>
    (\<forall>u < cm_P95Bytes m. 100 * length (filter (\<lambda>s. s_Cache s \<le> u) samples) < 95 * length samples) \<and>
    cm_MaxBytes m = Max (s_Cache ` set samples)"
proof -
  let ?L = "sort (map s_Cache samples)"
  define n where "n = length samples"
  define k where "k = nat (nearestRank n f64_95)"
  have n: "0 < n" "n < 2 ^ 40" using assms(1,2) by (simp_all add: n_def)
  define c where "c = (95 * int n + 99) div 100"
  define j where "j = (95 * int n + 99) mod 100"
  have j: "100 * c + j = 95 * int n + 99" "0 \<le> j" "j < 100" by (simp_all add: c_def j_def)
  then have "1 \<le> c" using n(1) by linarith
  then have "int k = c - 1" using nearestRank_95 [OF n] by (simp add: k_def c_def)
  then have c: "c = int (Suc k)" by simp
  have k: "95 * n \<le> 100 * Suc k" using j unfolding c by linarith
  have "int (100 * k) < int (95 * n)" using j unfolding c by simp
  then have k': "100 * k < 95 * n" by (simp only: of_nat_less_iff)
  have p: "cm_P95Bytes m = ?L ! k"
    using assms(1) by (simp add: assms(3) Metrics_Analyze_def k_def n_def Let_def)
  have len: "k < length ?L" using k' by (simp add: n_def)
  have count: "length (filter (\<lambda>s. s_Cache s \<le> u) samples) = length (filter (\<lambda>x. x \<le> u) ?L)" for u
    by (simp add: length_filter_sort filter_map comp_def)
  have "?L ! k \<in> s_Cache ` set samples" using nth_mem [OF len] by simp
  moreover have "95 * n \<le> 100 * length (filter (\<lambda>x. x \<le> ?L ! k) ?L)"
    using count_le_nth(1) [of ?L k] len k by simp
  moreover have "100 * length (filter (\<lambda>x. x \<le> u) ?L) < 95 * n" if "u < ?L ! k" for u
    using count_le_nth(2) [of ?L k, OF _ len that] k' by simp
  moreover have "cm_MaxBytes m = Max (s_Cache ` set samples)"
    using assms(1) by (cases samples)
      (simp_all add: assms(3) Metrics_Analyze_def cache_max_def fold_max Let_def insert_absorb)
  ultimately show ?thesis unfolding p count n_def by blast
qed

definition cache_sample :: "int \<Rightarrow> u64 \<Rightarrow> Sample" where
  "cache_sample t c = \<lparr>s_ElapsedNS = t, s_Timestamp = [], s_Strategy = [], s_RunID = [],
     s_MemoryCurrent = 0, s_Cache = c, s_RSS = 0, s_Anon = None, s_InactiveFile = None,
     s_ActiveFile = None, s_Dirty = None, s_Writeback = None, s_Shmem = None, s_ActiveBytes = 0,
     s_BackupBytes = 0, s_BackupCount = 0\<rparr>"

theorem p95_is_percentile_witness:
  "cm_P95Bytes (Metrics_Analyze [cache_sample 0 10, cache_sample 5 30, cache_sample 9 20] []) = 30 \<and>
   cm_MaxBytes (Metrics_Analyze [cache_sample 0 10, cache_sample 5 30, cache_sample 9 20] []) = 30"
  using p95_is_percentile [of "[cache_sample 0 10, cache_sample 5 30, cache_sample 9 20]", OF _ _ refl, of "[]"]
  by (auto simp: cache_sample_def)

definition phase_event :: "int \<Rightarrow> int \<Rightarrow> string \<Rightarrow> RotationEvent" where
  "phase_event t k phase = \<lparr>ev_ElapsedNS = t, ev_Timestamp = [], ev_Ordinal = k, ev_Phase = phase,
     ev_Bytes = 0, ev_Error = []\<rparr>"

text \<open>Two rotations: the first ends at 20 (a retention of the second rotation at 12 does not end it),
  with a growth of 50; the second is open, with a growth of 30.\<close>

theorem transient_is_max_witness:
  "rotationTransient [cache_sample 5 10, cache_sample 10 40, cache_sample 15 90, cache_sample 25 200,
      cache_sample 30 230]
    [phase_event 10 1 ''rename'', phase_event 12 2 ''retention-complete'',
     phase_event 20 1 ''retention-complete'', phase_event 25 2 ''rename''] = 50"
proof -
  let ?S = "[cache_sample 5 10, cache_sample 10 40, cache_sample 15 90, cache_sample 25 200,
      cache_sample 30 230]"
  let ?E = "[phase_event 10 1 ''rename'', phase_event 12 2 ''retention-complete'',
     phase_event 20 1 ''retention-complete'', phase_event 25 2 ''rename'']"
  have openers: "{f e |e. e \<in> set ?E \<and> (ev_Phase e = ''copy-start'' \<or> ev_Phase e = ''rename'')} =
      {f (?E ! 0), f (?E ! 3)}" for f :: "RotationEvent \<Rightarrow> u64"
    by (auto simp: phase_event_def)
  note openers [of "\<lambda>e. cache_growth (filter (in_rotation ?E e) ?S)"]
  also have "cache_growth (filter (in_rotation ?E (?E ! 0)) ?S) = 50"
    by (simp add: cache_growth_def in_rotation_def completes_def phase_event_def cache_sample_def)
  also have "cache_growth (filter (in_rotation ?E (?E ! 3)) ?S) = 30"
    by (simp add: cache_growth_def in_rotation_def completes_def phase_event_def cache_sample_def)
  finally have sizes: "{cache_growth (filter (in_rotation ?E e) ?S) |e.
      e \<in> set ?E \<and> (ev_Phase e = ''copy-start'' \<or> ev_Phase e = ''rename'')} = {50, 30}" .
  have "\<forall>s \<in> set ?S. s_ElapsedNS s < 2 ^ 63" by (simp add: cache_sample_def)
  from transient_is_max [OF this, of ?E] show ?thesis unfolding sizes by simp
qed

end
