(* ===== verification/Lines.thy ===== *)
theory Lines
  imports GoText
begin

text \<open>
  Line framing: \<open>bufio.Scanner\<close> with its default split function \<open>ScanLines\<close>, which the
  integrity analyser and the cgroup reader use, and the contract between a line encoder and
  such a scanner (locale \<open>line_codec\<close>). A scanner with buffer limit \<open>m\<close> stops with
  \<open>ErrTooLong\<close> at the first line of \<open>m\<close> or more bytes; a final line needs no newline; one
  carriage return before the newline is dropped.
\<close>

definition drop_cr :: "string \<Rightarrow> string" where
  "drop_cr l = trim_suffix_char CR l"

function scan_lines :: "nat \<Rightarrow> string \<Rightarrow> string list \<times> bool" where
  "scan_lines m s =
     (if s = [] then ([], True) else
      let line = takeWhile (\<lambda>c. c \<noteq> NL) s; rest = dropWhile (\<lambda>c. c \<noteq> NL) s in
      if m \<le> length line then ([], False) else
      case rest of
        [] \<Rightarrow> ([drop_cr line], True)
      | _ # rest' \<Rightarrow> (case scan_lines m rest' of (ls, ok) \<Rightarrow> (drop_cr line # ls, ok)))"
  by pat_completeness auto
termination
proof (relation "measure (\<lambda>(m, s). length s)", goal_cases)
  case 1
  show ?case by simp
next
  case (2 m s line rest c rest')
  then have "length (c # rest') \<le> length s" by (metis length_dropWhile_le)
  then show ?case by simp
qed

declare scan_lines.simps [simp del]

text \<open>The default limit of \<open>bufio.NewScanner\<close>, and the one the integrity analyser sets.\<close>

definition default_token_limit :: nat where "default_token_limit = 65536"
definition integrity_token_limit :: nat where "integrity_token_limit = 4 * 1024 * 1024"

text \<open>What opening a file and reading it to its end gives, and \<open>Scanner.Err\<close> after the loop.\<close>

datatype file_read = OpenError go_error | Contents string "go_error option"

definition scan_error :: "bool \<Rightarrow> go_error option \<Rightarrow> go_error option" where
  "scan_error fits readErr =
     (if fits then readErr else Some (ErrText ''bufio.Scanner: token too long''))"

lemma scan_lines_Nil [simp]: "scan_lines m [] = ([], True)"
  by (simp add: scan_lines.simps)

lemma scan_lines_line:
  assumes "NL \<notin> set l" and "length l < m"
  shows "scan_lines m (l @ NL # s) = (drop_cr l # fst (scan_lines m s), snd (scan_lines m s))"
proof -
  have tw: "takeWhile (\<lambda>c. c \<noteq> NL) (l @ NL # s) = l"
    and dw: "dropWhile (\<lambda>c. c \<noteq> NL) (l @ NL # s) = NL # s"
    using assms(1) by (auto intro!: takeWhile_append_stop dropWhile_append_stop)
  show ?thesis
    using assms(2) by (subst scan_lines.simps) (simp add: tw dw split_beta)
qed

lemma scan_lines_too_long:
  assumes "NL \<notin> set l" and "m \<le> length l" and "l \<noteq> []"
  shows "scan_lines m (l @ s) = ([], False)"
proof -
  have "length l \<le> length (takeWhile (\<lambda>c. c \<noteq> NL) (l @ s))"
    using assms(1) by (subst takeWhile_append) auto
  with assms(2,3) show ?thesis by (subst scan_lines.simps) simp
qed

subsection \<open>Contract of a line encoder\<close>

text \<open>
  \<open>enc x\<close> is one line with its newline, \<open>dec\<close> is given a line with its newline back, and
  \<open>view x\<close> is what it must read. \<open>limit\<close> is the buffer of the scanner in between.
\<close>

locale line_codec =
  fixes valid :: "'a \<Rightarrow> bool" and enc :: "'a \<Rightarrow> string"
    and dec :: "string \<Rightarrow> 'b result" and view :: "'a \<Rightarrow> 'b" and limit :: nat
  assumes enc_line: "valid x \<Longrightarrow> \<exists>body. enc x = body @ [NL] \<and> NL \<notin> set body \<and>
      (body = [] \<or> last body \<noteq> CR) \<and> length body < limit"
    and dec_enc: "valid x \<Longrightarrow> dec (enc x) = Inr (view x)"
begin

lemma scan_enc:
  assumes "valid x"
  shows "scan_lines limit (enc x @ s) =
    (butlast (enc x) # fst (scan_lines limit s), snd (scan_lines limit s))"
proof -
  obtain body where b: "enc x = body @ [NL]" "NL \<notin> set body"
      "body = [] \<or> last body \<noteq> CR" "length body < limit"
    using enc_line [OF assms] by blast
  have "drop_cr body = body" using b(3) by (auto simp: drop_cr_def trim_suffix_char_def)
  with scan_lines_line [OF b(2,4), of s] show ?thesis by (simp add: b(1))
qed

lemma scan_concat:
  assumes "\<forall>x \<in> set xs. valid x"
  shows "scan_lines limit (concat (map enc xs) @ s) =
    (map (\<lambda>x. butlast (enc x)) xs @ fst (scan_lines limit s), snd (scan_lines limit s))"
  using assms by (induction xs) (simp_all add: scan_enc)

lemma dec_scanned:
  assumes "valid x"
  shows "dec (butlast (enc x) @ [NL]) = Inr (view x)"
proof -
  obtain body where "enc x = body @ [NL]" using enc_line [OF assms] by blast
  then have "butlast (enc x) @ [NL] = enc x" by simp
  with dec_enc [OF assms] show ?thesis by simp
qed

lemma scan_all:
  assumes "\<forall>x \<in> set xs. valid x"
  shows "scan_lines limit (concat (map enc xs)) = (map (\<lambda>x. butlast (enc x)) xs, True)"
  using scan_concat [OF assms, of "[]"] by simp

end

end
