(* ===== verification/Cgroup.thy ===== *)
theory Cgroup
  imports Lines Paths
begin

text \<open>
  \<open>internal/cgroup/reader.go\<close>: finding the memory controller and reading its counters and the
  resident sizes of its processes. \<open>stat\<close> says which paths exist, \<open>rd\<close> gives what opening and
  reading a path yields; \<open>map[string]uint64\<close> is a HOL map, \<open>*uint64\<close> an option. The files are
  the kernel's, in ASCII: the Unicode blanks of \<open>strings.Fields\<close> do not occur, and an error
  message quotes the offending text as it is.
\<close>

datatype Version = VersionV1 | VersionV2

fun version_text :: "Version \<Rightarrow> string" where
  "version_text VersionV1 = ''v1''"
| "version_text VersionV2 = ''v2''"

record MemorySample =
  ms_Current :: u64
  ms_Cache :: u64
  ms_Anon :: "u64 option"
  ms_InactiveFile :: "u64 option"
  ms_ActiveFile :: "u64 option"
  ms_Dirty :: "u64 option"
  ms_Writeback :: "u64 option"
  ms_Shmem :: "u64 option"
  ms_Version :: Version
  ms_CacheSource :: string

record Reader =
  rd_root :: string
  rd_version :: Version

definition NewReader :: "string \<Rightarrow> Version \<Rightarrow> Reader" where
  "NewReader root version = \<lparr>rd_root = root, rd_version = version\<rparr>"

definition Discover :: "(string \<Rightarrow> bool) \<Rightarrow> Reader result" where
  "Discover stat =
     (if stat ''/sys/fs/cgroup/memory.current'' then Inr (NewReader ''/sys/fs/cgroup'' VersionV2)
      else case List.find (\<lambda>root. stat (path_join [root, ''memory.usage_in_bytes'']))
             [''/sys/fs/cgroup/memory'', ''/sys/fs/cgroup''] of
        Some root \<Rightarrow> Inr (NewReader root VersionV1)
      | None \<Rightarrow> Inl (ErrText ''no supported cgroup memory controller found''))"

subsection \<open>Reading one file\<close>

definition parse_uint_error :: "string \<Rightarrow> num_error \<Rightarrow> go_error" where
  "parse_uint_error s e = ErrText (''strconv.ParseUint: parsing '' @ QT # s @ QT # '': '' @
     (case e of ErrSyntax \<Rightarrow> ''invalid syntax'' | ErrRange \<Rightarrow> ''value out of range''))"

definition read_uint :: "(string \<Rightarrow> file_read) \<Rightarrow> string \<Rightarrow> u64 result" where
  "read_uint rd path =
     (case rd path of
        OpenError e \<Rightarrow> Inl e
      | Contents text (Some e) \<Rightarrow> Inl e
      | Contents text None \<Rightarrow>
          (case parse_uint (trim_space text) of
             (v, None) \<Rightarrow> Inr v
           | (_, Some e) \<Rightarrow> Inl (Wrap (''parse '' @ path @ '': '') (parse_uint_error (trim_space text) e))))"

fun stats_loop ::
  "string \<Rightarrow> string list \<Rightarrow> go_error option \<Rightarrow> (string \<rightharpoonup> u64) \<Rightarrow> (string \<rightharpoonup> u64) result" where
  "stats_loop path [] (Some e) out = Inl e"
| "stats_loop path [] None out = Inr out"
| "stats_loop path (line # ls) err out =
     (case Fields line of
        [name, num] \<Rightarrow>
          (case parse_uint num of
             (v, None) \<Rightarrow> stats_loop path ls err (out(name \<mapsto> v))
           | (_, Some e) \<Rightarrow>
               Inl (Wrap (''parse '' @ path @ '' '' @ name @ '': '') (parse_uint_error num e)))
      | _ \<Rightarrow> stats_loop path ls err out)"

definition read_stats :: "(string \<Rightarrow> file_read) \<Rightarrow> string \<Rightarrow> (string \<rightharpoonup> u64) result" where
  "read_stats rd path =
     (case rd path of
        OpenError e \<Rightarrow> Inl e
      | Contents text readErr \<Rightarrow>
          (case scan_lines default_token_limit text of
             (ls, fits) \<Rightarrow> stats_loop path ls (scan_error fits readErr) Map.empty))"

definition stat_ptr :: "(string \<rightharpoonup> u64) \<Rightarrow> string list \<Rightarrow> u64 option" where
  "stat_ptr stats names =
     (case List.find (\<lambda>name. stats name \<noteq> None) names of Some name \<Rightarrow> stats name | None \<Rightarrow> None)"

subsection \<open>Samples\<close>

definition cache_source :: "Version \<Rightarrow> (string \<rightharpoonup> u64) \<Rightarrow> string" where
  "cache_source version stats =
     (if version = VersionV1
      then if stats ''total_cache'' \<noteq> None then ''total_cache'' else ''cache''
      else ''file'')"

definition sample_of :: "Version \<Rightarrow> u64 \<Rightarrow> (string \<rightharpoonup> u64) \<Rightarrow> MemorySample result" where
  "sample_of version current stats =
     (let source = cache_source version stats in
      case stats source of
        None \<Rightarrow> Inl (ErrText ''cache counter not found in memory.stat'')
      | Some cache \<Rightarrow> Inr \<lparr>ms_Current = current, ms_Cache = cache,
          ms_Anon = stat_ptr stats [''anon'', ''total_rss''],
          ms_InactiveFile = stat_ptr stats [''inactive_file'', ''total_inactive_file''],
          ms_ActiveFile = stat_ptr stats [''active_file'', ''total_active_file''],
          ms_Dirty = stat_ptr stats [''file_dirty'', ''dirty''],
          ms_Writeback = stat_ptr stats [''file_writeback'', ''writeback''],
          ms_Shmem = stat_ptr stats [''shmem'', ''total_shmem''],
          ms_Version = version, ms_CacheSource = source\<rparr>)"

definition usage_name :: "Version \<Rightarrow> string" where
  "usage_name version = (if version = VersionV1 then ''memory.usage_in_bytes'' else ''memory.current'')"

definition Reader_Sample :: "(string \<Rightarrow> file_read) \<Rightarrow> Reader \<Rightarrow> MemorySample result" where
  "Reader_Sample rd r =
     (case read_uint rd (path_join [rd_root r, usage_name (rd_version r)]) of
        Inl e \<Rightarrow> Inl e
      | Inr current \<Rightarrow>
          (case read_stats rd (path_join [rd_root r, ''memory.stat'']) of
             Inl e \<Rightarrow> Inl e
           | Inr stats \<Rightarrow> sample_of (rd_version r) current stats))"

subsection \<open>Resident set sizes\<close>

fun vm_rss_loop :: "string list \<Rightarrow> u64 \<times> go_error option" where
  "vm_rss_loop [] = (0, Some (ErrText ''VmRSS not found''))"
| "vm_rss_loop (line # ls) =
     (case Fields line of
        key # num # _ \<Rightarrow>
          (if key = ''VmRSS:''
           then case parse_uint num of (kb, e) \<Rightarrow> (kb * 1024, map_option (parse_uint_error num) e)
           else vm_rss_loop ls)
      | _ \<Rightarrow> vm_rss_loop ls)"

definition read_vm_rss :: "(string \<Rightarrow> file_read) \<Rightarrow> string \<Rightarrow> u64 \<times> go_error option" where
  "read_vm_rss rd path =
     (case rd path of
        OpenError e \<Rightarrow> (0, Some e)
      | Contents text _ \<Rightarrow> vm_rss_loop (fst (scan_lines default_token_limit text)))"

definition add_rss :: "(string \<Rightarrow> file_read) \<Rightarrow> string \<Rightarrow> u64 \<Rightarrow> u64" where
  "add_rss rd line rss_total =
     (let pid = trim_space line in
      if pid = [] then rss_total
      else case read_vm_rss rd (path_join [''/proc'', pid, ''status'']) of
        (rss, None) \<Rightarrow> rss_total + rss
      | (_, Some _) \<Rightarrow> rss_total)"

definition RSSFromCgroupProcs :: "(string \<Rightarrow> file_read) \<Rightarrow> Reader \<Rightarrow> u64 \<times> go_error option" where
  "RSSFromCgroupProcs rd r =
     (case rd (path_join [rd_root r, ''cgroup.procs'']) of
        OpenError e \<Rightarrow> (0, Some e)
      | Contents text readErr \<Rightarrow>
          (case scan_lines default_token_limit text of
             (ls, fits) \<Rightarrow> (fold (add_rss rd) ls 0, scan_error fits readErr)))"

subsection \<open>The kernel's line format as a line codec\<close>

definition stat_line :: "string \<times> u64 \<Rightarrow> string" where
  "stat_line kv = fst kv @ SP # format_uint (snd kv) @ [NL]"

definition word_like :: "string \<Rightarrow> bool" where
  "word_like s \<longleftrightarrow> s \<noteq> [] \<and> list_all (\<lambda>c. \<not> is_space c) s \<and> length s < 60000"

definition stat_entry :: "string \<Rightarrow> (string \<times> u64) result" where
  "stat_entry line =
     (case Fields line of
        [name, num] \<Rightarrow> (case parse_uint num of (v, None) \<Rightarrow> Inr (name, v)
          | (_, Some e) \<Rightarrow> Inl (parse_uint_error num e))
      | _ \<Rightarrow> Inl (ErrText line))"

lemma fields_from_word:
  "list_all (\<lambda>c. \<not> is_space c) s \<Longrightarrow> fields_from cur (s @ t) = fields_from (rev s @ cur) t"
  by (induction s arbitrary: cur) auto

lemma fields_two:
  assumes "list_all (\<lambda>c. \<not> is_space c) a" and "a \<noteq> []" and "list_all (\<lambda>c. \<not> is_space c) b" and "b \<noteq> []"
  shows "Fields (a @ SP # b) = [a, b]" and "Fields (a @ SP # b @ [NL]) = [a, b]"
proof -
  have sp: "is_space SP" "is_space NL" by (simp_all add: is_space_def)
  show "Fields (a @ SP # b) = [a, b]"
    using assms sp fields_from_word [OF assms(3), of "[]" "[]"]
    by (simp add: Fields_def fields_from_word [OF assms(1)])
  show "Fields (a @ SP # b @ [NL]) = [a, b]"
    using assms sp by (simp add: Fields_def fields_from_word)
qed

lemma digits_no_space: "list_all is_digit s \<Longrightarrow> list_all (\<lambda>c. \<not> is_space c) s"
  by (auto simp: list_all_iff dest: space_not_digit)

lemma format_uint_word: "list_all (\<lambda>c. \<not> is_space c) (format_uint v)" "format_uint v \<noteq> []"
  using digits_no_space [OF dec_digits] by (simp_all add: format_uint_def)

lemma length_format_uint: "length (format_uint v) \<le> 20"
  using unat_u64_less [of v] length_dec_le [of "unat v" 20] by (simp add: format_uint_def)

lemma word_like_chars: "word_like s \<Longrightarrow> NL \<notin> set s \<and> CR \<notin> set s"
  by (auto simp: word_like_def list_all_iff is_space_def)

interpretation stat_file: line_codec "\<lambda>kv. word_like (fst kv)" stat_line stat_entry id default_token_limit
proof
  fix kv :: "string \<times> u64"
  assume w: "word_like (fst kv)"
  let ?body = "fst kv @ SP # format_uint (snd kv)"
  have num: "NL \<notin> set (format_uint v)" "CR \<notin> set (format_uint v)" for v
    using format_uint_word(1) [of v] by (auto simp: list_all_iff is_space_def)
  have "last ?body \<noteq> CR" using num(2) [of "snd kv"] format_uint_word(2) [of "snd kv"] by (metis last_ConsR
    last_appendR last_in_set list.distinct(1))
  moreover have "length ?body < default_token_limit"
    using w length_format_uint [of "snd kv"] by (simp add: word_like_def default_token_limit_def)
  ultimately show "\<exists>body. stat_line kv = body @ [NL] \<and> NL \<notin> set body \<and>
      (body = [] \<or> last body \<noteq> CR) \<and> length body < default_token_limit"
    using word_like_chars [OF w] num(1) by (intro exI [of _ ?body]) (simp add: stat_line_def)
  show "stat_entry (stat_line kv) = Inr (id kv)"
    using w fields_two(2) [of "fst kv" "format_uint (snd kv)"] format_uint_word
    by (simp add: stat_entry_def stat_line_def word_like_def)
qed

lemma stats_loop_lines:
  assumes "\<forall>kv \<in> set kvs. word_like (fst kv)"
  shows "stats_loop path (map (\<lambda>kv. butlast (stat_line kv)) kvs) None out = Inr (out ++ map_of (rev kvs))"
  using assms
proof (induction kvs arbitrary: out)
  case (Cons kv kvs)
  have body: "butlast (stat_line kv) = fst kv @ SP # format_uint (snd kv)"
    by (simp add: stat_line_def butlast_append)
  have "Fields (butlast (stat_line kv)) = [fst kv, format_uint (snd kv)]"
    unfolding body using Cons.prems format_uint_word by (intro fields_two) (auto simp: word_like_def)
  with Cons show ?case by (cases kv) (simp add: map_add_def fun_eq_iff split: option.split)
qed simp

lemma read_stats_lines:
  assumes "rd path = Contents (concat (map stat_line kvs)) None" and "\<forall>kv \<in> set kvs. word_like (fst kv)"
  shows "read_stats rd path = Inr (map_of (rev kvs))"
  using stats_loop_lines [OF assms(2)] stat_file.scan_all [OF assms(2)]
  by (simp add: read_stats_def assms(1) scan_error_def)

lemma dropWhile_no_space: "list_all (\<lambda>c. \<not> is_space c) s \<Longrightarrow> dropWhile is_space s = s"
  by (cases s) auto

lemma trim_space_line: "word_like s \<Longrightarrow> trim_space (s @ [NL]) = s" "word_like s \<Longrightarrow> trim_space s = s"
proof -
  assume "word_like s"
  then have s: "list_all (\<lambda>c. \<not> is_space c) s" "s \<noteq> []" by (simp_all add: word_like_def)
  have r: "dropWhile is_space (rev s) = rev s" using s(1) by (intro dropWhile_no_space) simp
  have "dropWhile is_space (s @ t) = s @ t" for t using s by (cases s) auto
  then show "trim_space (s @ [NL]) = s" using r by (simp add: trim_space_def is_space_def)
  show "trim_space s = s" using r dropWhile_no_space [OF s(1)] by (simp add: trim_space_def)
qed

text \<open>\<open>cgroup.procs\<close>: one number per line.\<close>

interpretation procs_file:
  line_codec word_like "\<lambda>s. s @ [NL]" "\<lambda>s. Inr (trim_space s)" id default_token_limit
proof
  fix s assume w: "word_like s"
  have "s = [] \<or> last s \<noteq> CR" using word_like_chars [OF w] by (cases s rule: rev_cases) auto
  with word_like_chars [OF w] w show "\<exists>body. s @ [NL] = body @ [NL] \<and> NL \<notin> set body \<and>
      (body = [] \<or> last body \<noteq> CR) \<and> length body < default_token_limit"
    by (intro exI [of _ s]) (simp add: word_like_def default_token_limit_def)
  show "Inr (trim_space (s @ [NL])) = Inr (id s)" using trim_space_line(1) [OF w] by simp
qed

definition rss_of :: "(string \<Rightarrow> file_read) \<Rightarrow> string \<Rightarrow> u64" where
  "rss_of rd pid = (case read_vm_rss rd (path_join [''/proc'', pid, ''status'']) of
     (rss, None) \<Rightarrow> rss | (_, Some _) \<Rightarrow> 0)"

lemma add_rss_pid: "word_like pid \<Longrightarrow> add_rss rd pid n = n + rss_of rd pid"
  using trim_space_line(2) [of pid]
  by (auto simp: add_rss_def Let_def rss_of_def word_like_def split: prod.splits option.splits)

lemma fold_add_rss: "\<forall>pid \<in> set pids. word_like pid \<Longrightarrow>
    fold (add_rss rd) pids n = n + sum_list (map (rss_of rd) pids)"
  by (induction pids arbitrary: n) (simp_all add: add_rss_pid add.assoc)

text \<open>\<open>/proc/<pid>/status\<close>: lines of any text. \<open>resident_size rd pid n\<close> says, in terms of this file alone,
  that the process has \<open>n\<close> resident bytes: the file cannot be opened, or none of its lines begins with
  \<open>VmRSS:\<close>, or the first that does gives \<open>kb\<close> units of 1024 bytes.\<close>

definition plain_line :: "string \<Rightarrow> bool" where
  "plain_line l \<longleftrightarrow> NL \<notin> set l \<and> CR \<notin> set l \<and> length l < 60000"

definition other_line :: "string \<Rightarrow> bool" where
  "other_line l \<longleftrightarrow> plain_line l \<and> (l = [] \<or> \<not> is_space (hd l)) \<and> \<not> has_prefix l ''VmRSS:''"

inductive resident_size :: "(string \<Rightarrow> file_read) \<Rightarrow> string \<Rightarrow> u64 \<Rightarrow> bool" for rd pid where
  gone: "rd (path_join [''/proc'', pid, ''status'']) = OpenError e \<Longrightarrow> resident_size rd pid 0"
| no_size: "rd (path_join [''/proc'', pid, ''status'']) = Contents (concat (map (\<lambda>l. l @ [NL]) ls)) err \<Longrightarrow>
    list_all other_line ls \<Longrightarrow> resident_size rd pid 0"
| size: "rd (path_join [''/proc'', pid, ''status'']) =
      Contents (concat (map (\<lambda>l. l @ [NL]) (ls @ [l]) @ rest)) err \<Longrightarrow>
    list_all other_line ls \<Longrightarrow> plain_line l \<Longrightarrow>
    l = ''VmRSS:'' @ blanks @ format_uint kb @ '' kB'' \<Longrightarrow> blanks \<noteq> [] \<Longrightarrow> set blanks \<subseteq> {SP, TAB} \<Longrightarrow>
    resident_size rd pid (kb * 1024)"

interpretation status_file: line_codec plain_line "\<lambda>l. l @ [NL]" "\<lambda>s. Inr (butlast s)" id default_token_limit
proof
  fix l assume "plain_line l"
  then show "\<exists>body. l @ [NL] = body @ [NL] \<and> NL \<notin> set body \<and>
      (body = [] \<or> last body \<noteq> CR) \<and> length body < default_token_limit"
    by (intro exI [of _ l]) (auto simp: plain_line_def default_token_limit_def dest: last_in_set)
qed simp

lemma fields_from_first: "fields_from cur s = k # ks \<Longrightarrow> cur \<noteq> [] \<Longrightarrow> \<exists>t. rev cur @ s = k @ t"
  by (induction s arbitrary: cur) (fastforce split: if_splits)+

lemma vm_rss_other:
  assumes "other_line l"
  shows "vm_rss_loop (l # ls) = vm_rss_loop ls"
proof (cases l)
  case (Cons x t)
  then have "\<not> is_space x" using assms by (simp add: other_line_def)
  with Cons have f: "Fields l = fields_from [x] t" by (simp add: Fields_def)
  have "k \<noteq> ''VmRSS:''" if "Fields l = k # ks" for k ks
  proof -
    from fields_from_first [OF that [unfolded f]] obtain u where "l = k @ u" using Cons by auto
    with assms show ?thesis by (auto simp: other_line_def has_prefix_def)
  qed
  then show ?thesis by (auto split: list.split)
qed (simp add: Fields_def)

lemma vm_rss_others: "list_all other_line ls \<Longrightarrow> vm_rss_loop (ls @ ls') = vm_rss_loop ls'"
  by (induction ls) (simp_all add: vm_rss_other del: vm_rss_loop.simps)

lemma fields_from_blanks: "set b \<subseteq> {SP, TAB} \<Longrightarrow> fields_from [] (b @ s) = fields_from [] s"
  by (induction b) (auto simp: is_space_def)

lemma vm_rss_size:
  assumes "blanks \<noteq> []" and "set blanks \<subseteq> {SP, TAB}"
  shows "vm_rss_loop ((''VmRSS:'' @ blanks @ format_uint kb @ '' kB'') # ls) = (kb * 1024, None)"
proof -
  obtain b bs where b: "blanks = b # bs" "is_space b" "set bs \<subseteq> {SP, TAB}"
    using assms by (cases blanks) (auto simp: is_space_def)
  have "Fields (''VmRSS:'' @ blanks @ format_uint kb @ '' kB'') = [''VmRSS:'', format_uint kb, ''kB'']"
    using format_uint_word [of kb] fields_from_word [of "''VmRSS:''" "[]" "blanks @ format_uint kb @ '' kB''"]
      fields_from_word [OF format_uint_word(1), of "[]" kb "'' kB''"] fields_from_blanks [OF b(3)]
    by (simp add: Fields_def b(1,2)) (simp add: is_space_def)
  then show ?thesis by simp
qed

lemma resident_rss: "resident_size rd pid n \<Longrightarrow> rss_of rd pid = n"
proof (induction rule: resident_size.cases)
  case (gone e)
  then show ?case by (simp add: rss_of_def read_vm_rss_def)
next
  case (no_size ls err)
  have "\<forall>l \<in> set ls. plain_line l" using no_size(3) by (auto simp: list_all_iff other_line_def)
  from status_file.scan_all [OF this] vm_rss_others [OF no_size(3), of "[]"] no_size(1,2) show ?case
    by (simp add: rss_of_def read_vm_rss_def)
next
  case (size ls l rest err blanks kb)
  have "\<forall>l \<in> set (ls @ [l]). plain_line l" using size(3,4) by (auto simp: list_all_iff other_line_def)
  from status_file.scan_concat [OF this, of "concat rest"]
    vm_rss_others [OF size(3)] vm_rss_size [OF size(6,7)] size(1,2,5)
  show ?case by (simp add: rss_of_def read_vm_rss_def)
qed

subsection \<open>Properties\<close>

text \<open>C25: a sample holds the kernel's counters. Given the usage file of its version and a
  \<open>memory.stat\<close> of lines \<open>name value\<close> (of two lines of one name the last counts), \<open>Sample\<close> fails
  exactly when there is no cache counter: for version 2 \<open>file\<close>, for version 1 \<open>total_cache\<close> or, when
  that is missing, \<open>cache\<close>. Otherwise it gives the usage, this counter with its name, and each of
  the six optional counters under its first name or, when that is missing, its second name, or
  absent when there is neither.\<close>

theorem sample_reads_counters:
  assumes "rd (path_join [root_dir, if v = VersionV1 then ''memory.usage_in_bytes'' else ''memory.current'']) =
      Contents (format_uint current @ [NL]) None"
    and "rd (path_join [root_dir, ''memory.stat'']) = Contents (concat (map stat_line kvs)) None"
    and "\<forall>kv \<in> set kvs. word_like (fst kv)" and "value = map_of (rev kvs)"
    and "either = (\<lambda>a b. if value a \<noteq> None then value a else value b)"
    and "source = (if v = VersionV2 then ''file''
        else if value ''total_cache'' \<noteq> None then ''total_cache'' else ''cache'')"
  shows "Reader_Sample rd (NewReader root_dir v) =
    (case value source of
       None \<Rightarrow> Inl (ErrText ''cache counter not found in memory.stat'')
     | Some cache \<Rightarrow> Inr \<lparr>ms_Current = current, ms_Cache = cache,
         ms_Anon = either ''anon'' ''total_rss'',
         ms_InactiveFile = either ''inactive_file'' ''total_inactive_file'',
         ms_ActiveFile = either ''active_file'' ''total_active_file'',
         ms_Dirty = either ''file_dirty'' ''dirty'',
         ms_Writeback = either ''file_writeback'' ''writeback'',
         ms_Shmem = either ''shmem'' ''total_shmem'', ms_Version = v, ms_CacheSource = source\<rparr>)"
proof -
  have usage: "(if v = VersionV1 then ''memory.usage_in_bytes'' else ''memory.current'') = usage_name v"
    by (simp add: usage_name_def)
  have "word_like (format_uint current)"
    using format_uint_word length_format_uint [of current] by (simp add: word_like_def)
  then have cur: "read_uint rd (path_join [root_dir, usage_name v]) = Inr current"
    by (simp add: read_uint_def assms(1) [unfolded usage] trim_space_line)
  have src: "cache_source v value = source" unfolding assms(6) cache_source_def by (cases v) simp_all
  have ptr: "stat_ptr value [a, b] = either a b" for a b
    by (simp add: stat_ptr_def assms(5))
  have "read_stats rd (path_join [root_dir, ''memory.stat'']) = Inr value"
    using read_stats_lines [of rd "path_join [root_dir, ''memory.stat'']", OF assms(2,3)] assms(4) by simp
  then show ?thesis
    by (simp add: Reader_Sample_def NewReader_def cur sample_of_def Let_def src ptr split: option.split)
qed

definition sample_cgroup :: "string \<Rightarrow> file_read" where
  "sample_cgroup p =
     (if p = ''/sys/fs/cgroup/memory.current'' then Contents (format_uint 7340032 @ [NL]) None
      else if p = ''/sys/fs/cgroup/memory.stat''
      then Contents (concat (map stat_line [(''anon'', 1048576), (''file'', 4194304)])) None
      else if p = ''/sys/fs/cgroup/cgroup.procs'' then Contents (concat (map (\<lambda>s. s @ [NL]) [''12'', ''13'', ''14''])) None
      else if p = ''/proc/12/status''
      then Contents (''Name:'' @ TAB # ''cat'' @ NL # ''VmRSS:'' @ TAB # ''  512 kB'' @ NL #
        ''Threads:'' @ TAB # ''1'' @ [NL]) None
      else if p = ''/proc/14/status'' then Contents (''Name:'' @ TAB # ''kthreadd'' @ [NL]) None
      else OpenError (PathError ''open'' p ENOENT))"

lemma sample_cgroup_paths:
  "path_join [''/sys/fs/cgroup'', usage_name VersionV2] = ''/sys/fs/cgroup/memory.current''"
  "path_join [''/sys/fs/cgroup'', ''memory.stat''] = ''/sys/fs/cgroup/memory.stat''"
  "path_join [''/sys/fs/cgroup'', ''cgroup.procs''] = ''/sys/fs/cgroup/cgroup.procs''"
  by code_simp+

lemma sample_cgroup_stats: "word_like ''anon''" "word_like ''file''"
  by (simp_all add: word_like_def is_space_def)

text \<open>A version 1 controller that has both cache counters.\<close>

definition sample_cgroup1 :: "string \<Rightarrow> file_read" where
  "sample_cgroup1 p =
     (if p = ''/sys/fs/cgroup/memory/memory.usage_in_bytes'' then Contents (format_uint 7340032 @ [NL]) None
      else if p = ''/sys/fs/cgroup/memory/memory.stat''
      then Contents (concat (map stat_line [(''cache'', 1), (''inactive_file'', 2), (''active_file'', 3),
        (''total_cache'', 4), (''dirty'', 5), (''writeback'', 6), (''total_shmem'', 7)])) None
      else OpenError (PathError ''open'' p ENOENT))"

theorem sample_reads_counters_witness:
  "Reader_Sample sample_cgroup1 (NewReader ''/sys/fs/cgroup/memory'' VersionV1) =
     Inr \<lparr>ms_Current = 7340032, ms_Cache = 4, ms_Anon = None, ms_InactiveFile = Some 2,
       ms_ActiveFile = Some 3, ms_Dirty = Some 5, ms_Writeback = Some 6, ms_Shmem = Some 7,
       ms_Version = VersionV1, ms_CacheSource = ''total_cache''\<rparr>"
proof -
  let ?kvs = "[(''cache'', 1), (''inactive_file'', 2), (''active_file'', 3), (''total_cache'', 4),
    (''dirty'', 5), (''writeback'', 6), (''total_shmem'', 7)] :: (string \<times> u64) list"
  have "\<forall>kv \<in> set ?kvs. word_like (fst kv)" by (simp add: word_like_def is_space_def)
  moreover have "path_join [''/sys/fs/cgroup/memory'', ''memory.usage_in_bytes''] =
      ''/sys/fs/cgroup/memory/memory.usage_in_bytes''"
    "path_join [''/sys/fs/cgroup/memory'', ''memory.stat''] = ''/sys/fs/cgroup/memory/memory.stat''"
    by code_simp+
  ultimately show ?thesis
    using sample_reads_counters [of sample_cgroup1 "''/sys/fs/cgroup/memory''" VersionV1 7340032 ?kvs,
        OF _ _ _ refl refl refl]
    by (simp add: sample_cgroup1_def)
qed

text \<open>C26: the resident size is the sum over the listed processes, each with the first \<open>VmRSS:\<close> line of
  its \<open>/proc/<pid>/status\<close>, in units of 1024 bytes; a process whose file cannot be opened or has no
  such line (it has exited meanwhile, or is a kernel thread) counts nothing and is no error.\<close>

theorem rss_is_sum:
  assumes "rd (path_join [root_dir, ''cgroup.procs'']) = Contents (concat (map (\<lambda>s. s @ [NL]) pids)) None"
    and "\<forall>pid \<in> set pids. word_like pid" and "list_all2 (resident_size rd) pids sizes"
  shows "RSSFromCgroupProcs rd (NewReader root_dir v) = (sum_list sizes, None)"
proof -
  have "sizes = map (rss_of rd) pids"
    using assms(3) resident_rss by (induction rule: list_all2_induct) auto
  then show ?thesis
    using procs_file.scan_all [OF assms(2)] fold_add_rss [OF assms(2), of rd 0]
    by (simp add: RSSFromCgroupProcs_def NewReader_def assms(1) scan_error_def)
qed

text \<open>Process 12 has half a mebibyte, 13 has exited, 14 is a kernel thread.\<close>

theorem rss_is_sum_witness:
  "RSSFromCgroupProcs sample_cgroup (NewReader ''/sys/fs/cgroup'' VersionV2) = (524288, None)"
proof -
  have p: "path_join [''/proc'', ''12'', ''status''] = ''/proc/12/status''"
    "path_join [''/proc'', ''13'', ''status''] = ''/proc/13/status''"
    "path_join [''/proc'', ''14'', ''status''] = ''/proc/14/status''" by code_simp+
  have "resident_size sample_cgroup ''12'' (512 * 1024)"
  proof (rule resident_size.size)
    show "sample_cgroup (path_join [''/proc'', ''12'', ''status'']) = Contents (concat (map (\<lambda>l. l @ [NL])
        ([''Name:'' @ TAB # ''cat''] @ [''VmRSS:'' @ TAB # ''  512 kB'']) @ [''Threads:'' @ TAB # ''1'' @ [NL]])) None"
      by (simp add: p sample_cgroup_def)
    show "''VmRSS:'' @ TAB # ''  512 kB'' = ''VmRSS:'' @ (TAB # ''  '') @ format_uint 512 @ '' kB''"
      by code_simp
  qed (simp_all add: other_line_def plain_line_def has_prefix_def is_space_def)
  moreover have "resident_size sample_cgroup ''13'' 0"
    by (rule resident_size.gone) (simp add: p sample_cgroup_def)
  moreover have "resident_size sample_cgroup ''14'' 0"
    by (rule resident_size.no_size [of _ _ "[''Name:'' @ TAB # ''kthreadd'']"])
      (simp_all add: p sample_cgroup_def other_line_def plain_line_def has_prefix_def is_space_def)
  moreover have "word_like ''12''" "word_like ''13''" "word_like ''14''"
    by (simp_all add: word_like_def is_space_def)
  ultimately show ?thesis
    using rss_is_sum [of sample_cgroup "''/sys/fs/cgroup''" "[''12'', ''13'', ''14'']" "[512 * 1024, 0, 0]" VersionV2]
    by (simp add: sample_cgroup_paths sample_cgroup_def)
qed

end
