(* ===== verification/Csv.thy ===== *)
theory Csv
  imports Lines
begin

text \<open>
  Go's \<open>encoding/csv\<close> as the program uses it (comma, no comment character, strict quotes): the
  record writer and \<open>Reader.ReadAll\<close>. The reader works on whole lines; here it is one pass over
  the characters of the input in which every \<open>\r\n\<close> has become \<open>\n\<close> and a carriage return
  at the very end is dropped, as \<open>readLine\<close> does. Errors keep their kind, not their position.

  The locale \<open>csv_table\<close> is what a table needs for its rows to be read back; the samples
  (\<open>Monitor\<close>) and the event log (\<open>EventLog\<close>) provide it.
\<close>

abbreviation COMMA :: char where "COMMA \<equiv> CHR '',''"

subsection \<open>Writer\<close>

definition field_needs_quotes :: "string \<Rightarrow> bool" where
  "field_needs_quotes f \<longleftrightarrow> f \<noteq> [] \<and>
     (f = [CHR 0x5C, CHR ''.''] \<or> COMMA \<in> set f \<or> QT \<in> set f \<or> CR \<in> set f \<or> NL \<in> set f \<or>
      is_space (hd f))"

fun double_quotes :: "string \<Rightarrow> string" where
  "double_quotes [] = []"
| "double_quotes (c # s) = (if c = QT then QT # QT # double_quotes s else c # double_quotes s)"

definition csv_write_field :: "string \<Rightarrow> string" where
  "csv_write_field f = (if field_needs_quotes f then QT # double_quotes f @ [QT] else f)"

fun csv_write_fields :: "string list \<Rightarrow> string" where
  "csv_write_fields [] = [NL]"
| "csv_write_fields [f] = csv_write_field f @ [NL]"
| "csv_write_fields (f # g # fs) = csv_write_field f @ COMMA # csv_write_fields (g # fs)"

abbreviation csv_row :: "string list \<Rightarrow> string" where
  "csv_row \<equiv> csv_write_fields"

subsection \<open>Reader\<close>

datatype csv_error = ErrBareQuote | ErrQuote | ErrFieldCount

fun csv_error_text :: "csv_error \<Rightarrow> string" where
  "csv_error_text ErrBareQuote = ''bare quote in non-quoted field''"
| "csv_error_text ErrQuote = ''extraneous or missing quote in quoted-field''"
| "csv_error_text ErrFieldCount = ''wrong number of fields''"

fun csv_normalize :: "string \<Rightarrow> string" where
  "csv_normalize [] = []"
| "csv_normalize [c] = (if c = CR then [] else [c])"
| "csv_normalize (c # d # s) =
     (if c = CR \<and> d = NL then NL # csv_normalize s else c # csv_normalize (d # s))"

fun csv_quoted :: "string \<Rightarrow> string \<Rightarrow> (string \<times> string) option" where
  "csv_quoted acc [] = None"
| "csv_quoted acc (c # s) =
     (if c = QT
      then (case s of [] \<Rightarrow> Some (rev acc, [])
            | d # s' \<Rightarrow> if d = QT then csv_quoted (QT # acc) s' else Some (rev acc, s))
      else csv_quoted (c # acc) s)"

definition csv_field :: "string \<Rightarrow> csv_error + string \<times> string" where
  "csv_field s =
     (if s \<noteq> [] \<and> hd s = QT
      then (case csv_quoted [] (tl s) of None \<Rightarrow> Inl ErrQuote | Some x \<Rightarrow> Inr x)
      else
        (let f = takeWhile (\<lambda>c. c \<noteq> COMMA \<and> c \<noteq> NL) s;
             rest = dropWhile (\<lambda>c. c \<noteq> COMMA \<and> c \<noteq> NL) s
         in if QT \<in> set f then Inl ErrBareQuote else Inr (f, rest)))"

lemma csv_quoted_length: "csv_quoted acc s = Some (f, rest) \<Longrightarrow> length rest < length s"
  by (induction acc s rule: csv_quoted.induct) (auto split: if_splits list.splits)

lemma csv_field_length: "csv_field s = Inr (f, rest) \<Longrightarrow> length rest \<le> length s"
  by (auto simp: csv_field_def Let_def length_dropWhile_le dest!: csv_quoted_length
      split: if_splits option.splits)

function csv_fields :: "string list \<Rightarrow> string \<Rightarrow> csv_error + string list \<times> string" where
  "csv_fields acc s =
     (case csv_field s of
        Inl e \<Rightarrow> Inl e
      | Inr (f, rest) \<Rightarrow>
          (case rest of
             [] \<Rightarrow> Inr (rev (f # acc), [])
           | c # r \<Rightarrow>
               (if c = COMMA then csv_fields (f # acc) r
                else if c = NL then Inr (rev (f # acc), r)
                else Inl ErrQuote)))"
  by pat_completeness auto
termination
  by (relation "measure (\<lambda>(acc, s). length s)") (auto dest: csv_field_length)

declare csv_fields.simps [simp del]

lemma csv_fields_length:
  "csv_fields acc s = Inr (row, rest) \<Longrightarrow> s \<noteq> [] \<Longrightarrow> length rest < length s"
proof (induction acc s rule: csv_fields.induct)
  case (1 acc s)
  obtain f r0 where f: "csv_field s = Inr (f, r0)"
    using "1.prems"(1) by (subst (asm) csv_fields.simps) (auto split: sum.splits)
  note le = csv_field_length [OF f]
  show ?case
  proof (cases r0)
    case Nil
    with "1.prems" f show ?thesis by (subst (asm) csv_fields.simps) auto
  next
    case (Cons c r)
    with le have lt: "length r < length s" by simp
    show ?thesis
    proof (cases "c = COMMA")
      case True
      then have rec: "csv_fields (f # acc) r = Inr (row, rest)"
        using "1.prems"(1) by (subst (asm) csv_fields.simps) (simp add: f Cons)
      show ?thesis
      proof (cases "r = []")
        case True
        with rec have "rest = []"
          by (subst (asm) csv_fields.simps) (simp add: csv_field_def)
        with "1.prems"(2) show ?thesis by simp
      next
        case False
        from "1.IH" [OF f _ Cons True rec False] lt show ?thesis by simp
      qed
    next
      case False
      with "1.prems"(1) lt show ?thesis
        by (subst (asm) csv_fields.simps) (auto simp: f Cons split: if_splits)
    qed
  qed
qed

text \<open>\<open>want\<close> is \<open>FieldsPerRecord\<close>: 0 until the first record fixes the number of fields.\<close>

function csv_records :: "nat \<Rightarrow> string \<Rightarrow> csv_error + string list list" where
  "csv_records want s =
     (if s = [] then Inr []
      else if hd s = NL then csv_records want (tl s)
      else case csv_fields [] s of
        Inl e \<Rightarrow> Inl e
      | Inr (row, rest) \<Rightarrow>
          (if want \<noteq> 0 \<and> length row \<noteq> want then Inl ErrFieldCount
           else case csv_records (length row) rest of
             Inl e \<Rightarrow> Inl e
           | Inr rows \<Rightarrow> Inr (row # rows)))"
  by pat_completeness auto
termination
  by (relation "measure (\<lambda>(want, s). length s)") (auto dest: csv_fields_length)

declare csv_records.simps [simp del]

definition csv_read_all :: "string \<Rightarrow> csv_error + string list list" where
  "csv_read_all s = csv_records 0 (csv_normalize s)"

subsection \<open>What is written is read back\<close>

lemma csv_quoted_double:
  "rest \<noteq> [] \<longrightarrow> hd rest \<noteq> QT \<Longrightarrow>
   csv_quoted acc (double_quotes f @ QT # rest) = Some (rev acc @ f, rest)"
proof (induction f arbitrary: acc)
  case Nil
  then show ?case by (cases rest) auto
qed auto

lemma takeWhile_append_sep:
  "(\<And>x. x \<in> set xs \<Longrightarrow> P x) \<Longrightarrow> (rest \<noteq> [] \<Longrightarrow> \<not> P (hd rest)) \<Longrightarrow>
   takeWhile P (xs @ rest) = xs \<and> dropWhile P (xs @ rest) = rest"
  by (induction xs) (cases rest; auto)+

lemma csv_field_written:
  assumes "rest \<noteq> []" and "hd rest = COMMA \<or> hd rest = NL"
  shows "csv_field (csv_write_field f @ rest) = Inr (f, rest)"
proof (cases "field_needs_quotes f")
  case True
  then show ?thesis
    using csv_quoted_double [of rest "[]" f] assms
    by (auto simp: csv_field_def csv_write_field_def)
next
  case False
  then have plain: "COMMA \<notin> set f" "QT \<notin> set f" "NL \<notin> set f"
    by (auto simp: field_needs_quotes_def)
  let ?P = "\<lambda>c. c \<noteq> COMMA \<and> c \<noteq> NL"
  have "takeWhile ?P (f @ rest) = f \<and> dropWhile ?P (f @ rest) = rest"
    using plain assms by (intro takeWhile_append_sep) auto
  moreover have "hd (f @ rest) \<noteq> QT" using plain(2) assms by (cases f) auto
  ultimately show ?thesis
    using False plain(2) assms(1) by (simp add: csv_field_def csv_write_field_def Let_def)
qed

lemma csv_fields_written:
  "fs \<noteq> [] \<Longrightarrow> csv_fields acc (csv_write_fields fs @ rest) = Inr (rev acc @ fs, rest)"
proof (induction fs arbitrary: acc rule: csv_write_fields.induct)
  case (2 f)
  then show ?case
    using csv_field_written [of "NL # rest" f] by (subst csv_fields.simps) simp
next
  case (3 f g fs)
  then show ?case
    using csv_field_written [of "COMMA # csv_write_fields (g # fs) @ rest" f]
    by (subst csv_fields.simps) simp
qed simp

text \<open>A row is safe when it does not look like a blank line and has no carriage return.\<close>

definition safe_row :: "string list \<Rightarrow> bool" where
  "safe_row fs \<longleftrightarrow> fs \<noteq> [] \<and> fs \<noteq> [[]] \<and> list_all (\<lambda>f. CR \<notin> set f) fs"

lemma csv_write_field_hd:
  "csv_write_field f = [] \<longleftrightarrow> f = []" "f \<noteq> [] \<Longrightarrow> hd (csv_write_field f) \<noteq> NL"
  by (cases f; auto simp: csv_write_field_def field_needs_quotes_def)+

lemma csv_write_fields_hd:
  assumes "safe_row fs"
  shows "csv_write_fields fs \<noteq> [] \<and> hd (csv_write_fields fs) \<noteq> NL"
proof (cases fs rule: csv_write_fields.cases)
  case 1
  with assms show ?thesis by (simp add: safe_row_def)
next
  case (2 f)
  with assms have "f \<noteq> []" by (simp add: safe_row_def)
  with 2 csv_write_field_hd [of f] show ?thesis by simp
next
  case (3 f g gs)
  with csv_write_field_hd [of f] show ?thesis by (cases "f = []") simp_all
qed

lemma CR_double_quotes: "CR \<in> set (double_quotes f) \<longleftrightarrow> CR \<in> set f"
  by (induction f) auto

lemma CR_csv_row: "safe_row fs \<Longrightarrow> CR \<notin> set (csv_row fs)"
proof (induction fs rule: csv_write_fields.induct)
  case (3 f g fs)
  then show ?case
    by (cases "g # fs = [[]]") (auto simp: safe_row_def csv_write_field_def CR_double_quotes)
qed (auto simp: safe_row_def csv_write_field_def CR_double_quotes)

lemma csv_normalize_id: "CR \<notin> set s \<Longrightarrow> csv_normalize s = s"
  by (induction s rule: csv_normalize.induct) auto

lemma csv_records_written:
  assumes "\<forall>row \<in> set rows. safe_row row \<and> length row = n" and "want = 0 \<or> want = n"
  shows "csv_records want (concat (map csv_row rows)) = Inr rows"
  using assms
proof (induction rows arbitrary: want)
  case Nil
  then show ?case by (simp add: csv_records.simps)
next
  case (Cons row rows)
  then have row: "safe_row row" "length row = n" by simp_all
  then have "row \<noteq> []" by (auto simp: safe_row_def)
  from csv_fields_written [OF this] csv_write_fields_hd [OF row(1)] Cons row
  show ?case by (subst csv_records.simps) auto
qed

lemma csv_read_written:
  assumes "\<forall>row \<in> set rows. safe_row row \<and> length row = n"
  shows "csv_read_all (concat (map csv_row rows)) = Inr rows"
proof -
  have "CR \<notin> set (concat (map csv_row rows))" using assms by (auto dest: CR_csv_row)
  with csv_records_written [OF assms, of 0] show ?thesis
    by (simp add: csv_read_all_def csv_normalize_id)
qed

lemma format_uint_CR: "CR \<notin> set (format_uint v)"
  using digits_no_char [OF dec_digits, of CR] by (simp add: format_uint_def)

lemma format_int_CR: "CR \<notin> set (format_int x)"
  using digits_no_char [OF dec_digits, of CR] by (simp add: format_int_def)

subsection \<open>Contract of a table\<close>

text \<open>A table has a header and turns each item into a row of as many fields; \<open>dec\<close> recovers what
  the table keeps of an item.\<close>

locale csv_table =
  fixes header :: "string list" and row_of :: "'a \<Rightarrow> string list" and good :: "'a \<Rightarrow> bool"
    and dec :: "string list \<Rightarrow> 'b" and view :: "'a \<Rightarrow> 'b"
  assumes header_safe: "safe_row header"
    and row_safe: "good x \<Longrightarrow> safe_row (row_of x) \<and> length (row_of x) = length header"
    and dec_row: "good x \<Longrightarrow> dec (row_of x) = view x"
begin

definition table_text :: "'a list \<Rightarrow> string" where
  "table_text xs = csv_row header @ concat (map (\<lambda>x. csv_row (row_of x)) xs)"

lemma table_text_snoc: "table_text xs @ csv_row (row_of x) = table_text (xs @ [x])"
  by (simp add: table_text_def)

lemma table_text_nonempty: "table_text xs \<noteq> []"
  using csv_write_fields_hd [OF header_safe] by (simp add: table_text_def)

lemma read_table:
  assumes "\<forall>x \<in> set xs. good x"
  shows "csv_read_all (table_text xs) = Inr (header # map row_of xs)"
proof -
  have "\<forall>row \<in> set (header # map row_of xs). safe_row row \<and> length row = length header"
    using assms header_safe row_safe by auto
  from csv_read_written [OF this] show ?thesis by (simp add: table_text_def comp_def)
qed

lemma decode_table:
  assumes "\<forall>x \<in> set xs. good x"
  shows "map dec (map row_of xs) = map view xs"
  using assms dec_row by simp

end

end
