(* ===== verification/LogRecord.thy ===== *)
theory LogRecord
  imports Lines
begin

text \<open>
  The fixed-width log record of \<open>internal/record/record.go\<close>: \<open>Encode\<close> builds
  \<open>"<run-id> <20-digit-sequence> xxx...\n"\<close> in a buffer of the configured size, \<open>Parse\<close> reads
  it back. Shown: the round trip, the exact length and framing of an encoded record, which
  arguments are rejected, and that every line \<open>Parse\<close> accepts has the format, with the
  canonical 20 digits of its sequence number.
\<close>

record rec =
  rec_RunID :: string
  rec_Sequence :: u64

definition copy_bytes :: "string \<Rightarrow> string \<Rightarrow> string" where
  \<comment> \<open>Go's \<open>copy(dst, src)\<close>: as many bytes as fit.\<close>
  "copy_bytes dst src = take (length dst) src @ drop (length src) dst"

definition fill_x :: "string \<Rightarrow> nat \<Rightarrow> string" where
  \<comment> \<open>\<open>for i := from; i < len(b)-1; i++ { b[i] = 'x' }\<close>\<close>
  "fill_x b start = foldl (\<lambda>b i. b[i := CHR ''x'']) b [start ..< length b - 1]"

definition record_prefix :: "string \<Rightarrow> u64 \<Rightarrow> string" where
  "record_prefix runID sequence = runID @ [SP] @ fmt_020d sequence @ [SP]"

definition Encode :: "string \<Rightarrow> u64 \<Rightarrow> int \<Rightarrow> string result" where
  "Encode runID sequence sz =
     (if runID = [] \<or> contains_any runID [SP, TAB, CR, NL]
      then Inl (ErrText ''run ID must be non-empty and contain no whitespace'')
      else
        let prefix = record_prefix runID sequence in
        if sz < int (length prefix) + 1
        then Inl (ErrText (''record size '' @ format_int sz @ '' is smaller than minimum '' @
               format_int (int (length prefix) + 1)))
        else
          let b = replicate (nat sz) (CHR 0x00);
              b = copy_bytes b prefix;
              b = fill_x b (length prefix)
          in Inr (b[length b - 1 := NL]))"

definition Parse :: "string \<Rightarrow> rec result" where
  "Parse line =
     (let line = trim_suffix_char NL line;
          parts = splitN 3 SP line
      in if length parts \<noteq> 3 \<or> parts ! 0 = [] \<or> length (parts ! 1) \<noteq> 20
         then Inl (ErrText ''malformed record'')
         else case parse_uint (parts ! 1) of
                (sequence, None) \<Rightarrow> Inr \<lparr>rec_RunID = parts ! 0, rec_Sequence = sequence\<rparr>
              | (_, Some _) \<Rightarrow> Inl (Wrap ''parse sequence: '' (ErrText (parts ! 1))))"

text \<open>What \<open>Encode\<close> accepts, as a predicate on its arguments.\<close>

definition valid_run_id :: "string \<Rightarrow> bool" where
  "valid_run_id r \<longleftrightarrow> r \<noteq> [] \<and> \<not> contains_any r [SP, TAB, CR, NL]"

fun encodable :: "string \<times> u64 \<times> int \<Rightarrow> bool" where
  "encodable (r, q, n) \<longleftrightarrow> valid_run_id r \<and> int (length r) + 23 \<le> n"

subsection \<open>The encoder in closed form\<close>

lemma length_record_prefix [simp]: "length (record_prefix r q) = length r + 22"
  by (simp add: record_prefix_def)

lemma fill_x_append:
  "fill_x (p @ replicate (Suc k) z) (length p) = p @ replicate k (CHR ''x'') @ [z]"
proof (induction k)
  case 0
  then show ?case by (simp add: fill_x_def)
next
  case (Suc k)
  let ?f = "\<lambda>b i. b[i := CHR ''x'']"
  have app: "foldl ?f (b @ [z]) is = foldl ?f b is @ [z]"
    if "\<forall>i \<in> set is. i < length b" for b "is"
    using that by (induction "is" arbitrary: b) (auto simp: list_update_append)
  let ?b = "p @ replicate (Suc k) z"
  have "fill_x (p @ replicate (Suc (Suc k)) z) (length p) =
      foldl ?f (?b @ [z]) ([length p ..< length p + k] @ [length p + k])"
    by (simp add: fill_x_def replicate_append_same flip: replicate_Suc)
  also have "\<dots> = ?f (foldl ?f ?b [length p ..< length p + k] @ [z]) (length p + k)"
    by (simp only: foldl_append app) (subst app, auto)
  also have "foldl ?f ?b [length p ..< length p + k] = p @ replicate k (CHR ''x'') @ [z]"
    using Suc by (simp add: fill_x_def)
  finally show ?case
    by (simp add: list_update_append replicate_append_same)
qed

lemma encodable_nat: "encodable (r, q, n) \<Longrightarrow> \<exists>k. nat n = length r + 23 + k"
  by (intro exI [of _ "nat n - length r - 23"]) auto

lemma Encode_closed:
  assumes "valid_run_id r" and n: "nat n = length r + 23 + k"
  shows "Encode r q n =
    Inr (record_prefix r q @ replicate k (CHR ''x'') @ [NL])"
proof -
  let ?p = "record_prefix r q" and ?n = "length r + 23 + k"
  have len: "?n = length ?p + Suc k" by simp
  have "copy_bytes (replicate ?n (CHR 0x00)) ?p = ?p @ replicate (Suc k) (CHR 0x00)"
    unfolding len copy_bytes_def by (simp del: replicate_Suc)
  moreover have "fill_x (?p @ replicate (Suc k) (CHR 0x00)) (length ?p) =
      ?p @ replicate k (CHR ''x'') @ [CHR 0x00]"
    by (rule fill_x_append)
  moreover have "\<not> n < int (length ?p) + 1" using n by simp
  ultimately show ?thesis
    using assms by (simp add: Encode_def Let_def valid_run_id_def list_update_append)
qed

lemma Encode_ok_iff: "is_ok (Encode r q n) \<longleftrightarrow> encodable (r, q, n)"
  by (auto simp: Encode_def valid_run_id_def Let_def)

lemma valid_run_id_chars:
  "valid_run_id r \<Longrightarrow> SP \<notin> set r \<and> NL \<notin> set r \<and> CR \<notin> set r \<and> TAB \<notin> set r"
  by (auto simp: valid_run_id_def contains_any_def list_ex_iff)

subsection \<open>The decoder on well-formed lines\<close>

lemma splitN3_fields:
  assumes "SP \<notin> set a" and "SP \<notin> set b"
  shows "splitN 3 SP (a @ SP # b @ SP # c) = [a, b, c]"
proof -
  have 1: "takeWhile (\<lambda>x. x \<noteq> SP) (a @ SP # b @ SP # c) = a"
      "dropWhile (\<lambda>x. x \<noteq> SP) (a @ SP # b @ SP # c) = SP # b @ SP # c"
    using assms(1) by (auto intro!: takeWhile_append_stop dropWhile_append_stop)
  have 2: "takeWhile (\<lambda>x. x \<noteq> SP) (b @ SP # c) = b"
      "dropWhile (\<lambda>x. x \<noteq> SP) (b @ SP # c) = SP # c"
    using assms(2) by (auto intro!: takeWhile_append_stop dropWhile_append_stop)
  show ?thesis by (simp add: numeral_3_eq_3 1 2)
qed

lemma splitN3_length:
  assumes "length (splitN 3 SP s) = 3"
  shows "\<exists>a b c. s = a @ SP # b @ SP # c \<and> SP \<notin> set a \<and> SP \<notin> set b \<and> splitN 3 SP s = [a, b, c]"
proof -
  have split: "\<exists>a t. s = a @ SP # t \<and> SP \<notin> set a" if "SP \<in> set s" for s :: string
    using that by (metis split_list_first)
  have "SP \<in> set s" using assms by (auto simp: numeral_3_eq_3 split: if_splits)
  then obtain a t where s: "s = a @ SP # t" "SP \<notin> set a" using split by blast
  then have "dropWhile (\<lambda>x. x \<noteq> SP) s = SP # t"
    by (auto intro!: dropWhile_append_stop)
  with assms \<open>SP \<in> set s\<close> have "SP \<in> set t"
    by (auto simp: numeral_3_eq_3 split: if_splits)
  then obtain b c where t: "t = b @ SP # c" "SP \<notin> set b" using split by blast
  from s t splitN3_fields [of a b c] show ?thesis by blast
qed

lemma Parse_fields:
  assumes "SP \<notin> set a" and "a \<noteq> []" and "length b = 20" and "SP \<notin> set b"
    and "parse_uint b = (q, None)"
  shows "Parse (a @ SP # b @ SP # c @ [NL]) = Inr \<lparr>rec_RunID = a, rec_Sequence = q\<rparr>"
  using assms splitN3_fields [of a b c] 
  by (simp add: Parse_def trim_suffix_char_def butlast_append Let_def)

lemma Parse_Inr:
  assumes "Parse line = Inr x"
  shows "\<exists>rest. trim_suffix_char NL line =
      record_prefix (rec_RunID x) (rec_Sequence x) @ rest \<and>
    rec_RunID x \<noteq> [] \<and> SP \<notin> set (rec_RunID x)"
proof -
  let ?l = "trim_suffix_char NL line"
  have len: "length (splitN 3 SP ?l) = 3"
    using assms by (auto simp: Parse_def Let_def split: if_splits)
  from splitN3_length [OF this] obtain a b c where
    l: "?l = a @ SP # b @ SP # c" and a: "SP \<notin> set a" and sp: "splitN 3 SP ?l = [a, b, c]"
    by blast
  from assms len sp have b: "a \<noteq> []" "length b = 20"
    by (auto simp: Parse_def Let_def split: if_splits)
  from assms len sp b obtain q where q: "parse_uint b = (q, None)"
    and x: "x = \<lparr>rec_RunID = a, rec_Sequence = q\<rparr>"
    by (auto simp: Parse_def Let_def split: prod.splits option.splits)
  have "b = fmt_020d q"
    using parse_uint_None [OF q] b(2) by (intro digits_val_inj) simp_all
  with l x b(1) a show ?thesis by (simp add: record_prefix_def)
qed

subsection \<open>The record codec as a line codec\<close>

definition record_line :: "string \<times> u64 \<times> int \<Rightarrow> string" where
  "record_line x = (case x of (r, q, n) \<Rightarrow> (case Encode r q n of Inl _ \<Rightarrow> [] | Inr l \<Rightarrow> l))"

definition record_view :: "string \<times> u64 \<times> int \<Rightarrow> rec" where
  "record_view x = (case x of (r, q, n) \<Rightarrow> \<lparr>rec_RunID = r, rec_Sequence = q\<rparr>)"

definition scannable :: "string \<times> u64 \<times> int \<Rightarrow> bool" where
  "scannable x \<longleftrightarrow> encodable x \<and> snd (snd x) \<le> int integrity_token_limit"

lemma record_line_closed:
  assumes "encodable (r, q, n)" and "nat n = length r + 23 + k"
  shows "record_line (r, q, n) =
    r @ SP # fmt_020d q @ SP # replicate k (CHR ''x'') @ [NL]"
  using assms Encode_closed [of r n k q] by (simp add: record_line_def record_prefix_def)

lemma length_record_line: "encodable (r, q, n) \<Longrightarrow> length (record_line (r, q, n)) = nat n"
  using encodable_nat [of r q n] record_line_closed by (auto simp del: encodable.simps)

lemma Encode_record_line:
  "encodable (r, q, n) \<Longrightarrow> Encode r q n = Inr (record_line (r, q, n))"
  using Encode_ok_iff [of r q n] by (auto simp: record_line_def elim!: is_okE)

lemma Parse_record_line: "encodable x \<Longrightarrow> Parse (record_line x) = Inr (record_view x)"
proof -
  assume "encodable x"
  then obtain r q n where x: "x = (r, q, n)" and e: "encodable (r, q, n)" by (cases x) auto
  from encodable_nat [OF e] obtain k where n: "nat n = length r + 23 + k" by blast
  have r: "valid_run_id r" using e by simp
  have "SP \<notin> set (fmt_020d q)" by (simp add: digits_no_char)
  then show ?thesis
    using r valid_run_id_chars [OF r] Parse_fields [of r "fmt_020d q" q "replicate k (CHR ''x'')"]
    by (simp add: x record_line_closed [OF e n] record_view_def valid_run_id_def)
qed

interpretation log_record:
  line_codec scannable record_line Parse record_view integrity_token_limit
proof unfold_locales
  fix x :: "string \<times> u64 \<times> int"
  assume v: "scannable x"
  then obtain r q n where x: "x = (r, q, n)" and e: "encodable (r, q, n)"
    and lim: "n \<le> int integrity_token_limit"
    by (cases x) (auto simp: scannable_def simp del: encodable.simps)
  from encodable_nat [OF e] obtain k where n: "nat n = length r + 23 + k" by blast
  note line = record_line_closed [OF e n]
  have r: "valid_run_id r" using e by simp
  note chars = valid_run_id_chars [OF r]
  have q: "NL \<notin> set (fmt_020d q)" by (simp add: digits_no_char)
  let ?body = "r @ SP # fmt_020d q @ SP # replicate k (CHR ''x'')"
  show "\<exists>body. record_line x = body @ [NL] \<and> NL \<notin> set body \<and>
      (body = [] \<or> last body \<noteq> CR) \<and> length body < integrity_token_limit"
    using chars q n lim
    by (intro exI [of _ ?body]) (auto simp: x line last_replicate)
  show "Parse (record_line x) = Inr (record_view x)" using e by (simp only: x Parse_record_line)
qed

subsection \<open>Properties\<close>

lemma Encode_Inr:
  assumes "Encode r q n = Inr line"
  shows "encodable (r, q, n)" and "line = record_line (r, q, n)"
  using assms Encode_ok_iff [of r q n] by (simp_all add: record_line_def)

text \<open>C19: round trip of the log record: whatever \<open>Encode\<close> builds, \<open>Parse\<close> reads back the run
  ID and the sequence number it was given, for every record size \<open>Encode\<close> accepts.\<close>

theorem encode_parse_roundtrip:
  assumes "Encode r q n = Inr line"
  shows "Parse line = Inr \<lparr>rec_RunID = r, rec_Sequence = q\<rparr>"
  using Encode_Inr [OF assms] Parse_record_line [of "(r, q, n)"] by (simp add: record_view_def)

theorem encode_parse_roundtrip_witness:
  "\<exists>line. Encode ''run-a'' 42 30 = Inr line \<and>
     Parse line = Inr \<lparr>rec_RunID = ''run-a'', rec_Sequence = 42\<rparr>"
proof -
  have "encodable (''run-a'', 42, 30)" by code_simp
  then have "Encode ''run-a'' 42 30 = Inr (record_line (''run-a'', 42, 30))"
    by (rule Encode_record_line)
  with encode_parse_roundtrip [OF this] show ?thesis by blast
qed

text \<open>C31: \<open>Encode\<close> rejects exactly the run IDs that are empty or contain a blank, a tab, a
  carriage return or a newline, and the sizes below run ID + 23 bytes; a record it returns has
  exactly the configured size, ends in a newline and holds no other newline.\<close>

theorem encode_accepts_and_frames:
  "(is_ok (Encode r q n) \<longleftrightarrow>
      r \<noteq> [] \<and> set r \<inter> {SP, TAB, CR, NL} = {} \<and> int (length r) + 23 \<le> n) \<and>
   (\<forall>line. Encode r q n = Inr line \<longrightarrow>
      int (length line) = n \<and> (\<exists>body. line = body @ [NL] \<and> NL \<notin> set body))"
proof (intro conjI allI impI)
  show "is_ok (Encode r q n) \<longleftrightarrow>
      r \<noteq> [] \<and> set r \<inter> {SP, TAB, CR, NL} = {} \<and> int (length r) + 23 \<le> n"
    by (auto simp: Encode_ok_iff valid_run_id_def contains_any_def list_ex_iff)
next
  fix line assume a: "Encode r q n = Inr line"
  note e = Encode_Inr [OF a]
  from e(1) have "0 \<le> n" by simp
  then show "int (length line) = n" using e length_record_line [of r q n] by simp
  from encodable_nat [OF e(1)] obtain k where "nat n = length r + 23 + k" by blast
  note line = record_line_closed [OF e(1) this]
  have "NL \<notin> set r" and "NL \<notin> set (fmt_020d q)"
    using e(1) valid_run_id_chars [of r] by (simp_all add: digits_no_char)
  then show "\<exists>body. line = body @ [NL] \<and> NL \<notin> set body"
    by (intro exI [of _ "r @ SP # fmt_020d q @ SP # replicate k (CHR ''x'')"])
      (auto simp: e(2) line)
qed

theorem encode_accepts_and_frames_witness:
  "is_ok (Encode ''run-a'' 7 28) \<and> \<not> is_ok (Encode ''run a'' 7 28) \<and>
   \<not> is_ok (Encode ''run-a'' 7 27)"
  unfolding encode_accepts_and_frames [THEN conjunct1] by auto

text \<open>\<open>Parse\<close> accepts only lines of the format, and only one spelling of each sequence
  number: an accepted line is the run ID, a blank, the canonical 20 digits of the sequence it
  returns, a blank and the padding. Two accepted lines with the same header bytes agree.\<close>

lemma parse_accepts_format_only:
  assumes "Parse line = Inr x"
  shows "rec_RunID x \<noteq> [] \<and> SP \<notin> set (rec_RunID x) \<and>
    (\<exists>rest. trim_suffix_char NL line =
       rec_RunID x @ [SP] @ fmt_020d (rec_Sequence x) @ [SP] @ rest)"
  using Parse_Inr [OF assms] by (auto simp: record_prefix_def)

end
