(* ===== verification/Files.thy ===== *)
theory Files
  imports Prelude
begin

text \<open>
  The file system the writer and the rotator share: paths name inodes, an open file is its
  inode, so a renamed or unlinked file stays readable and writable through it. Log files are
  opened with \<open>O_APPEND\<close>, so a write goes to the end of the inode whatever its size then is.
  A failing call has no effect. Directories, owners and modes are not modelled.

  \<open>chain\<close> is the sequence of inodes that a list of paths names now, and \<open>chain_bytes\<close> their
  contents one after the other; the lemmas say what each operation does to them.
\<close>

type_synonym ino = nat

record fs =
  dirents :: "(string \<times> ino) list"
  contents :: "ino \<Rightarrow> string"
  next_ino :: ino

definition empty_fs :: fs where
  "empty_fs = \<lparr>dirents = [], contents = (\<lambda>_. []), next_ino = 0\<rparr>"

definition find_ino :: "fs \<Rightarrow> string \<Rightarrow> ino option" where
  "find_ino fs p = map_of (dirents fs) p"

definition fs_append :: "ino \<Rightarrow> string \<Rightarrow> fs \<Rightarrow> fs" where
  "fs_append i s fs = fs\<lparr>contents := (contents fs)(i := contents fs i @ s)\<rparr>"

definition fs_create :: "string \<Rightarrow> fs \<Rightarrow> ino \<times> fs" where
  "fs_create p fs =
     (next_ino fs, fs\<lparr>dirents := (p, next_ino fs) # dirents fs,
        contents := (contents fs)(next_ino fs := []), next_ino := Suc (next_ino fs)\<rparr>)"

text \<open>\<open>os.OpenFile\<close> with \<open>O_CREATE\<close>, with \<open>O_CREATE|O_EXCL\<close> and without \<open>O_CREATE\<close>.\<close>

definition fs_open_create :: "string \<Rightarrow> fs \<Rightarrow> (errno + ino) \<times> fs" where
  "fs_open_create p fs =
     (case find_ino fs p of
        Some i \<Rightarrow> (Inr i, fs)
      | None \<Rightarrow> (case fs_create p fs of (i, fs) \<Rightarrow> (Inr i, fs)))"

definition fs_open_excl :: "string \<Rightarrow> fs \<Rightarrow> (errno + ino) \<times> fs" where
  "fs_open_excl p fs =
     (case find_ino fs p of
        Some i \<Rightarrow> (Inl EEXIST, fs)
      | None \<Rightarrow> (case fs_create p fs of (i, fs) \<Rightarrow> (Inr i, fs)))"

definition fs_open :: "string \<Rightarrow> fs \<Rightarrow> (errno + ino) \<times> fs" where
  "fs_open p fs = (case find_ino fs p of Some i \<Rightarrow> (Inr i, fs) | None \<Rightarrow> (Inl ENOENT, fs))"

definition fs_stat :: "string \<Rightarrow> fs \<Rightarrow> (errno + nat) \<times> fs" where
  "fs_stat p fs =
     (case find_ino fs p of
        Some i \<Rightarrow> (Inr (length (contents fs i)), fs)
      | None \<Rightarrow> (Inl ENOENT, fs))"

definition fs_truncate :: "string \<Rightarrow> fs \<Rightarrow> (errno + unit) \<times> fs" where
  "fs_truncate p fs =
     (case find_ino fs p of
        Some i \<Rightarrow> (Inr (), fs\<lparr>contents := (contents fs)(i := [])\<rparr>)
      | None \<Rightarrow> (Inl ENOENT, fs))"

definition fs_remove :: "string \<Rightarrow> fs \<Rightarrow> (errno + unit) \<times> fs" where
  "fs_remove p fs =
     (case find_ino fs p of
        Some i \<Rightarrow> (Inr (), fs\<lparr>dirents := filter (\<lambda>e. fst e \<noteq> p) (dirents fs)\<rparr>)
      | None \<Rightarrow> (Inl ENOENT, fs))"

text \<open>\<open>rename(2)\<close> replaces an existing target.\<close>

definition fs_rename :: "string \<Rightarrow> string \<Rightarrow> fs \<Rightarrow> (errno + unit) \<times> fs" where
  "fs_rename old new fs =
     (case find_ino fs old of
        Some i \<Rightarrow> (Inr (),
          if old = new then fs
          else fs\<lparr>dirents := (new, i) # filter (\<lambda>e. fst e \<noteq> old \<and> fst e \<noteq> new) (dirents fs)\<rparr>)
      | None \<Rightarrow> (Inl ENOENT, fs))"

subsection \<open>Well-formed directories\<close>

text \<open>Each path occurs once, no two paths name one inode, and inodes not handed out are empty.\<close>

definition fs_wf :: "fs \<Rightarrow> bool" where
  "fs_wf fs \<longleftrightarrow> distinct (map fst (dirents fs)) \<and> distinct (map snd (dirents fs)) \<and>
     (\<forall>e \<in> set (dirents fs). snd e < next_ino fs)"

lemma fs_wf_empty [simp]: "fs_wf empty_fs"
  by (simp add: fs_wf_def empty_fs_def)

lemma find_ino_Some:
  "fs_wf fs \<Longrightarrow> find_ino fs p = Some i \<longleftrightarrow> (p, i) \<in> set (dirents fs)"
  by (auto simp: fs_wf_def find_ino_def)

lemma find_ino_None: "find_ino fs p = None \<longleftrightarrow> p \<notin> fst ` set (dirents fs)"
  by (simp add: find_ino_def map_of_eq_None_iff)

lemma find_ino_less: "fs_wf fs \<Longrightarrow> find_ino fs p = Some i \<Longrightarrow> i < next_ino fs"
  by (auto simp: find_ino_Some fs_wf_def)

lemma find_ino_inj:
  assumes "fs_wf fs" and "find_ino fs p = Some i" and "find_ino fs q = Some i"
  shows "p = q"
  using assms inj_onD [of snd "set (dirents fs)" "(p, i)" "(q, i)"]
  by (simp add: find_ino_Some fs_wf_def distinct_map)

lemma find_ino_create [simp]:
  "find_ino (snd (fs_create p fs)) q = (if q = p then Some (next_ino fs) else find_ino fs q)"
  by (simp add: fs_create_def find_ino_def)

lemma find_ino_append [simp]: "find_ino (fs_append i s fs) q = find_ino fs q"
  by (simp add: fs_append_def find_ino_def)

lemma contents_append [simp]:
  "contents (fs_append i s fs) j = (if j = i then contents fs i @ s else contents fs j)"
  by (simp add: fs_append_def)

lemma contents_create [simp]:
  "contents (snd (fs_create p fs)) j = (if j = next_ino fs then [] else contents fs j)"
  by (simp add: fs_create_def)

lemma map_of_filter_fst: "map_of (filter (\<lambda>e. P (fst e)) xs) q = (if P q then map_of xs q else None)"
  by (induction xs) auto

lemma find_ino_rename:
  "find_ino fs old = Some i \<Longrightarrow> old \<noteq> new \<Longrightarrow>
   find_ino (snd (fs_rename old new fs)) q =
     (if q = new then Some i else if q = old then None else find_ino fs q)"
  using map_of_filter_fst [of "\<lambda>p. p \<noteq> old \<and> p \<noteq> new" "dirents fs" q]
  by (simp add: fs_rename_def find_ino_def)

lemma find_ino_remove:
  "find_ino fs p = Some i \<Longrightarrow>
   find_ino (snd (fs_remove p fs)) q = (if q = p then None else find_ino fs q)"
  using map_of_filter_fst [of "\<lambda>q. q \<noteq> p" "dirents fs" q]
  by (simp add: fs_remove_def find_ino_def)

lemma fs_wf_create: "fs_wf fs \<Longrightarrow> find_ino fs p = None \<Longrightarrow> fs_wf (snd (fs_create p fs))"
  by (auto simp: fs_wf_def fs_create_def find_ino_None image_iff less_SucI dest: bspec)

lemma fs_wf_append [simp]: "fs_wf (fs_append i s fs) = fs_wf fs"
  by (simp add: fs_wf_def fs_append_def)

lemma distinct_map_filterI: "distinct (map f xs) \<Longrightarrow> distinct (map f (filter P xs))"
  by (induction xs) auto

lemma fs_wf_rename:
  assumes "fs_wf fs" and "find_ino fs old = Some i"
  shows "fs_wf (snd (fs_rename old new fs))"
proof (cases "old = new")
  case True
  with assms show ?thesis by (simp add: fs_rename_def)
next
  case False
  have mem: "(old, i) \<in> set (dirents fs)" using assms by (simp add: find_ino_Some)
  have fresh: "i \<notin> snd ` {e \<in> set (dirents fs). fst e \<noteq> old \<and> fst e \<noteq> new}"
  proof
    assume "i \<in> snd ` {e \<in> set (dirents fs). fst e \<noteq> old \<and> fst e \<noteq> new}"
    then obtain q where "(q, i) \<in> set (dirents fs)" "q \<noteq> old" by auto
    then have "find_ino fs q = Some i" using assms(1) by (simp add: find_ino_Some)
    from find_ino_inj [OF assms(1) this assms(2)] \<open>q \<noteq> old\<close> show False by simp
  qed
  with assms False mem show ?thesis
    by (auto simp: fs_wf_def fs_rename_def distinct_map_filterI)
qed

lemma fs_wf_remove: "fs_wf fs \<Longrightarrow> fs_wf (snd (fs_remove p fs))"
  by (auto simp: fs_wf_def fs_remove_def distinct_map_filterI split: option.split)

subsection \<open>The inodes a list of paths names\<close>

definition chain :: "fs \<Rightarrow> string list \<Rightarrow> ino list" where
  "chain fs ps = List.map_filter (find_ino fs) ps"

definition chain_bytes :: "fs \<Rightarrow> string list \<Rightarrow> string" where
  "chain_bytes fs ps = concat (map (contents fs) (chain fs ps))"

lemma chain_simps [simp]:
  "chain fs [] = []"
  "chain fs (p # ps) = (case find_ino fs p of Some i \<Rightarrow> i # chain fs ps | None \<Rightarrow> chain fs ps)"
  by (simp_all add: chain_def List.map_filter_simps split: option.split)

lemma chain_append [simp]: "chain fs (ps @ qs) = chain fs ps @ chain fs qs"
  by (induction ps) (auto split: option.split)

lemma chain_cong:
  "(\<And>p. p \<in> set ps \<Longrightarrow> find_ino fs p = find_ino fs' p) \<Longrightarrow> chain fs ps = chain fs' ps"
  by (induction ps) (auto split: option.split)

lemma set_chain: "set (chain fs ps) = {i. \<exists>p \<in> set ps. find_ino fs p = Some i}"
  by (induction ps) (auto split: option.splits)

lemma distinct_chain:
  assumes "fs_wf fs" and "distinct ps"
  shows "distinct (chain fs ps)"
  using assms(2)
proof (induction ps)
  case (Cons p ps)
  then show ?case
    by (auto simp: set_chain split: option.split dest: find_ino_inj [OF assms(1)])
qed simp

text \<open>What appending to an inode does to the bytes of a chain it is, or is not, part of.\<close>

lemma chain_fs_append [simp]: "chain (fs_append i s fs) ps = chain fs ps"
  by (rule chain_cong) simp

lemma chain_bytes_append_other:
  assumes "i \<notin> set (chain fs ps)"
  shows "chain_bytes (fs_append i s fs) ps = chain_bytes fs ps"
proof -
  have m: "map (contents (fs_append i s fs)) (chain fs ps) = map (contents fs) (chain fs ps)"
    using assms by (auto simp: fs_append_def)
  show ?thesis unfolding chain_bytes_def chain_fs_append m ..
qed

lemma concat_map_upd_last:
  assumes "distinct (xs @ i # ys)" and "\<forall>j \<in> set ys. f j = []"
  shows "concat (map (f(i := f i @ s)) (xs @ i # ys)) = concat (map f (xs @ i # ys)) @ s"
proof -
  have x: "map (f(i := f i @ s)) xs = map f xs" and y: "map (f(i := f i @ s)) ys = map f ys"
    using assms(1) by auto
  have z: "concat (map f ys) = []" using assms(2) by simp
  show ?thesis unfolding map_append concat_append list.map concat.simps x y z by simp
qed

lemma chain_bytes_append:
  assumes "chain fs ps = xs @ i # ys" and "distinct (chain fs ps)"
    and "\<forall>j \<in> set ys. contents fs j = []"
  shows "chain_bytes (fs_append i s fs) ps = chain_bytes fs ps @ s"
  using concat_map_upd_last [of xs i ys "contents fs" s] assms
  unfolding chain_bytes_def chain_fs_append by (simp add: fs_append_def)

end
