(* ===== verification/LogStream.thy ===== *)
theory LogStream
  imports Files
begin

text \<open>
  The contract between a program that appends to a log and whoever renames, copies or truncates
  the log's files (locale \<open>log_appender\<close>). The appender is a machine that makes one system call
  at a time; each step appends to the file it holds, gives that file up, or opens its path anew.
  \<open>pending\<close> are the bytes it has not handed to the file system yet, and \<open>produced w s\<close> says that
  the bytes it has generated so far are \<open>s\<close>; nothing is promised once it is not \<open>sound\<close>
  (a failed call).

  What follows for a list \<open>ps\<close> of log files ending in the appender's path: as long as the open
  file is in it and no file after it has bytes, the bytes of the files in order, after what is
  no longer on disk (\<open>pre\<close>) and before what is pending, are exactly what was generated.
\<close>

definition tail_file :: "fs \<Rightarrow> string list \<Rightarrow> ino \<Rightarrow> bool" where
  "tail_file fs ps i \<longleftrightarrow>
     (\<exists>xs ys. chain fs ps = xs @ i # ys \<and> (\<forall>j \<in> set ys. contents fs j = []))"

definition append_to :: "ino option \<Rightarrow> string \<Rightarrow> fs \<Rightarrow> fs" where
  "append_to f s fs = (case f of None \<Rightarrow> fs | Some i \<Rightarrow> fs_append i s fs)"

locale log_appender =
  fixes step :: "'e \<Rightarrow> 'w \<times> fs \<Rightarrow> 'w \<times> fs"
    and path_of :: "'w \<Rightarrow> string" and file_of :: "'w \<Rightarrow> ino option" and sound :: "'w \<Rightarrow> bool"
    and pending :: "'w \<Rightarrow> string" and produced :: "'w \<Rightarrow> string \<Rightarrow> bool"
  assumes step_path: "step e (w, fs) = (w', fs') \<Longrightarrow> path_of w' = path_of w"
    and step_sound: "step e (w, fs) = (w', fs') \<Longrightarrow> sound w' \<Longrightarrow> sound w"
    and step_effect: "step e (w, fs) = (w', fs') \<Longrightarrow>
      (\<exists>s. fs' = append_to (file_of w) s fs \<and> (file_of w = None \<longrightarrow> s = []) \<and>
         (file_of w' = file_of w \<or> file_of w' = None) \<and>
         (sound w' \<longrightarrow> (\<forall>l. produced w (l @ pending w) \<longrightarrow> produced w' (l @ s @ pending w')))) \<or>
      (\<exists>i. fs_open_create (path_of w) fs = (Inr i, fs') \<and> file_of w' = Some i \<and>
         (sound w' \<longrightarrow> (\<forall>l. produced w (l @ pending w) \<longrightarrow> produced w' (l @ pending w'))))"

subsection \<open>Opening the last path of a chain\<close>

lemma chain_bytes_create:
  assumes "fs_wf fs" and "find_ino fs p = None" and "distinct (qs @ [p])"
  shows "chain (snd (fs_create p fs)) (qs @ [p]) = chain fs (qs @ [p]) @ [next_ino fs]"
    and "chain_bytes (snd (fs_create p fs)) (qs @ [p]) = chain_bytes fs (qs @ [p])"
proof -
  have q: "chain (snd (fs_create p fs)) qs = chain fs qs"
    using assms(3) by (intro chain_cong) auto
  then show c: "chain (snd (fs_create p fs)) (qs @ [p]) = chain fs (qs @ [p]) @ [next_ino fs]"
    by (simp add: assms(2))
  have "next_ino fs \<notin> set (chain fs (qs @ [p]))"
    using find_ino_less [OF assms(1)] by (auto simp: set_chain split: option.splits)
  then have m: "map (contents (snd (fs_create p fs))) (chain fs (qs @ [p])) =
      map (contents fs) (chain fs (qs @ [p]))"
    by (intro map_cong) auto
  show "chain_bytes (snd (fs_create p fs)) (qs @ [p]) = chain_bytes fs (qs @ [p])"
    unfolding chain_bytes_def c map_append [of _ "chain fs (qs @ [p])"] concat_append m by simp
qed

lemma open_create_cases:
  assumes "fs_open_create p fs = (Inr i, fs')"
  obtains "find_ino fs p = Some i" "fs' = fs"
  | "find_ino fs p = None" "fs' = snd (fs_create p fs)" "i = next_ino fs"
proof (cases "find_ino fs p")
  case None
  then have "fs' = snd (fs_create p fs)" "i = next_ino fs"
    using assms by (auto simp: fs_open_create_def fs_create_def)
  with that(2) None show ?thesis by blast
next
  case (Some j)
  then have "fs' = fs" "i = j" using assms by (simp_all add: fs_open_create_def)
  with that(1) Some show ?thesis by blast
qed

lemma open_create_chain:
  assumes "fs_open_create p fs = (Inr i, fs')" and "fs_wf fs" and "distinct (qs @ [p])"
  shows "fs_wf fs'" and "tail_file fs' (qs @ [p]) i"
    and "chain_bytes fs' (qs @ [p]) = chain_bytes fs (qs @ [p])"
proof -
  from assms(1) have "fs_wf fs' \<and> tail_file fs' (qs @ [p]) i \<and>
      chain_bytes fs' (qs @ [p]) = chain_bytes fs (qs @ [p])"
  proof (cases rule: open_create_cases)
    case 1
    then have "chain fs (qs @ [p]) = chain fs qs @ i # []" by simp
    with 1 assms(2) show ?thesis unfolding tail_file_def by fastforce
  next
    case 2
    have "chain fs' (qs @ [p]) = chain fs (qs @ [p]) @ i # []"
      using chain_bytes_create(1) [OF assms(2) 2(1) assms(3)] 2 by simp
    then have "tail_file fs' (qs @ [p]) i" unfolding tail_file_def by fastforce
    with 2 chain_bytes_create(2) [OF assms(2) 2(1) assms(3)] fs_wf_create [OF assms(2) 2(1)]
    show ?thesis by simp
  qed
  then show "fs_wf fs'" "tail_file fs' (qs @ [p]) i"
    "chain_bytes fs' (qs @ [p]) = chain_bytes fs (qs @ [p])" by simp_all
qed

lemma append_tail:
  assumes "tail_file fs ps i" and "fs_wf fs" and "distinct ps"
  shows "tail_file (fs_append i s fs) ps i"
    and "chain_bytes (fs_append i s fs) ps = chain_bytes fs ps @ s"
proof -
  from assms(1) obtain xs ys where c: "chain fs ps = xs @ i # ys" and e: "\<forall>j \<in> set ys. contents fs j = []"
    by (auto simp: tail_file_def)
  have d: "distinct (chain fs ps)" by (rule distinct_chain [OF assms(2,3)])
  then have "i \<notin> set ys" by (simp add: c)
  then have "\<forall>j \<in> set ys. contents (fs_append i s fs) j = []" using e by auto
  with c show "tail_file (fs_append i s fs) ps i"
    unfolding tail_file_def by (intro exI [of _ xs] exI [of _ ys]) simp
  show "chain_bytes (fs_append i s fs) ps = chain_bytes fs ps @ s"
    by (rule chain_bytes_append [OF c d e])
qed

lemma tail_in_chain: "tail_file fs ps i \<Longrightarrow> i \<in> set (chain fs ps)"
  by (auto simp: tail_file_def)

text \<open>What is not one of the log's files is left alone.\<close>

definition others_kept :: "string list \<Rightarrow> fs \<Rightarrow> fs \<Rightarrow> bool" where
  "others_kept ps fs fs' \<longleftrightarrow>
     (\<forall>p. p \<notin> set ps \<longrightarrow> find_ino fs' p = find_ino fs p \<and>
        (\<forall>i. find_ino fs p = Some i \<longrightarrow> contents fs' i = contents fs i))"

lemma others_kept_refl [simp]: "others_kept ps fs fs"
  by (simp add: others_kept_def)

lemma others_kept_trans:
  "others_kept ps fs fs1 \<Longrightarrow> others_kept ps fs1 fs2 \<Longrightarrow> others_kept ps fs fs2"
  by (simp add: others_kept_def)

lemma others_append:
  assumes "fs_wf fs" and "i \<in> set (chain fs ps)"
  shows "others_kept ps fs (fs_append i s fs)"
proof -
  obtain q where q: "q \<in> set ps" "find_ino fs q = Some i" using assms(2) by (auto simp: set_chain)
  have "i \<noteq> j" if "p \<notin> set ps" "find_ino fs p = Some j" for p j
    using find_ino_inj [OF assms(1) q(2)] that q(1) by auto
  then show ?thesis by (auto simp: others_kept_def)
qed

lemma others_create:
  assumes "fs_wf fs" and "p \<in> set ps"
  shows "others_kept ps fs (snd (fs_create p fs))"
  using assms(2) find_ino_less [OF assms(1)] by (auto simp: others_kept_def)

lemma others_kept_mono:
  "others_kept ps fs fs' \<Longrightarrow> set ps \<subseteq> set qs \<Longrightarrow> others_kept qs fs fs'"
  by (auto simp: others_kept_def)

subsection \<open>The log of an appender\<close>

context log_appender
begin

definition log_inv :: "string list \<Rightarrow> string \<Rightarrow> 'w \<Rightarrow> fs \<Rightarrow> bool" where
  "log_inv ps pre w fs \<longleftrightarrow> fs_wf fs \<and> distinct ps \<and> ps \<noteq> [] \<and> last ps = path_of w \<and>
     (\<forall>i. file_of w = Some i \<longrightarrow> tail_file fs ps i) \<and>
     (sound w \<longrightarrow> produced w (pre @ chain_bytes fs ps @ pending w))"

lemma step_keeps:
  assumes "log_inv ps pre w fs" and "step e (w, fs) = (w', fs')"
  shows "log_inv ps pre w' fs'" and "others_kept ps fs fs'"
proof -
  note i = assms(1) [unfolded log_inv_def]
  then obtain qs where ps: "ps = qs @ [path_of w]"
    by (metis append_butlast_last_id)
  have wf: "fs_wf fs" and d: "distinct ps" using i by simp_all
  note path = step_path [OF assms(2)]
  from step_effect [OF assms(2)] consider
    (appends) s where "fs' = append_to (file_of w) s fs" "file_of w = None \<longrightarrow> s = []"
      "file_of w' = file_of w \<or> file_of w' = None"
      "sound w' \<longrightarrow> (\<forall>l. produced w (l @ pending w) \<longrightarrow> produced w' (l @ s @ pending w'))"
  | (opens) j where "fs_open_create (path_of w) fs = (Inr j, fs')" "file_of w' = Some j"
      "sound w' \<longrightarrow> (\<forall>l. produced w (l @ pending w) \<longrightarrow> produced w' (l @ pending w'))"
    by (rule disjE) (elim exE conjE, iprover)+
  then have "log_inv ps pre w' fs' \<and> others_kept ps fs fs'"
  proof cases
    case appends
    note fs' = appends(1) and none = appends(2) and held = appends(3) and prod = appends(4)
    have pr: "produced w' (pre @ chain_bytes fs ps @ s @ pending w')" if "sound w'"
      using i prod step_sound [OF assms(2)] that by (metis append_assoc)
    show ?thesis
    proof (cases "file_of w")
      case None
      with fs' none held have "fs' = fs" "s = []" "file_of w' = None" by (auto simp: append_to_def)
      with i path pr show ?thesis by (simp add: log_inv_def)
    next
      case (Some j)
      then have t: "tail_file fs ps j" using i by blast
      from Some fs' have fs'': "fs' = fs_append j s fs" by (simp add: append_to_def)
      have "sound w' \<longrightarrow> produced w' (pre @ chain_bytes fs' ps @ pending w')"
        using pr append_tail(2) [OF t wf d] fs'' by simp
      with i Some held path append_tail(1) [OF t wf d] others_append [OF wf tail_in_chain [OF t]] fs''
      show ?thesis by (auto simp: log_inv_def)
    qed
  next
    case opens
    note op = opens(1) and held = opens(2) and prod = opens(3)
    have d': "distinct (qs @ [path_of w])" using d ps by simp
    note oc = open_create_chain [OF op wf d', folded ps]
    have "others_kept ps fs fs'"
      using op wf others_create [OF wf, of "path_of w" ps] ps
      by (cases rule: open_create_cases) auto
    moreover have "sound w' \<longrightarrow> produced w' (pre @ chain_bytes fs' ps @ pending w')"
      using i prod step_sound [OF assms(2)] unfolding oc(3) by (metis append_assoc)
    ultimately show ?thesis using i oc(1,2) held path by (simp add: log_inv_def)
  qed
  then show "log_inv ps pre w' fs'" "others_kept ps fs fs'" by simp_all
qed

lemma steps_keep:
  assumes "log_inv ps pre w fs" and "fold step es (w, fs) = (w', fs')"
  shows "log_inv ps pre w' fs' \<and> others_kept ps fs fs'"
  using assms
proof (induction es arbitrary: w fs)
  case (Cons e es)
  obtain w1 fs1 where s: "step e (w, fs) = (w1, fs1)" by fastforce
  with Cons.prems(2) have "fold step es (w1, fs1) = (w', fs')" by simp
  from Cons.IH [OF step_keeps(1) [OF Cons.prems(1) s] this] step_keeps(2) [OF Cons.prems(1) s]
  show ?case using others_kept_trans by blast
qed simp

end

subsection \<open>Appenders of records\<close>

text \<open>An appender whose bytes come in units (records) of one length finishes the unit it is in the
  middle of before it gives a file up. \<open>partial w\<close> are the bytes of that unit already stored.\<close>

locale record_appender = log_appender +
  fixes unit_of :: "'b \<Rightarrow> nat" and partial :: "'b \<Rightarrow> nat" and okay :: "'b \<Rightarrow> bool"
  assumes step_okay: "step e (w, fs) = (w', fs') \<Longrightarrow> okay w \<Longrightarrow> okay w'"
    and step_unit: "step e (w, fs) = (w', fs') \<Longrightarrow> unit_of w' = unit_of w"
    and step_aligned: "step e (w, fs) = (w', fs') \<Longrightarrow> okay w \<Longrightarrow> sound w' \<Longrightarrow>
      (\<exists>s. fs' = append_to (file_of w) s fs \<and> (file_of w = None \<longrightarrow> s = []) \<and>
         (file_of w' = file_of w \<and> partial w' mod unit_of w = (partial w + length s) mod unit_of w \<or>
          file_of w' = None \<and> s = [] \<and> partial w mod unit_of w = 0)) \<or>
      (\<exists>i. fs_open_create (path_of w) fs = (Inr i, fs') \<and> file_of w' = Some i \<and>
         partial w mod unit_of w = 0 \<and> partial w' mod unit_of w = 0)"
begin

definition aligned :: "string list \<Rightarrow> 'b \<Rightarrow> fs \<Rightarrow> bool" where
  "aligned ps w fs \<longleftrightarrow> (\<forall>i \<in> set (chain fs ps). length (contents fs i) mod unit_of w =
     (if file_of w = Some i then partial w mod unit_of w else 0))"

definition record_inv :: "string list \<Rightarrow> string \<Rightarrow> 'b \<Rightarrow> fs \<Rightarrow> bool" where
  "record_inv ps pre w fs \<longleftrightarrow> log_inv ps pre w fs \<and> okay w \<and> (sound w \<longrightarrow> aligned ps w fs)"

lemma aligned_step:
  assumes "log_inv ps pre w fs" and "step e (w, fs) = (w', fs')" and "okay w" and "sound w'"
    and al: "aligned ps w fs"
  shows "aligned ps w' fs'"
proof -
  note u = step_unit [OF assms(2)]
  have ps: "ps = butlast ps @ [path_of w]" and wf: "fs_wf fs" and d: "distinct ps"
    using assms(1) append_butlast_last_id [of ps] by (auto simp: log_inv_def)
  from step_aligned [OF assms(2,3,4)] show ?thesis
  proof (rule disjE)
    assume "\<exists>s. fs' = append_to (file_of w) s fs \<and> (file_of w = None \<longrightarrow> s = []) \<and>
       (file_of w' = file_of w \<and> partial w' mod unit_of w = (partial w + length s) mod unit_of w \<or>
        file_of w' = None \<and> s = [] \<and> partial w mod unit_of w = 0)"
    then obtain s where s: "fs' = append_to (file_of w) s fs" "file_of w = None \<longrightarrow> s = []"
      "file_of w' = file_of w \<and> partial w' mod unit_of w = (partial w + length s) mod unit_of w \<or>
       file_of w' = None \<and> s = [] \<and> partial w mod unit_of w = 0" by iprover
    show ?thesis
    proof (cases "file_of w")
      case None
      with s al u show ?thesis by (auto simp: aligned_def append_to_def)
    next
      case (Some j)
      have "length (contents fs j) mod unit_of w = partial w mod unit_of w" if "j \<in> set (chain fs ps)"
        using al Some that by (auto simp: aligned_def)
      then have "(length (contents fs j) + length s) mod unit_of w = (partial w + length s) mod unit_of w"
        if "j \<in> set (chain fs ps)"
        using that by (metis mod_add_left_eq)
      with s(1,3) Some al u show ?thesis
        by (auto simp: aligned_def append_to_def)
    qed
  next
    assume "\<exists>i. fs_open_create (path_of w) fs = (Inr i, fs') \<and> file_of w' = Some i \<and>
       partial w mod unit_of w = 0 \<and> partial w' mod unit_of w = 0"
    then obtain i where i: "fs_open_create (path_of w) fs = (Inr i, fs')" "file_of w' = Some i"
      "partial w mod unit_of w = 0" "partial w' mod unit_of w = 0" by iprover
    have zero: "length (contents fs j) mod unit_of w = 0" if "j \<in> set (chain fs ps)" for j
      using al i(3) that by (auto simp: aligned_def split: if_splits)
    from i(1) have "\<forall>j \<in> set (chain fs' ps). length (contents fs' j) mod unit_of w = 0"
    proof (cases rule: open_create_cases)
      case 1
      with zero show ?thesis by simp
    next
      case 2
      have "chain fs' ps = chain fs ps @ [next_ino fs]"
        using chain_bytes_create(1) [OF wf 2(1), of "butlast ps"] ps d 2(2) by simp
      with zero 2(2) show ?thesis by auto
    qed
    with i u show ?thesis by (auto simp: aligned_def)
  qed
qed

lemma record_steps_keep:
  assumes "record_inv ps pre w fs" and "fold step es (w, fs) = (w', fs')"
  shows "record_inv ps pre w' fs' \<and> others_kept ps fs fs'"
  using assms
proof (induction es arbitrary: w fs)
  case (Cons e es)
  obtain w1 fs1 where s: "step e (w, fs) = (w1, fs1)" by fastforce
  with Cons.prems(2) have rest: "fold step es (w1, fs1) = (w', fs')" by simp
  note i = Cons.prems(1) [unfolded record_inv_def]
  have "record_inv ps pre w1 fs1"
    using step_keeps(1) [OF _ s] step_okay [OF s] step_sound [OF s] aligned_step [OF _ s] i
    by (auto simp: record_inv_def)
  from Cons.IH [OF this rest] step_keeps(2) [OF _ s] i show ?case
    using others_kept_trans by blast
qed simp

end

end
