(* ===== verification/Writer.thy ===== *)
theory Writer
  imports LogRecord Report LogStream Paths
begin

text \<open>
  \<open>internal/writer/writer.go\<close>: the log writer, as a machine that makes one system call at a
  time, so that another process may act between any two of them. \<open>writer_pc\<close> is where the
  goroutine of \<open>Writer.Run\<close> stands; a \<open>writer_event\<close> is the case its select statement takes,
  the outcome of the system call it is in, or a request to the HTTP handler. An event that does
  not fit the place is ignored: the machine waits there.

  \<open>New\<close>'s configuration check, the three HTTP handlers, the byte credit (with the wrap-around of
  \<open>int64\<close>), the record generator, \<open>flush\<close>, the reopen case and \<open>finish\<close> are modelled in full.
  The clock and the outcome of each system call come with the events. The contents of
  the resident buffer and the JSON text of the state file have no effect on the log and are left out.
\<close>

record WriterConfig =
  wc_RunID :: string
  wc_Path :: string
  wc_ListenAddress :: string
  wc_StatePath :: string
  wc_RecordBytes :: int
  wc_BufferBytes :: int
  wc_BytesPerSecond :: int
  wc_FlushInterval :: int
  wc_ResidentBytes :: int

text \<open>Where \<open>flush\<close> returns to: the select statement, or \<open>finish\<close> with the error it was given.\<close>

datatype flush_return = ToSelect | ToFinish "go_error option"

datatype writer_pc =
    PcMkdir
  | PcOpen
  | PcSelect
  | PcFlush nat flush_return
  | PcReopenClose
  | PcReopenOpen
  | PcClose "go_error option"
  | PcServe "go_error option"
  | PcState "go_error option"
  | PcDone "go_error option"
  | PcPanic

record Writer =
  w_cfg :: WriterConfig
  w_ready :: bool
  w_reopen :: bool
  w_state :: WriterState
  w_file :: "ino option"
  w_buffer :: string
  w_byteCredit :: int
  w_lastGenerate :: int
  w_pc :: writer_pc

text \<open>\<open>WroteBytes n e\<close>: \<open>Write\<close> returned \<open>n\<close> and the error \<open>e\<close>. \<open>SysOk t\<close> is also what
  \<open>time.Now\<close> reads after opening the log.\<close>

datatype writer_event =
    CtxDone
  | GenerateTick int
  | FlushTick
  | ReopenReady
  | SysOk int
  | SysFail errno
  | WroteBytes nat "errno option"
  | ServeEnd "go_error option"
  | PostReopen

subsection \<open>Construction and HTTP handlers\<close>

definition second_ns :: int where "second_ns = 10 ^ 9"

definition default_config :: "WriterConfig \<Rightarrow> WriterConfig" where
  "default_config cfg =
     (let cfg = (if wc_FlushInterval cfg \<le> 0 then cfg\<lparr>wc_FlushInterval := 100 * 10 ^ 6\<rparr> else cfg)
      in if wc_ListenAddress cfg = [] then cfg\<lparr>wc_ListenAddress := ''127.0.0.1:0''\<rparr> else cfg)"

definition valid_writer_config :: "WriterConfig \<Rightarrow> bool" where
  "valid_writer_config cfg \<longleftrightarrow>
     \<not> (wc_RunID cfg = [] \<or> wc_Path cfg = [] \<or> wc_RecordBytes cfg \<le> 0 \<or>
        wc_BufferBytes cfg \<le> 0 \<or> wc_BytesPerSecond cfg \<le> 0)"

definition new_writer :: "go_error option \<Rightarrow> WriterConfig \<Rightarrow> Writer result" where
  "new_writer listen_error cfg =
     (if \<not> valid_writer_config cfg then Inl (ErrText ''invalid writer configuration'')
      else case listen_error of
        Some e \<Rightarrow> Inl e
      | None \<Rightarrow> Inr \<lparr>w_cfg = default_config cfg, w_ready = False, w_reopen = False,
            w_state = zero_WriterState,
            w_file = None, w_buffer = [], w_byteCredit = 0, w_lastGenerate = 0, w_pc = PcMkdir\<rparr>)"

datatype http_method = GET | POST | OtherMethod

text \<open>A response is its status and its body.\<close>

definition handle_healthz :: "nat \<times> string" where
  "handle_healthz = (200, ''ok'' @ [NL])"

definition handle_state :: "Writer \<Rightarrow> nat \<times> WriterState" where
  "handle_state w = (200, w_state w)"

definition handle_reopen :: "http_method \<Rightarrow> Writer \<Rightarrow> (nat \<times> string) \<times> Writer" where
  "handle_reopen meth w =
     (if meth \<noteq> POST then ((405, ''POST required'' @ [NL]), w)
      else if \<not> w_reopen w then ((200, ''queued'' @ [NL]), w\<lparr>w_reopen := True\<rparr>)
      else ((503, ''reopen already queued'' @ [NL]), w))"

text \<open>\<open>WaitReady\<close> may return \<open>r\<close> when the context's error is \<open>ctx_err\<close>; it blocks while no \<open>r\<close> is
  possible.\<close>

definition WaitReady :: "go_error option \<Rightarrow> Writer \<Rightarrow> go_error option \<Rightarrow> bool" where
  "WaitReady ctx_err w r \<longleftrightarrow> ctx_err \<noteq> None \<and> r = ctx_err \<or> w_ready w \<and> r = None"

definition serving :: "writer_pc \<Rightarrow> bool" where
  "serving pc = (case pc of PcMkdir \<Rightarrow> False | PcOpen \<Rightarrow> False | PcState _ \<Rightarrow> False
     | PcDone _ \<Rightarrow> False | PcPanic \<Rightarrow> False | _ \<Rightarrow> True)"

subsection \<open>Generating records\<close>

text \<open>\<open>Time.Sub\<close> saturates.\<close>

definition time_sub :: "int \<Rightarrow> int \<Rightarrow> int" where
  "time_sub t u = max (- (2 ^ 63)) (min (2 ^ 63 - 1) (t - u))"

definition add_credit :: "int \<Rightarrow> Writer \<Rightarrow> Writer" where
  "add_credit now w =
     w\<lparr>w_byteCredit := wrap64 (w_byteCredit w +
          go_div (wrap64 (wc_BytesPerSecond (w_cfg w) * time_sub now (w_lastGenerate w))) second_ns),
       w_lastGenerate := now\<rparr>"

lemma Encode_size: "Encode r q n = Inr b \<Longrightarrow> 0 < n"
  by (auto simp: Encode_def Let_def split: if_splits)

function generate_loop :: "Writer \<Rightarrow> go_error option \<times> Writer" where
  "generate_loop w =
     (if wc_RecordBytes (w_cfg w) \<le> w_byteCredit w then
        (let w1 = w\<lparr>w_state := (w_state w)\<lparr>ws_Generated := ws_Generated (w_state w) + 1\<rparr>\<rparr> in
         case Encode (wc_RunID (w_cfg w)) (ws_Generated (w_state w1)) (wc_RecordBytes (w_cfg w)) of
           Inl e \<Rightarrow> (Some e, w1)
         | Inr encoded \<Rightarrow>
             generate_loop (w1\<lparr>w_buffer := w_buffer w @ encoded,
               w_byteCredit := w_byteCredit w - wc_RecordBytes (w_cfg w)\<rparr>))
      else (None, w))"
  by pat_completeness auto
termination
  by (relation "measure (\<lambda>w. nat (w_byteCredit w))") (auto dest: Encode_size)

declare generate_loop.simps [simp del]

subsection \<open>Flushing and finishing\<close>

text \<open>\<open>flush\<close> called with an empty buffer returns nil at once; otherwise it starts at offset 0.
  \<open>after_flush\<close> is what the caller does with the result: the select loop passes an error to
  \<open>finish\<close>, which flushes again.\<close>

definition begin_flush_finish :: "go_error option \<Rightarrow> Writer \<Rightarrow> Writer" where
  "begin_flush_finish runErr w =
     (if w_buffer w = [] then w\<lparr>w_pc := PcClose runErr\<rparr>
      else w\<lparr>w_pc := PcFlush 0 (ToFinish runErr)\<rparr>)"

definition finish :: "go_error option \<Rightarrow> Writer \<Rightarrow> Writer" where
  "finish runErr w = begin_flush_finish runErr w"

definition first_error :: "go_error option \<Rightarrow> go_error option \<Rightarrow> go_error option" where
  "first_error runErr e = (case runErr of None \<Rightarrow> e | Some _ \<Rightarrow> runErr)"

fun after_flush :: "flush_return \<Rightarrow> go_error option \<Rightarrow> Writer \<Rightarrow> Writer" where
  "after_flush ToSelect None w = w\<lparr>w_pc := PcSelect\<rparr>"
| "after_flush ToSelect (Some e) w = finish (Some e) w"
| "after_flush (ToFinish runErr) flushErr w = w\<lparr>w_pc := PcClose (first_error runErr flushErr)\<rparr>"

definition begin_flush :: "Writer \<Rightarrow> Writer" where
  "begin_flush w =
     (if w_buffer w = [] then after_flush ToSelect None w
      else w\<lparr>w_pc := PcFlush 0 ToSelect\<rparr>)"

definition count_written :: "Writer \<Rightarrow> Writer" where
  "count_written w =
     w\<lparr>w_buffer := [],
       w_state := (w_state w)\<lparr>ws_Written := ws_Written (w_state w) +
          of_int (go_div (int (length (w_buffer w))) (wc_RecordBytes (w_cfg w)))\<rparr>\<rparr>"

text \<open>One \<open>file.Write(data[written:])\<close>. Writing to a file that is closed or nil fails.\<close>

definition write_step ::
  "nat \<Rightarrow> flush_return \<Rightarrow> nat \<Rightarrow> errno option \<Rightarrow> Writer \<times> fs \<Rightarrow> Writer \<times> fs" where
  "write_step written ret n e = (\<lambda>(w, fs).
     case w_file w of
       None \<Rightarrow> (after_flush ret (Some (ErrText ''invalid argument'')) w, fs)
     | Some i \<Rightarrow>
         (let data = drop written (w_buffer w); n = min n (length data);
              fs = fs_append i (take n data) fs; written = written + n
          in case e of
               Some errno \<Rightarrow>
                 (after_flush ret (Some (PathError ''write'' (wc_Path (w_cfg w)) errno)) w, fs)
             | None \<Rightarrow>
                 (if n = 0 then (after_flush ret (Some (ErrText ''zero-byte log write'')) w, fs)
                  else if written < length (w_buffer w) then (w\<lparr>w_pc := PcFlush written ret\<rparr>, fs)
                  else (after_flush ret None (count_written w), fs))))"

definition serve_end :: "go_error option \<Rightarrow> go_error option \<Rightarrow> Writer \<Rightarrow> Writer" where
  "serve_end runErr serveErr w =
     (let runErr = first_error runErr serveErr;
          w = (case runErr of
                 None \<Rightarrow> w
               | Some e \<Rightarrow> w\<lparr>w_state := (w_state w)\<lparr>ws_LastError := error_text e\<rparr>\<rparr>)
      in if wc_StatePath (w_cfg w) = [] then w\<lparr>w_pc := PcDone runErr\<rparr> else w\<lparr>w_pc := PcState runErr\<rparr>)"

subsection \<open>The machine\<close>

definition generate_tick :: "int \<Rightarrow> Writer \<Rightarrow> Writer" where
  "generate_tick now w =
     (case generate_loop (add_credit now w) of
        (Some e, w) \<Rightarrow> finish (Some e) w
      | (None, w) \<Rightarrow>
          if wc_BufferBytes (w_cfg w) \<le> int (length (w_buffer w)) then begin_flush w else w)"

definition reopen_request :: "Writer \<Rightarrow> Writer" where
  "reopen_request w =
     w\<lparr>w_reopen := False, w_pc := PcReopenClose,
       w_state := (w_state w)\<lparr>ws_ReopenRequests := ws_ReopenRequests (w_state w) + 1\<rparr>\<rparr>"

definition reopen_failed :: "go_error \<Rightarrow> Writer \<Rightarrow> Writer" where
  "reopen_failed err w =
     finish (Some (Wrap ''reopen log: '' err))
       (w\<lparr>w_file := None,
          w_state := (w_state w)\<lparr>ws_ReopenFailures := ws_ReopenFailures (w_state w) + 1,
            ws_LastError := error_text err\<rparr>\<rparr>)"

definition open_log :: "Writer \<times> fs \<Rightarrow> Writer \<times> fs" where
  "open_log = (\<lambda>(w, fs). case fs_open_create (wc_Path (w_cfg w)) fs of
     (Inl e, fs) \<Rightarrow> (w, fs)
   | (Inr i, fs) \<Rightarrow> (w\<lparr>w_file := Some i\<rparr>, fs))"

text \<open>After opening the log \<open>Run\<close> allocates the resident buffer, where \<open>make\<close> panics on a negative
  size, then starts the HTTP server, closes \<open>ready\<close> and reads the clock.\<close>

definition resident_panics :: "Writer \<Rightarrow> bool" where
  "resident_panics w \<longleftrightarrow> wc_ResidentBytes (w_cfg w) < 0"

declare resident_panics_def [simp]

definition started :: "int \<Rightarrow> Writer \<Rightarrow> Writer" where
  "started t w =
     (if resident_panics w then w\<lparr>w_pc := PcPanic\<rparr>
      else w\<lparr>w_ready := True, w_lastGenerate := t, w_pc := PcSelect\<rparr>)"

definition select_step :: "writer_event \<Rightarrow> Writer \<Rightarrow> Writer" where
  "select_step ev w =
     (case ev of
        CtxDone \<Rightarrow> finish None w
      | GenerateTick now \<Rightarrow> generate_tick now w
      | FlushTick \<Rightarrow> begin_flush w
      | ReopenReady \<Rightarrow> (if w_reopen w then reopen_request w else w)
      | _ \<Rightarrow> w)"

definition path_error :: "string \<Rightarrow> Writer \<Rightarrow> errno \<Rightarrow> go_error" where
  "path_error op w e = PathError op (wc_Path (w_cfg w)) e"

definition system_step :: "writer_event \<Rightarrow> Writer \<times> fs \<Rightarrow> Writer \<times> fs" where
  "system_step ev = (\<lambda>(w, fs). case (w_pc w, ev) of
     (PcMkdir, SysOk t) \<Rightarrow> (w\<lparr>w_pc := PcOpen\<rparr>, fs)
   | (PcMkdir, SysFail e) \<Rightarrow> (w\<lparr>w_pc := PcDone (Some (path_error ''mkdir'' w e))\<rparr>, fs)
   | (PcOpen, SysOk t) \<Rightarrow>
       (case open_log (w, fs) of (w, fs) \<Rightarrow> (started t w, fs))
   | (PcOpen, SysFail e) \<Rightarrow> (w\<lparr>w_pc := PcDone (Some (path_error ''open'' w e))\<rparr>, fs)
   | (PcSelect, ev) \<Rightarrow> (select_step ev w, fs)
   | (PcFlush written ret, WroteBytes n e) \<Rightarrow> write_step written ret n e (w, fs)
   | (PcReopenClose, SysOk t) \<Rightarrow> (w\<lparr>w_file := None, w_pc := PcReopenOpen\<rparr>, fs)
   | (PcReopenClose, SysFail e) \<Rightarrow>
       (finish (Some (path_error ''close'' w e)) (w\<lparr>w_file := None\<rparr>), fs)
   | (PcReopenOpen, SysOk t) \<Rightarrow>
       (case open_log (w, fs) of (w, fs) \<Rightarrow> (begin_flush w, fs))
   | (PcReopenOpen, SysFail e) \<Rightarrow> (reopen_failed (path_error ''open'' w e) w, fs)
   | (PcClose runErr, SysOk t) \<Rightarrow> (w\<lparr>w_file := None, w_pc := PcServe runErr\<rparr>, fs)
   | (PcClose runErr, SysFail e) \<Rightarrow>
       (w\<lparr>w_file := None,
          w_pc := PcServe (first_error runErr (Some (path_error ''close'' w e)))\<rparr>, fs)
   | (PcServe runErr, ServeEnd serveErr) \<Rightarrow> (serve_end runErr serveErr w, fs)
   | (PcState runErr, SysOk t) \<Rightarrow> (w\<lparr>w_pc := PcDone runErr\<rparr>, fs)
   | (PcState runErr, SysFail e) \<Rightarrow>
       (w\<lparr>w_pc := PcDone (first_error runErr
            (Some (PathError ''write'' (wc_StatePath (w_cfg w)) e)))\<rparr>, fs)
   | _ \<Rightarrow> (w, fs))"

definition writer_step :: "writer_event \<Rightarrow> Writer \<times> fs \<Rightarrow> Writer \<times> fs" where
  "writer_step ev = (\<lambda>(w, fs).
     case ev of
       PostReopen \<Rightarrow> ((if serving (w_pc w) then snd (handle_reopen POST w) else w), fs)
     | _ \<Rightarrow> system_step ev (w, fs))"

definition writer_steps :: "writer_event list \<Rightarrow> Writer \<times> fs \<Rightarrow> Writer \<times> fs" where
  "writer_steps evs s = fold writer_step evs s"

subsection \<open>What the machine does to the log\<close>

fun returns_ok :: "flush_return \<Rightarrow> bool" where
  "returns_ok ToSelect = True"
| "returns_ok (ToFinish runErr) = (runErr = None)"

fun unfailed :: "writer_pc \<Rightarrow> bool" where
  "unfailed (PcFlush n ret) = returns_ok ret"
| "unfailed (PcClose runErr) = (runErr = None)"
| "unfailed (PcServe runErr) = (runErr = None)"
| "unfailed (PcState runErr) = (runErr = None)"
| "unfailed (PcDone runErr) = (runErr = None)"
| "unfailed PcPanic = False"
| "unfailed _ = True"

definition pending_bytes :: "Writer \<Rightarrow> string" where
  "pending_bytes w = (case w_pc w of PcFlush written ret \<Rightarrow> drop written (w_buffer w) | _ \<Rightarrow> w_buffer w)"

fun partial_pc :: "writer_pc \<Rightarrow> nat" where
  "partial_pc (PcFlush written ret) = written"
| "partial_pc _ = 0"

abbreviation partial_bytes :: "Writer \<Rightarrow> nat" where
  "partial_bytes w \<equiv> partial_pc (w_pc w)"

text \<open>The first \<open>g\<close> records of a run, as bytes; \<open>records_from\<close> are the \<open>k\<close> after number \<open>q\<close>.\<close>

definition records_from :: "string \<Rightarrow> int \<Rightarrow> u64 \<Rightarrow> nat \<Rightarrow> string" where
  "records_from r n q k = concat (map (\<lambda>j. record_line (r, q + of_nat (Suc j), n)) [0 ..< k])"

definition record_stream :: "string \<Rightarrow> int \<Rightarrow> nat \<Rightarrow> string" where
  "record_stream r n g = records_from r n 0 g"

abbreviation generated :: "Writer \<Rightarrow> u64" where "generated w \<equiv> ws_Generated (w_state w)"
abbreviation run_id :: "Writer \<Rightarrow> string" where "run_id w \<equiv> wc_RunID (w_cfg w)"
abbreviation record_size :: "Writer \<Rightarrow> int" where "record_size w \<equiv> wc_RecordBytes (w_cfg w)"
abbreviation log_path :: "Writer \<Rightarrow> string" where "log_path w \<equiv> wc_Path (w_cfg w)"

definition writer_produced :: "Writer \<Rightarrow> string \<Rightarrow> bool" where
  "writer_produced w s \<longleftrightarrow>
     (\<exists>g. generated w = of_nat g \<and> s = record_stream (run_id w) (record_size w) g)"

lemma records_from_0 [simp]: "records_from r n q 0 = []"
  by (simp add: records_from_def)

lemma records_from_Suc:
  "records_from r n q (Suc k) = record_line (r, q + 1, n) @ records_from r n (q + 1) k"
proof -
  have "[0 ..< Suc k] = 0 # map Suc [0 ..< k]" by (simp add: upt_conv_Cons map_Suc_upt)
  then show ?thesis
    by (simp add: records_from_def comp_def algebra_simps del: upt_Suc)
qed

lemma records_from_add:
  "records_from r n q (j + k) = records_from r n q j @ records_from r n (q + of_nat j) k"
  by (induction j arbitrary: q) (simp_all add: records_from_Suc algebra_simps)

text \<open>What a step does: \<open>adds w w' k\<close> is the effect of generating \<open>k\<close> records; the other two kinds
  of step hand bytes over to the open file, or open the log.\<close>

definition adds :: "Writer \<Rightarrow> Writer \<Rightarrow> nat \<Rightarrow> bool" where
  "adds w w' k \<longleftrightarrow> generated w' = generated w + of_nat k \<and>
     pending_bytes w' = pending_bytes w @ records_from (run_id w) (record_size w) (generated w) k"

definition same_run :: "Writer \<Rightarrow> Writer \<Rightarrow> bool" where
  "same_run w w' \<longleftrightarrow> w_cfg w' = w_cfg w \<and> (unfailed (w_pc w') \<longrightarrow> unfailed (w_pc w))"

definition stores :: "Writer \<Rightarrow> nat \<Rightarrow> Writer \<Rightarrow> bool" where
  "stores w n w' \<longleftrightarrow> partial_bytes w' = partial_bytes w + n \<or>
     partial_bytes w' = 0 \<and> partial_bytes w + n = length (w_buffer w)"

definition writer_effect :: "Writer \<times> fs \<Rightarrow> Writer \<times> fs \<Rightarrow> bool" where
  "writer_effect = (\<lambda>(w, fs) (w', fs'). same_run w w' \<and>
     ((fs' = fs \<and> (w_file w' = w_file w \<or> w_file w' = None) \<and>
         (unfailed (w_pc w') \<longrightarrow> (\<exists>k. adds w w' k) \<and> partial_bytes w' = partial_bytes w \<and>
            (w_file w' = w_file w \<or> partial_bytes w = 0))) \<or>
      (\<exists>i s. w_file w = Some i \<and> fs' = fs_append i s fs \<and> w_file w' = Some i \<and>
         (unfailed (w_pc w') \<longrightarrow>
            generated w' = generated w \<and> pending_bytes w = s @ pending_bytes w' \<and>
            stores w (length s) w')) \<or>
      (\<exists>i. fs_open_create (log_path w) fs = (Inr i, fs') \<and> w_file w' = Some i \<and>
         (unfailed (w_pc w') \<longrightarrow> adds w w' 0 \<and> partial_bytes w = 0 \<and> partial_bytes w' = 0))))"

lemma adds_0: "adds w w' 0 \<longleftrightarrow> generated w' = generated w \<and> pending_bytes w' = pending_bytes w"
  by (simp add: adds_def)

lemma effect_quiet:
  assumes "w_cfg w' = w_cfg w" and "w_file w' = w_file w \<or> w_file w' = None"
    and "unfailed (w_pc w') \<Longrightarrow> unfailed (w_pc w) \<and> adds w w' k \<and>
      partial_bytes w' = partial_bytes w \<and> (w_file w' = w_file w \<or> partial_bytes w = 0)"
  shows "writer_effect (w, fs) (w', fs)"
  using assms by (auto simp: writer_effect_def same_run_def)

lemma effect_appends:
  assumes "w_file w = Some i" and "w_cfg w' = w_cfg w" and "w_file w' = Some i"
    and "unfailed (w_pc w') \<Longrightarrow> unfailed (w_pc w) \<and> generated w' = generated w \<and>
      pending_bytes w = s @ pending_bytes w' \<and> stores w (length s) w'"
  shows "writer_effect (w, fs) (w', fs_append i s fs)"
  unfolding writer_effect_def same_run_def split_conv using assms
  by (intro conjI disjI2 disjI1 exI [of _ i] exI [of _ s]) simp_all

lemma effect_opens:
  assumes "fs_open_create (log_path w) fs = (Inr i, fs')" and "w_cfg w' = w_cfg w"
    and "w_file w' = Some i" and "unfailed (w_pc w') \<Longrightarrow> unfailed (w_pc w) \<and> adds w w' 0 \<and>
      partial_bytes w = 0 \<and> partial_bytes w' = 0"
  shows "writer_effect (w, fs) (w', fs')"
  unfolding writer_effect_def same_run_def split_conv using assms
  by (intro conjI disjI2 exI [of _ i]) simp_all

lemma adds_produced:
  assumes "adds w w' k" and "w_cfg w' = w_cfg w" and "writer_produced w (l @ pending_bytes w)"
  shows "writer_produced w' (l @ pending_bytes w')"
proof -
  obtain g where g: "generated w = of_nat g"
      "l @ pending_bytes w = record_stream (run_id w) (record_size w) g"
    using assms(3) by (auto simp: writer_produced_def)
  have "l @ pending_bytes w' = record_stream (run_id w) (record_size w) g @
      records_from (run_id w) (record_size w) (of_nat g) k"
    using assms(1) g by (simp add: adds_def flip: g(2))
  then have "l @ pending_bytes w' = record_stream (run_id w) (record_size w) (g + k)"
    using records_from_add [of "run_id w" "record_size w" 0 g k] by (simp add: record_stream_def)
  moreover have "generated w' = of_nat (g + k)" using assms(1) g by (simp add: adds_def)
  ultimately show ?thesis
    using assms(2) unfolding writer_produced_def by (intro exI [of _ "g + k"]) simp
qed

lemma generate_loop_spec:
  "generate_loop w = (r, w') \<Longrightarrow>
   w_cfg w' = w_cfg w \<and> w_file w' = w_file w \<and> w_pc w' = w_pc w \<and> w_reopen w' = w_reopen w \<and>
   (r = None \<longrightarrow> (\<exists>k. generated w' = generated w + of_nat k \<and>
      w_buffer w' = w_buffer w @ records_from (run_id w) (record_size w) (generated w) k))"
proof (induction w arbitrary: r w' rule: generate_loop.induct)
  case (1 w)
  let ?w1 = "w\<lparr>w_state := (w_state w)\<lparr>ws_Generated := generated w + 1\<rparr>\<rparr>"
  show ?case
  proof (cases "record_size w \<le> w_byteCredit w")
    case False
    with "1.prems" have "r = None" "w' = w" by (subst (asm) generate_loop.simps, simp)+
    then show ?thesis by (auto intro: exI [of _ 0])
  next
    case True
    show ?thesis
    proof (cases "Encode (run_id w) (generated ?w1) (record_size w)")
      case (Inl e)
      with True "1.prems" have "r = Some e" "w' = ?w1"
        by (subst (asm) generate_loop.simps, simp)+
      then show ?thesis by simp
    next
      case (Inr b)
      let ?w2 = "?w1\<lparr>w_buffer := w_buffer w @ b, w_byteCredit := w_byteCredit w - record_size w\<rparr>"
      have rec: "generate_loop ?w2 = (r, w')"
        using True Inr "1.prems" by (subst (asm) generate_loop.simps) simp
      have b: "b = record_line (run_id w, generated w + 1, record_size w)"
        using Encode_Inr(2) [OF Inr] by simp
      from "1.IH" [OF True refl Inr rec] obtain k where
        ih: "w_cfg w' = w_cfg w \<and> w_file w' = w_file w \<and> w_pc w' = w_pc w \<and> w_reopen w' = w_reopen w"
          "r = None \<longrightarrow> generated w' = generated w + 1 + of_nat k \<and>
             w_buffer w' = w_buffer w @ b @ records_from (run_id w) (record_size w) (generated w + 1) k"
        by auto
      then have "r = None \<longrightarrow> generated w' = generated w + of_nat (Suc k) \<and>
          w_buffer w' = w_buffer w @ records_from (run_id w) (record_size w) (generated w) (Suc k)"
        by (simp add: records_from_Suc b algebra_simps)
      with ih(1) show ?thesis by blast
    qed
  qed
qed

lemma finish_fields [simp]:
  "w_cfg (finish e w) = w_cfg w" "w_file (finish e w) = w_file w" "w_state (finish e w) = w_state w"
  "w_reopen (finish e w) = w_reopen w" "unfailed (w_pc (finish e w)) \<longleftrightarrow> e = None"
  "pending_bytes (finish e w) = w_buffer w" "partial_bytes (finish e w) = 0"
  by (simp_all add: finish_def begin_flush_finish_def pending_bytes_def)

lemma begin_flush_fields [simp]:
  "w_cfg (begin_flush w) = w_cfg w" "w_file (begin_flush w) = w_file w"
  "w_state (begin_flush w) = w_state w" "w_reopen (begin_flush w) = w_reopen w"
  "unfailed (w_pc (begin_flush w))" "pending_bytes (begin_flush w) = w_buffer w"
  "partial_bytes (begin_flush w) = 0"
  by (simp_all add: begin_flush_def pending_bytes_def)

lemma after_flush_fields [simp]:
  "w_cfg (after_flush ret e w) = w_cfg w" "w_file (after_flush ret e w) = w_file w"
  "w_state (after_flush ret e w) = w_state w" "w_reopen (after_flush ret e w) = w_reopen w"
  "w_buffer (after_flush ret e w) = w_buffer w"
  by (cases "(ret, e, w)" rule: after_flush.cases;
      simp add: finish_def begin_flush_finish_def)+

lemma after_flush_pending [simp]: "pending_bytes (after_flush ret e w) = w_buffer w"
  by (cases "(ret, e, w)" rule: after_flush.cases) (simp_all add: pending_bytes_def [of "w\<lparr>w_pc := _\<rparr>"])

lemma after_flush_partial [simp]: "partial_bytes (after_flush ret e w) = 0"
  by (cases "(ret, e, w)" rule: after_flush.cases) simp_all

lemma after_flush_unfailed [simp]:
  "unfailed (w_pc (after_flush ret e w)) \<longleftrightarrow> returns_ok ret \<and> e = None"
  by (cases "(ret, e, w)" rule: after_flush.cases) (auto simp: first_error_def split: option.splits)

lemma select_effect:
  assumes "w_pc w = PcSelect"
  shows "writer_effect (w, fs) (select_step ev w, fs)"
proof -
  have pend: "pending_bytes w = w_buffer w" using assms by (simp add: pending_bytes_def)
  have part: "partial_bytes w = 0" using assms by simp
  have none: "writer_effect (w, fs) (w', fs)"
    if "w_cfg w' = w_cfg w" "w_file w' = w_file w" "generated w' = generated w"
      "pending_bytes w' = w_buffer w" "partial_bytes w' = 0" for w'
    using that assms by (intro effect_quiet [where k = 0]) (simp_all add: adds_0 pend part)
  show ?thesis
  proof (cases ev)
    case (GenerateTick t)
    obtain r w1 where g: "generate_loop (add_credit t w) = (r, w1)" by fastforce
    note spec = generate_loop_spec [OF g]
    have base: "w_cfg w1 = w_cfg w" "w_file w1 = w_file w" "w_pc w1 = PcSelect"
      using spec assms by (simp_all add: add_credit_def)
    show ?thesis
    proof (cases r)
      case (Some e)
      with GenerateTick g base show ?thesis
        by (intro effect_quiet [where k = 0])
          (simp_all add: select_step_def generate_tick_def)
    next
      case None
      with spec obtain k where k: "generated w1 = generated w + of_nat k"
          "w_buffer w1 = w_buffer w @ records_from (run_id w) (record_size w) (generated w) k"
        by (auto simp: add_credit_def)
      have "pending_bytes w1 = w_buffer w1" using base by (simp add: pending_bytes_def)
      with None GenerateTick g base k assms show ?thesis
        by (intro effect_quiet [where k = k])
          (auto simp: select_step_def generate_tick_def adds_def pend)
    qed
  next
    case ReopenReady
    then show ?thesis
      using pend part by (cases "w_reopen w")
        (auto intro!: none simp: select_step_def reopen_request_def pending_bytes_def)
  qed (auto intro!: none simp: select_step_def pend part)
qed

lemma write_effect:
  assumes "w_pc w = PcFlush written ret"
  shows "writer_effect (w, fs) (write_step written ret n e (w, fs))"
proof (cases "w_file w")
  case None
  then show ?thesis
    by (auto simp: write_step_def writer_effect_def same_run_def)
next
  case (Some i)
  let ?data = "drop written (w_buffer w)"
  let ?n = "min n (length ?data)"
  have pend: "pending_bytes w = ?data" using assms by (simp add: pending_bytes_def)
  have app: "writer_effect (w, fs) (w', fs_append i (take ?n ?data) fs)"
    if "w_cfg w' = w_cfg w" "w_file w' = Some i"
      "unfailed (w_pc w') \<Longrightarrow> unfailed (w_pc w) \<and> generated w' = generated w \<and>
         pending_bytes w' = drop (written + ?n) (w_buffer w) \<and> stores w ?n w'" for w'
  proof (rule effect_appends [OF Some that(1,2)])
    have "drop (written + ?n) (w_buffer w) = drop ?n ?data" by (simp add: add.commute)
    moreover have "?data = take ?n ?data @ drop ?n ?data" by (rule append_take_drop_id [symmetric])
    moreover have "length (take ?n ?data) = ?n" by simp
    ultimately show "unfailed (w_pc w) \<and> generated w' = generated w \<and>
        pending_bytes w = take ?n ?data @ pending_bytes w' \<and> stores w (length (take ?n ?data)) w'"
      if "unfailed (w_pc w')"
      using that \<open>unfailed (w_pc w') \<Longrightarrow> _\<close> by (simp only: pend)
  qed
  show ?thesis
  proof (cases e)
    case (Some errno)
    with \<open>w_file w = Some i\<close> show ?thesis
      by (auto simp: write_step_def Let_def intro!: effect_appends)
  next
    case None
    consider "?n = 0" | "0 < ?n" "written + ?n < length (w_buffer w)"
      | "0 < ?n" "length (w_buffer w) \<le> written + ?n" by linarith
    then show ?thesis
    proof cases
      case 1
      with None Some show ?thesis
        by (auto simp: write_step_def Let_def intro!: effect_appends)
    next
      case 2
      have "writer_effect (w, fs)
          (w\<lparr>w_pc := PcFlush (written + ?n) ret\<rparr>, fs_append i (take ?n ?data) fs)"
        using Some assms by (intro app) (simp_all add: pending_bytes_def stores_def)
      with 2 None Some show ?thesis
        by (simp add: write_step_def Let_def min_def split: if_splits)
    next
      case 3
      then have n: "?n = length ?data" and "written < length (w_buffer w)"
        by (auto simp: min_def split: if_splits)
      then have "writer_effect (w, fs)
          (after_flush ret None (count_written w), fs_append i (take ?n ?data) fs)"
        using Some assms by (intro app) (simp_all add: count_written_def stores_def)
      with 3 n None Some show ?thesis by (auto simp: write_step_def Let_def)
    qed
  qed
qed

lemma quiet_pc:
  assumes "w_cfg w' = w_cfg w" and "w_file w' = w_file w \<or> w_file w' = None"
    and "unfailed (w_pc w') \<Longrightarrow> unfailed (w_pc w) \<and> generated w' = generated w \<and>
      pending_bytes w' = pending_bytes w \<and> partial_bytes w' = partial_bytes w \<and>
      (w_file w' = w_file w \<or> partial_bytes w = 0)"
  shows "writer_effect (w, fs) (w', fs)"
  using assms by (intro effect_quiet [where k = 0]) (simp_all add: adds_0)

lemma fs_open_create_Inr: "\<exists>i fs'. fs_open_create p fs = (Inr i, fs')"
  by (cases "find_ino fs p") (auto simp: fs_open_create_def fs_create_def)

lemma started_fields [simp]:
  "w_cfg (started t w) = w_cfg w" "w_file (started t w) = w_file w" "w_state (started t w) = w_state w"
  "w_buffer (started t w) = w_buffer w" "w_reopen (started t w) = w_reopen w"
  "unfailed (w_pc (started t w)) \<longleftrightarrow> 0 \<le> wc_ResidentBytes (w_cfg w)"
  "pending_bytes (started t w) = w_buffer w" "partial_bytes (started t w) = 0"
  by (simp_all add: started_def pending_bytes_def)

lemma open_effect:
  assumes "w_pc w = PcOpen \<or> w_pc w = PcReopenOpen"
  shows "writer_effect (w, fs) (system_step (SysOk t) (w, fs))"
proof -
  obtain i fs' where op: "fs_open_create (log_path w) fs = (Inr i, fs')"
    using fs_open_create_Inr by blast
  from assms show ?thesis
  proof
    assume "w_pc w = PcOpen"
    with op show ?thesis
      by (auto simp: system_step_def open_log_def adds_0 pending_bytes_def [of w] intro!: effect_opens)
  next
    assume "w_pc w = PcReopenOpen"
    with op show ?thesis
      by (auto simp: system_step_def open_log_def adds_0 pending_bytes_def [of w] intro!: effect_opens)
  qed
qed

lemma serve_end_fields [simp]:
  "w_cfg (serve_end r e w) = w_cfg w" "w_file (serve_end r e w) = w_file w"
  "generated (serve_end r e w) = generated w" "w_buffer (serve_end r e w) = w_buffer w"
  "unfailed (w_pc (serve_end r e w)) \<longleftrightarrow> r = None \<and> e = None"
  "pending_bytes (serve_end r e w) = w_buffer w" "partial_bytes (serve_end r e w) = 0"
  by (auto simp: serve_end_def Let_def first_error_def pending_bytes_def split: option.split)

lemma reopen_failed_fields [simp]:
  "w_cfg (reopen_failed e w) = w_cfg w" "w_file (reopen_failed e w) = None"
  "\<not> unfailed (w_pc (reopen_failed e w))"
  by (simp_all add: reopen_failed_def)

lemma first_error_None [simp]: "first_error r e = None \<longleftrightarrow> r = None \<and> e = None"
  by (auto simp: first_error_def split: option.split)

lemma system_effect: "writer_effect (w, fs) (system_step ev (w, fs))"
proof (cases "w_pc w")
  case PcSelect
  then show ?thesis using select_effect [OF PcSelect] by (simp add: system_step_def)
next
  case (PcFlush written ret)
  then show ?thesis
    using write_effect [OF PcFlush]
    by (cases ev) (auto simp: system_step_def intro: quiet_pc)
next
  case PcOpen
  then show ?thesis
    using open_effect [of w fs] by (cases ev) (auto simp: system_step_def intro!: quiet_pc)
next
  case PcReopenOpen
  then show ?thesis
    using open_effect [of w fs] by (cases ev) (auto simp: system_step_def intro!: quiet_pc)
next
  case PcMkdir
  then show ?thesis
    by (cases ev) (auto simp: system_step_def pending_bytes_def intro!: quiet_pc)
next
  case PcReopenClose
  then show ?thesis
    by (cases ev) (auto simp: system_step_def pending_bytes_def intro!: quiet_pc)
next
  case (PcClose r)
  then show ?thesis
    by (cases ev) (auto simp: system_step_def pending_bytes_def intro!: quiet_pc)
next
  case (PcServe r)
  then have "pending_bytes w = w_buffer w" by (simp add: pending_bytes_def)
  with PcServe show ?thesis by (cases ev) (auto simp: system_step_def intro!: quiet_pc)
next
  case (PcState r)
  then show ?thesis
    by (cases ev) (auto simp: system_step_def pending_bytes_def intro!: quiet_pc)
next
  case (PcDone r)
  then show ?thesis
    by (cases ev) (auto simp: system_step_def pending_bytes_def intro!: quiet_pc)
next
  case PcPanic
  then show ?thesis by (cases ev) (auto simp: system_step_def intro!: quiet_pc)
qed

lemma pending_bytes_reopen [simp]: "pending_bytes (w\<lparr>w_reopen := b\<rparr>) = pending_bytes w"
  by (cases "w_pc w") (simp_all add: pending_bytes_def)

lemma writer_step_effect: "writer_effect (w, fs) (writer_step ev (w, fs))"
proof (cases "ev = PostReopen")
  case True
  then show ?thesis
    by (auto simp: writer_step_def handle_reopen_def intro!: quiet_pc)
next
  case False
  then have "writer_step ev (w, fs) = system_step ev (w, fs)"
    by (cases ev) (simp_all add: writer_step_def)
  then show ?thesis using system_effect by simp
qed

lemma writer_log_appender:
  "log_appender writer_step log_path w_file (\<lambda>w. unfailed (w_pc w)) pending_bytes writer_produced"
proof unfold_locales
  fix ev w fs w' fs'
  assume "writer_step ev (w, fs) = (w', fs')"
  then have eff: "writer_effect (w, fs) (w', fs')" using writer_step_effect [of w fs ev] by simp
  then have run: "w_cfg w' = w_cfg w" "unfailed (w_pc w') \<Longrightarrow> unfailed (w_pc w)"
    by (simp_all add: writer_effect_def same_run_def)
  then show "log_path w' = log_path w" "unfailed (w_pc w') \<Longrightarrow> unfailed (w_pc w)" by simp_all
  from eff consider
      (quiet) "fs' = fs" "w_file w' = w_file w \<or> w_file w' = None"
        "unfailed (w_pc w') \<longrightarrow> (\<exists>k. adds w w' k)"
    | (app) i s where "w_file w = Some i" "fs' = fs_append i s fs" "w_file w' = Some i"
        "unfailed (w_pc w') \<longrightarrow> generated w' = generated w \<and> pending_bytes w = s @ pending_bytes w'"
    | (opn) i where "fs_open_create (log_path w) fs = (Inr i, fs')" "w_file w' = Some i"
        "unfailed (w_pc w') \<longrightarrow> adds w w' 0"
    by (auto simp: writer_effect_def)
  then show "(\<exists>s. fs' = append_to (w_file w) s fs \<and> (w_file w = None \<longrightarrow> s = []) \<and>
        (w_file w' = w_file w \<or> w_file w' = None) \<and>
        (unfailed (w_pc w') \<longrightarrow> (\<forall>l. writer_produced w (l @ pending_bytes w) \<longrightarrow>
           writer_produced w' (l @ s @ pending_bytes w')))) \<or>
      (\<exists>i. fs_open_create (log_path w) fs = (Inr i, fs') \<and> w_file w' = Some i \<and>
        (unfailed (w_pc w') \<longrightarrow> (\<forall>l. writer_produced w (l @ pending_bytes w) \<longrightarrow>
           writer_produced w' (l @ pending_bytes w'))))"
  proof cases
    case quiet
    then have "fs' = append_to (w_file w) [] fs"
      by (auto simp: append_to_def fs_append_def split: option.split)
    with quiet adds_produced [OF _ run(1)] show ?thesis by (intro disjI1 exI [of _ "[]"]) auto
  next
    case app
    have "writer_produced w' (l @ s @ pending_bytes w')"
      if "unfailed (w_pc w')" "writer_produced w (l @ pending_bytes w)" for l
      using app(4) that run(1) by (simp add: writer_produced_def)
    with app show ?thesis by (intro disjI1 exI [of _ s]) (simp add: append_to_def)
  next
    case opn
    with adds_produced [OF _ run(1)] show ?thesis by blast
  qed
qed

subsection \<open>Counting records\<close>

text \<open>The buffer holds whole records, as many as were generated and not counted as written; once
  \<open>finish\<close> has flushed without error it is empty.\<close>

definition balanced :: "Writer \<Rightarrow> bool" where
  "balanced w \<longleftrightarrow> 0 < record_size w \<and> (\<exists>m. length (w_buffer w) = m * nat (record_size w) \<and>
     generated w = ws_Written (w_state w) + of_nat m)"

fun flushed :: "writer_pc \<Rightarrow> bool" where
  "flushed (PcClose runErr) = (runErr = None)"
| "flushed (PcServe runErr) = (runErr = None)"
| "flushed (PcState runErr) = (runErr = None)"
| "flushed (PcDone runErr) = (runErr = None)"
| "flushed _ = False"

definition writer_inv :: "Writer \<Rightarrow> bool" where
  "writer_inv w \<longleftrightarrow> (unfailed (w_pc w) \<longrightarrow> balanced w) \<and> (flushed (w_pc w) \<longrightarrow> w_buffer w = [])"

lemma flushed_unfailed: "flushed pc \<Longrightarrow> unfailed pc"
  by (cases pc) auto

lemma balanced_cong:
  "w_buffer w' = w_buffer w \<Longrightarrow> w_cfg w' = w_cfg w \<Longrightarrow> generated w' = generated w \<Longrightarrow>
   ws_Written (w_state w') = ws_Written (w_state w) \<Longrightarrow> balanced w' = balanced w"
  by (simp add: balanced_def)

lemma balanced_generate:
  "generate_loop w = (None, w') \<Longrightarrow> balanced w \<Longrightarrow> balanced w'"
proof (induction w arbitrary: w' rule: generate_loop.induct)
  case (1 w)
  let ?w1 = "w\<lparr>w_state := (w_state w)\<lparr>ws_Generated := generated w + 1\<rparr>\<rparr>"
  show ?case
  proof (cases "record_size w \<le> w_byteCredit w")
    case False
    with "1.prems" show ?thesis by (subst (asm) generate_loop.simps) simp
  next
    case True
    show ?thesis
    proof (cases "Encode (run_id w) (generated ?w1) (record_size w)")
      case (Inl e)
      with True "1.prems"(1) show ?thesis by (subst (asm) generate_loop.simps) simp
    next
      case (Inr b)
      let ?w2 = "?w1\<lparr>w_buffer := w_buffer w @ b, w_byteCredit := w_byteCredit w - record_size w\<rparr>"
      have rec: "generate_loop ?w2 = (None, w')"
        using True Inr "1.prems"(1) by (subst (asm) generate_loop.simps) simp
      obtain m where m: "length (w_buffer w) = m * nat (record_size w)"
          "generated w = ws_Written (w_state w) + of_nat m"
        using "1.prems"(2) by (auto simp: balanced_def)
      have "length b = nat (record_size w)"
        using Encode_Inr [OF Inr] length_record_line by simp
      then have "balanced ?w2"
        unfolding balanced_def using m "1.prems"(2)
        by (intro conjI exI [of _ "Suc m"]) (simp_all add: balanced_def)
      from "1.IH" [OF True refl Inr rec] this show ?thesis by simp
    qed
  qed
qed

lemma balanced_count_written:
  assumes "balanced w"
  shows "balanced (count_written w)"
proof -
  obtain m where m: "length (w_buffer w) = m * nat (record_size w)"
      "generated w = ws_Written (w_state w) + of_nat m" and pos: "0 < record_size w"
    using assms by (auto simp: balanced_def)
  have "go_div (int (m * nat (record_size w))) (record_size w) = int m"
    using pos by (subst go_div_nonneg) simp_all
  then have "generated w = ws_Written (w_state (count_written w)) + of_nat 0"
    using m by (simp add: count_written_def del: of_nat_mult)
  then show ?thesis
    using pos unfolding balanced_def by (intro conjI exI [of _ 0]) (simp_all add: count_written_def)
qed

lemma writer_inv_finish_error: "writer_inv (finish (Some e) w)"
  by (auto simp: writer_inv_def finish_def begin_flush_finish_def)

lemma writer_inv_select:
  assumes "w_pc w = PcSelect" and "writer_inv w"
  shows "writer_inv (select_step ev w)"
proof -
  have bal: "balanced w" using assms by (simp add: writer_inv_def)
  have flush: "writer_inv (begin_flush w1)" if "balanced w1" for w1
    using that by (auto simp: writer_inv_def begin_flush_def intro: balanced_cong [THEN iffD1])
  show ?thesis
  proof (cases ev)
    case (GenerateTick t)
    obtain r w1 where g: "generate_loop (add_credit t w) = (r, w1)" by fastforce
    have "w_pc w1 = PcSelect" using generate_loop_spec [OF g] assms(1) by (simp add: add_credit_def)
    moreover have "balanced (add_credit t w)" using bal by (simp add: balanced_def add_credit_def)
    ultimately show ?thesis
      using GenerateTick g balanced_generate flush
      by (cases r) (auto simp: select_step_def generate_tick_def writer_inv_finish_error
          writer_inv_def [of w1])
  next
    case CtxDone
    have "balanced (finish None w)"
      using bal by (rule balanced_cong [THEN iffD2, rotated -1])
        (simp_all add: finish_def begin_flush_finish_def)
    with CtxDone show ?thesis
      by (auto simp: select_step_def writer_inv_def finish_def begin_flush_finish_def)
  next
    case FlushTick
    with flush [OF bal] show ?thesis by (simp add: select_step_def)
  next
    case ReopenReady
    with assms(2) bal show ?thesis
      by (auto simp: select_step_def reopen_request_def writer_inv_def balanced_def)
  qed (use assms(2) in \<open>simp_all add: select_step_def\<close>)
qed

lemma writer_inv_after_flush_error:
  "writer_inv (after_flush ret (Some e) w)"
  by (auto simp: writer_inv_def dest: flushed_unfailed)

lemma writer_inv_write:
  assumes "w_pc w = PcFlush written ret" and "writer_inv w"
  shows "writer_inv (fst (write_step written ret n e (w, fs)))"
proof -
  have "writer_inv (after_flush ret None (count_written w))"
  proof (cases "returns_ok ret")
    case True
    then have "balanced (count_written w)"
      using assms balanced_count_written by (simp add: writer_inv_def)
    then have "balanced (after_flush ret None (count_written w))"
      by (rule balanced_cong [THEN iffD2, rotated -1]) simp_all
    then show ?thesis by (simp add: writer_inv_def count_written_def)
  next
    case False
    then show ?thesis by (auto simp: writer_inv_def dest: flushed_unfailed)
  qed
  moreover have "writer_inv (w\<lparr>w_pc := PcFlush k ret\<rparr>)" for k
    using assms by (auto simp: writer_inv_def balanced_def)
  ultimately show ?thesis
    by (cases "w_file w"; cases e)
      (auto simp: write_step_def Let_def writer_inv_after_flush_error)
qed

lemma writer_inv_cong:
  assumes "writer_inv w" and "w_buffer w' = w_buffer w" and "w_cfg w' = w_cfg w"
    and "generated w' = generated w" and "ws_Written (w_state w') = ws_Written (w_state w)"
    and "unfailed (w_pc w') \<Longrightarrow> unfailed (w_pc w)"
    and "flushed (w_pc w') \<Longrightarrow> flushed (w_pc w) \<or> w_buffer w = []"
  shows "writer_inv w'"
  using assms balanced_cong [of w' w] by (auto simp: writer_inv_def)

lemma writer_inv_error: "\<not> unfailed (w_pc w) \<Longrightarrow> writer_inv w"
  by (auto simp: writer_inv_def dest: flushed_unfailed)

lemma begin_flush_written [simp]: "w_buffer (begin_flush w) = w_buffer w"
  by (simp add: begin_flush_def)

lemma writer_inv_reopened:
  assumes "balanced w"
  shows "writer_inv (begin_flush w)"
  using assms balanced_cong [of "begin_flush w" w]
  by (auto simp: writer_inv_def begin_flush_def)

lemma writer_inv_serve_end:
  assumes "writer_inv w" and "w_pc w = PcServe r"
  shows "writer_inv (serve_end r e w)"
proof (rule writer_inv_cong [OF assms(1)])
  show "ws_Written (w_state (serve_end r e w)) = ws_Written (w_state w)"
    by (simp add: serve_end_def Let_def split: option.split)
  show "flushed (w_pc (serve_end r e w)) \<Longrightarrow> flushed (w_pc w) \<or> w_buffer w = []"
    using assms(2) flushed_unfailed [of "w_pc (serve_end r e w)"] by simp
qed (use assms(2) in simp_all)

lemma open_log_fields [simp]:
  "w_cfg (fst (open_log (w, fs))) = w_cfg w" "w_buffer (fst (open_log (w, fs))) = w_buffer w"
  "w_state (fst (open_log (w, fs))) = w_state w" "w_pc (fst (open_log (w, fs))) = w_pc w"
  "w_ready (fst (open_log (w, fs))) = w_ready w"
  by (simp_all add: open_log_def split: prod.split sum.split)

lemma writer_inv_system:
  assumes inv: "writer_inv w"
  shows "writer_inv (fst (system_step ev (w, fs)))"
proof (cases "w_pc w")
  case PcSelect
  with writer_inv_select [OF PcSelect inv] show ?thesis by (simp add: system_step_def)
next
  case (PcFlush written ret)
  with writer_inv_write [OF PcFlush inv] inv show ?thesis
    by (cases ev) (simp_all add: system_step_def)
next
  case PcOpen
  have "writer_inv (started t (fst (open_log (w, fs))))" for t
    by (rule writer_inv_cong [OF inv]) (simp_all add: PcOpen started_def split: if_splits)
  with PcOpen inv show ?thesis
    by (cases ev) (auto simp: system_step_def split_beta intro: writer_inv_error)
next
  case PcReopenOpen
  then have "balanced w" using inv by (simp add: writer_inv_def)
  then have "balanced (fst (open_log (w, fs)))"
    using balanced_cong [of "fst (open_log (w, fs))" w] by simp
  with PcReopenOpen inv writer_inv_reopened show ?thesis
    by (cases ev) (auto simp: system_step_def split_beta intro: writer_inv_error)
next
  case (PcServe r)
  with inv writer_inv_serve_end [OF inv PcServe] show ?thesis
    by (cases ev) (simp_all add: system_step_def)
next
  case PcMkdir
  with inv show ?thesis
    by (cases ev) (auto simp: system_step_def intro: writer_inv_error writer_inv_cong [OF inv])
next
  case PcReopenClose
  with inv show ?thesis
    by (cases ev) (auto simp: system_step_def intro: writer_inv_error writer_inv_cong [OF inv])
next
  case (PcClose r)
  with inv show ?thesis
    by (cases ev) (auto simp: system_step_def intro: writer_inv_error writer_inv_cong [OF inv])
next
  case (PcState r)
  with inv show ?thesis
    by (cases ev) (auto simp: system_step_def intro: writer_inv_error writer_inv_cong [OF inv])
next
  case (PcDone r)
  with inv show ?thesis by (cases ev) (simp_all add: system_step_def)
next
  case PcPanic
  with inv show ?thesis by (cases ev) (simp_all add: system_step_def)
qed

lemma writer_inv_step: "writer_inv (fst s) \<Longrightarrow> writer_inv (fst (writer_step ev s))"
proof -
  assume inv: "writer_inv (fst s)"
  have "writer_inv (w\<lparr>w_reopen := True\<rparr>)" if "writer_inv w" for w
    by (rule writer_inv_cong [OF that]) simp_all
  with inv writer_inv_system [OF inv] show ?thesis
    by (cases ev; cases s) (auto simp: writer_step_def handle_reopen_def)
qed

lemma writer_inv_steps: "writer_inv (fst s) \<Longrightarrow> writer_inv (fst (writer_steps evs s))"
  by (induction evs arbitrary: s) (simp_all add: writer_steps_def writer_inv_step)

text \<open>The Go writer fulfils the contract of a record appender.\<close>

interpretation go_writer: record_appender writer_step log_path w_file "\<lambda>w. unfailed (w_pc w)"
  pending_bytes writer_produced "\<lambda>w. nat (record_size w)" partial_bytes writer_inv
proof (intro record_appender.intro record_appender_axioms.intro writer_log_appender)
  fix ev w fs w' fs'
  assume step: "writer_step ev (w, fs) = (w', fs')"
  then have eff: "writer_effect (w, fs) (w', fs')" using writer_step_effect [of w fs ev] by simp
  then show "nat (record_size w') = nat (record_size w)"
    by (simp add: writer_effect_def same_run_def)
  show "writer_inv w'" if "writer_inv w"
    using writer_inv_step [of "(w, fs)" ev] that step by simp
  assume inv: "writer_inv w" and ok: "unfailed (w_pc w')"
  let ?u = "nat (record_size w)"
  have "unfailed (w_pc w)" using eff ok by (simp add: writer_effect_def same_run_def)
  then have unit: "length (w_buffer w) mod ?u = 0"
    using inv by (auto simp: writer_inv_def balanced_def)
  from eff ok consider
      (quiet) "fs' = fs" "w_file w' = w_file w \<or> w_file w' = None" "partial_bytes w' = partial_bytes w"
        "w_file w' = w_file w \<or> partial_bytes w = 0"
    | (app) i s where "w_file w = Some i" "fs' = fs_append i s fs" "w_file w' = Some i"
        "stores w (length s) w'"
    | (opn) i where "fs_open_create (log_path w) fs = (Inr i, fs')" "w_file w' = Some i"
        "partial_bytes w = 0" "partial_bytes w' = 0"
    by (auto simp: writer_effect_def)
  then show "(\<exists>s. fs' = append_to (w_file w) s fs \<and> (w_file w = None \<longrightarrow> s = []) \<and>
        (w_file w' = w_file w \<and> partial_bytes w' mod ?u = (partial_bytes w + length s) mod ?u \<or>
         w_file w' = None \<and> s = [] \<and> partial_bytes w mod ?u = 0)) \<or>
      (\<exists>i. fs_open_create (log_path w) fs = (Inr i, fs') \<and> w_file w' = Some i \<and>
         partial_bytes w mod ?u = 0 \<and> partial_bytes w' mod ?u = 0)"
  proof cases
    case quiet
    then have "fs' = append_to (w_file w) [] fs"
      by (auto simp: append_to_def fs_append_def split: option.split)
    with quiet show ?thesis by (intro disjI1 exI [of _ "[]"]) auto
  next
    case app
    then have "partial_bytes w' mod ?u = (partial_bytes w + length s) mod ?u"
      using unit by (auto simp: stores_def)
    with app show ?thesis by (intro disjI1 exI [of _ s]) (simp add: append_to_def)
  next
    case opn
    then show ?thesis by simp
  qed
qed

subsection \<open>Rate and reopen accounting\<close>

lemma generate_loop_count:
  assumes "encodable (run_id w, 0, record_size w)" and "0 \<le> w_byteCredit w"
  shows "\<exists>w'. generate_loop w = (None, w') \<and> w_byteCredit w' = w_byteCredit w mod record_size w \<and>
    generated w' = generated w + of_nat (nat (w_byteCredit w div record_size w))"
  using assms
proof (induction w rule: generate_loop.induct)
  case (1 w)
  let ?w1 = "w\<lparr>w_state := (w_state w)\<lparr>ws_Generated := generated w + 1\<rparr>\<rparr>"
  have pos: "0 < record_size w" using "1.prems"(1) by auto
  show ?case
  proof (cases "record_size w \<le> w_byteCredit w")
    case False
    with "1.prems" show ?thesis
      by (subst generate_loop.simps) simp
  next
    case True
    have enc: "encodable (run_id w, q, record_size w)" for q using "1.prems"(1) by simp
    obtain b where b: "Encode (run_id w) (generated ?w1) (record_size w) = Inr b"
      using Encode_record_line [OF enc] by blast
    let ?w2 = "?w1\<lparr>w_buffer := w_buffer w @ b, w_byteCredit := w_byteCredit w - record_size w\<rparr>"
    from "1.IH" [OF True refl b] "1.prems" True obtain w' where
      ih: "generate_loop ?w2 = (None, w')"
        "w_byteCredit w' = (w_byteCredit w - record_size w) mod record_size w"
        "generated w' = generated w + 1 + of_nat (nat ((w_byteCredit w - record_size w) div record_size w))"
      by auto
    have q: "(w_byteCredit w - record_size w) div record_size w = w_byteCredit w div record_size w - 1"
      using div_mult_self1 [of "record_size w" "w_byteCredit w" "- 1"] pos by simp
    have "1 \<le> w_byteCredit w div record_size w"
      using True pos by (simp add: pos_imp_zdiv_pos_iff int_one_le_iff_zero_less)
    then have "Suc (nat (w_byteCredit w div record_size w - 1)) = nat (w_byteCredit w div record_size w)"
      by simp
    then have "generated w' = generated w + of_nat (nat (w_byteCredit w div record_size w))"
      using ih(3) unfolding q by (metis add.assoc of_nat_Suc)
    moreover have "w_byteCredit w' = w_byteCredit w mod record_size w"
      using ih(2) by (simp add: minus_mod_self2)
    moreover have "generate_loop w = (None, w')"
      using True b ih(1) by (subst generate_loop.simps) simp
    ultimately show ?thesis by blast
  qed
qed

fun accepted_posts :: "writer_event list \<Rightarrow> Writer \<times> fs \<Rightarrow> nat" where
  "accepted_posts [] s = 0"
| "accepted_posts (ev # evs) s =
     (if ev = PostReopen \<and> serving (w_pc (fst s)) \<and> fst (fst (handle_reopen POST (fst s))) = 200
      then 1 else 0) + accepted_posts evs (writer_step ev s)"

definition reopens_due :: "Writer \<Rightarrow> u64" where
  "reopens_due w = ws_ReopenRequests (w_state w) + (if w_reopen w then 1 else 0)"

lemma generate_loop_reopens: "generate_loop w = (r, w') \<Longrightarrow> reopens_due w' = reopens_due w"
proof (induction w arbitrary: r w' rule: generate_loop.induct)
  case (1 w)
  let ?w1 = "w\<lparr>w_state := (w_state w)\<lparr>ws_Generated := generated w + 1\<rparr>\<rparr>"
  show ?case
  proof (cases "record_size w \<le> w_byteCredit w")
    case False
    with "1.prems" show ?thesis by (subst (asm) generate_loop.simps) simp
  next
    case True
    show ?thesis
    proof (cases "Encode (run_id w) (generated ?w1) (record_size w)")
      case (Inl e)
      with True "1.prems" show ?thesis
        by (subst (asm) generate_loop.simps) (auto simp: reopens_due_def)
    next
      case (Inr b)
      let ?w2 = "?w1\<lparr>w_buffer := w_buffer w @ b, w_byteCredit := w_byteCredit w - record_size w\<rparr>"
      have "generate_loop ?w2 = (r, w')"
        using True Inr "1.prems" by (subst (asm) generate_loop.simps) simp
      from "1.IH" [OF True refl Inr this] show ?thesis by (simp add: reopens_due_def)
    qed
  qed
qed

lemma reopens_due_simps [simp]:
  "reopens_due (finish e w) = reopens_due w" "reopens_due (begin_flush w) = reopens_due w"
  "reopens_due (after_flush ret e w) = reopens_due w" "reopens_due (count_written w) = reopens_due w"
  "reopens_due (w\<lparr>w_pc := pc\<rparr>) = reopens_due w" "reopens_due (w\<lparr>w_file := f\<rparr>) = reopens_due w"
  "reopens_due (started t w) = reopens_due w"
  "reopens_due (serve_end r e w) = reopens_due w" "reopens_due (add_credit t w) = reopens_due w"
  "reopens_due (reopen_failed err w) = reopens_due w"
  "w_reopen w \<Longrightarrow> reopens_due (reopen_request w) = reopens_due w"
  by (auto simp: reopens_due_def count_written_def serve_end_def Let_def add_credit_def
      reopen_failed_def reopen_request_def split: option.split)

lemma reopens_due_select: "reopens_due (select_step ev w) = reopens_due w"
proof (cases ev)
  case (GenerateTick t)
  obtain r w1 where g: "generate_loop (add_credit t w) = (r, w1)" by fastforce
  with generate_loop_reopens [OF g] GenerateTick show ?thesis
    by (auto simp: select_step_def generate_tick_def split: option.split)
qed (simp_all add: select_step_def)

lemma reopens_due_system: "reopens_due (fst (system_step ev (w, fs))) = reopens_due w"
proof (cases "w_pc w")
  case PcSelect
  then show ?thesis by (simp add: system_step_def reopens_due_select)
next
  case (PcFlush written ret)
  then show ?thesis
    by (cases ev; cases "w_file w")
      (auto simp: system_step_def write_step_def Let_def split: option.split)
qed (cases ev; auto simp: system_step_def open_log_def split_beta split: sum.split)+

lemma reopens_due_steps:
  "of_nat (accepted_posts evs s) + reopens_due (fst s) = reopens_due (fst (writer_steps evs s))"
proof (induction evs arbitrary: s)
  case Nil
  then show ?case by (simp add: writer_steps_def)
next
  case (Cons ev evs)
  obtain w fs where s: "s = (w, fs)" by fastforce
  have "reopens_due (fst (writer_step ev s)) = reopens_due w +
      (if ev = PostReopen \<and> serving (w_pc w) \<and> fst (fst (handle_reopen POST w)) = 200 then 1 else 0)"
  proof (cases "ev = PostReopen")
    case True
    then show ?thesis by (simp add: s writer_step_def handle_reopen_def reopens_due_def)
  next
    case False
    then have "writer_step ev s = system_step ev (w, fs)"
      by (cases ev) (simp_all add: s writer_step_def)
    with False show ?thesis by (simp add: reopens_due_system)
  qed
  with Cons.IH [of "writer_step ev s"] show ?case
    by (cases "ev = PostReopen \<and> serving (w_pc w) \<and> fst (fst (handle_reopen POST w)) = 200")
      (auto simp: s writer_steps_def algebra_simps)
qed

subsection \<open>Properties\<close>

lemma new_writer_Inr:
  assumes "new_writer None cfg = Inr w0"
  shows "run_id w0 = wc_RunID cfg" "record_size w0 = wc_RecordBytes cfg" "log_path w0 = wc_Path cfg"
    and "w_file w0 = None" "w_pc w0 = PcMkdir" "w_buffer w0 = []" "w_state w0 = zero_WriterState"
    and "\<not> w_reopen w0" "0 < wc_RecordBytes cfg"
  using assms
  by (auto simp: new_writer_def default_config_def Let_def valid_writer_config_def
      split: if_splits)

lemma writer_inv_new:
  assumes "new_writer None cfg = Inr w0"
  shows "writer_inv w0"
  using new_writer_Inr [OF assms]
  by (auto simp: writer_inv_def balanced_def zero_WriterState_def intro!: exI [of _ 0])

definition file_bytes :: "fs \<Rightarrow> string \<Rightarrow> string" where
  "file_bytes fs p = (case find_ino fs p of None \<Rightarrow> [] | Some i \<Rightarrow> contents fs i)"

lemma chain_bytes_single: "chain_bytes fs [p] = file_bytes fs p"
  by (simp add: chain_bytes_def file_bytes_def split: option.split)

lemma log_inv_new:
  assumes "new_writer None cfg = Inr w0" and "fs_wf fs" and "distinct ps" and "ps \<noteq> []"
    and "last ps = wc_Path cfg" and "chain_bytes fs ps = []"
  shows "go_writer.log_inv ps [] w0 fs"
  using new_writer_Inr [OF assms(1)] assms(2-)
  by (auto simp: go_writer.log_inv_def writer_produced_def record_stream_def pending_bytes_def
      zero_WriterState_def intro!: exI [of _ 0])

lemma writer_steps_cfg: "writer_steps evs (w0, fs0) = (w, fs) \<Longrightarrow> w_cfg w = w_cfg w0"
proof (induction evs arbitrary: w fs rule: rev_induct)
  case (snoc ev evs)
  obtain w1 fs1 where s: "writer_steps evs (w0, fs0) = (w1, fs1)" by fastforce
  with snoc.prems have "writer_step ev (w1, fs1) = (w, fs)" by (simp add: writer_steps_def)
  with writer_step_effect [of w1 fs1 ev] have "w_cfg w = w_cfg w1"
    by (simp add: writer_effect_def same_run_def)
  with snoc.IH [OF s] show ?case by simp
qed (simp add: writer_steps_def)

lemma writer_log:
  assumes "new_writer None cfg = Inr w0" and "writer_steps evs (w0, empty_fs) = (w, fs)"
    and "unfailed (w_pc w)"
  shows "\<exists>g. generated w = of_nat g \<and> file_bytes fs (wc_Path cfg) @ pending_bytes w =
    record_stream (wc_RunID cfg) (wc_RecordBytes cfg) g"
proof -
  have "chain_bytes empty_fs [wc_Path cfg] = []"
    by (simp add: chain_bytes_single file_bytes_def empty_fs_def find_ino_def)
  then have "go_writer.log_inv [wc_Path cfg] [] w0 empty_fs"
    using log_inv_new [OF assms(1) fs_wf_empty, of "[wc_Path cfg]"] by simp
  from go_writer.steps_keep [OF this, of evs w fs] assms(2)
  have inv: "go_writer.log_inv [wc_Path cfg] [] w fs" by (simp add: writer_steps_def)
  have "w_cfg w = w_cfg w0" using writer_steps_cfg assms(2) by simp
  with inv assms(3) new_writer_Inr [OF assms(1)] show ?thesis
    by (auto simp: go_writer.log_inv_def writer_produced_def chain_bytes_single)
qed

text \<open>A writer and a script for the witnesses: two records are generated, one and a half records
  reach the file in the first write, a reopen is asked for, then the context ends.\<close>

definition sample_writer_config :: WriterConfig where
  "sample_writer_config = \<lparr>wc_RunID = ''r'', wc_Path = ''envoy.log'', wc_ListenAddress = [],
     wc_StatePath = [], wc_RecordBytes = 24, wc_BufferBytes = 48, wc_BytesPerSecond = 24,
     wc_FlushInterval = 0, wc_ResidentBytes = 0\<rparr>"

definition sample_writer :: Writer where
  "sample_writer = \<lparr>w_cfg = default_config sample_writer_config, w_ready = False, w_reopen = False,
     w_state = zero_WriterState, w_file = None, w_buffer = [], w_byteCredit = 0,
     w_lastGenerate = 0, w_pc = PcMkdir\<rparr>"

definition sample_script :: "writer_event list" where
  "sample_script = [SysOk 0, SysOk 0, GenerateTick (2 * 10 ^ 9), WroteBytes 36 None, PostReopen,
     WroteBytes 12 None, ReopenReady, SysOk 0, SysOk 0, CtxDone, SysOk 0, ServeEnd None]"

lemma sample_writer_new: "new_writer None sample_writer_config = Inr sample_writer"
  by (simp add: new_writer_def valid_writer_config_def sample_writer_config_def sample_writer_def)

lemma sample_run:
  "w_pc (fst (writer_steps sample_script (sample_writer, empty_fs))) = PcDone None"
  "generated (fst (writer_steps sample_script (sample_writer, empty_fs))) = 2"
  by code_simp+

text \<open>C5: the writer's log is exact at every moment. Started on an empty file system and driven by any
  sequence of ticks, reopen requests, cancellations, partial writes and other outcomes, as long
  as nothing has failed the bytes in the file followed by the bytes still buffered are the
  records \<open>1, 2, ..., generated\<close>, in this order, each once.\<close>

theorem writer_log_exact:
  assumes "new_writer None cfg = Inr w0" and "writer_steps evs (w0, empty_fs) = (w, fs)"
    and "unfailed (w_pc w)"
  shows "\<exists>g. generated w = of_nat g \<and> file_bytes fs (wc_Path cfg) @ pending_bytes w =
    record_stream (wc_RunID cfg) (wc_RecordBytes cfg) g"
  by (rule writer_log [OF assms])

theorem writer_log_exact_witness:
  "\<exists>g. generated (fst (writer_steps (take 4 sample_script) (sample_writer, empty_fs))) = of_nat g \<and>
     file_bytes (snd (writer_steps (take 4 sample_script) (sample_writer, empty_fs))) ''envoy.log'' @
       pending_bytes (fst (writer_steps (take 4 sample_script) (sample_writer, empty_fs))) =
     record_stream ''r'' 24 g"
proof -
  let ?s = "writer_steps (take 4 sample_script) (sample_writer, empty_fs)"
  have "unfailed (w_pc (fst ?s))" by code_simp
  from writer_log_exact [OF sample_writer_new prod.collapse [symmetric] this]
  show ?thesis by (simp add: sample_writer_config_def)
qed

text \<open>C6: a clean exit leaves nothing behind: when \<open>Run\<close> returns nil, \<open>written\<close> equals \<open>generated\<close> and
  the log file is exactly the records up to that number.\<close>

theorem writer_clean_exit:
  assumes "new_writer None cfg = Inr w0" and "writer_steps evs (w0, empty_fs) = (w, fs)"
    and "w_pc w = PcDone None"
  shows "ws_Written (w_state w) = generated w \<and> (\<exists>g. generated w = of_nat g \<and>
    file_bytes fs (wc_Path cfg) = record_stream (wc_RunID cfg) (wc_RecordBytes cfg) g)"
proof -
  have "writer_inv w"
    using writer_inv_steps [of "(w0, empty_fs)" evs] writer_inv_new [OF assms(1)] assms(2) by simp
  then have b: "w_buffer w = []" "balanced w" using assms(3) by (simp_all add: writer_inv_def)
  have "nat (record_size w) \<noteq> 0" using b(2) by (simp add: balanced_def)
  then have "ws_Written (w_state w) = generated w" using b by (auto simp: balanced_def)
  moreover have "pending_bytes w = []" using assms(3) b(1) by (simp add: pending_bytes_def)
  ultimately show ?thesis using writer_log [OF assms(1,2)] assms(3) by simp
qed

theorem writer_clean_exit_witness:
  "\<exists>g. of_nat g = (2 :: u64) \<and>
     file_bytes (snd (writer_steps sample_script (sample_writer, empty_fs))) ''envoy.log'' =
     record_stream ''r'' 24 g"
  using writer_clean_exit [OF sample_writer_new prod.collapse [symmetric] sample_run(1)]
  by (auto simp: sample_run(2) sample_writer_config_def)

text \<open>C29: a flush that fails part way is repeated from its start. When a write of the select loop
  stores \<open>k\<close> bytes and then fails, \<open>finish\<close> flushes the whole buffer again; if that succeeds the
  log has those \<open>k\<close> bytes twice, and \<open>Run\<close> goes on to return the first error.\<close>

theorem failed_flush_writes_again:
  assumes "w_pc w = PcFlush 0 ToSelect" and "w_file w = Some i" and "w_buffer w \<noteq> []"
    and "k \<le> length (w_buffer w)"
    and "writer_steps [WroteBytes k (Some e), WroteBytes (length (w_buffer w)) None] (w, fs) = (w', fs')"
  shows "contents fs' i = contents fs i @ take k (w_buffer w) @ w_buffer w \<and>
    w_pc w' = PcClose (Some (PathError ''write'' (log_path w) e))"
  using assms
  by (auto simp: writer_steps_def writer_step_def system_step_def write_step_def Let_def
      finish_def begin_flush_finish_def first_error_def)

definition failing_script :: "writer_event list" where
  "failing_script = [SysOk 0, SysOk 0, GenerateTick (2 * 10 ^ 9)]"

theorem failed_flush_writes_again_witness:
  "\<exists>w fs i w' fs'. writer_steps failing_script (sample_writer, empty_fs) = (w, fs) \<and>
     writer_steps [WroteBytes 30 (Some EIO), WroteBytes (length (w_buffer w)) None] (w, fs) = (w', fs') \<and>
     contents fs' i = take 30 (w_buffer w) @ w_buffer w"
proof -
  let ?s = "writer_steps failing_script (sample_writer, empty_fs)"
  obtain w' fs' where run: "writer_steps [WroteBytes 30 (Some EIO),
      WroteBytes (length (w_buffer (fst ?s))) None] (fst ?s, snd ?s) = (w', fs')" by fastforce
  have a: "w_pc (fst ?s) = PcFlush 0 ToSelect" "w_file (fst ?s) = Some 0"
    by code_simp+
  have b: "length (w_buffer (fst ?s)) = 48" "contents (snd ?s) 0 = []"
    by code_simp+
  from b(1) have "w_buffer (fst ?s) \<noteq> []" "30 \<le> length (w_buffer (fst ?s))" by auto
  from failed_flush_writes_again [OF a this run] b(2)
  have "contents fs' 0 = take 30 (w_buffer (fst ?s)) @ w_buffer (fst ?s)" by simp
  with run show ?thesis by (metis prod.collapse)
qed

text \<open>C28: the generator keeps its rate. As long as the byte arithmetic stays within \<open>int64\<close>, a tick
  turns the credit, increased by rate times elapsed time, into as many whole records as it pays
  for and keeps the remainder, so no record is produced early and no byte of credit is lost.\<close>

theorem generator_rate:
  assumes "encodable (run_id w, 0, record_size w)" and "w_lastGenerate w \<le> t"
    and "0 \<le> w_byteCredit w" and "0 < wc_BytesPerSecond (w_cfg w)"
    and "wc_BytesPerSecond (w_cfg w) * (t - w_lastGenerate w) < 2 ^ 63"
    and "credit = w_byteCredit w +
      wc_BytesPerSecond (w_cfg w) * (t - w_lastGenerate w) div 10 ^ 9" and "credit < 2 ^ 63"
  shows "w_byteCredit (generate_tick t w) = credit mod record_size w \<and>
    generated (generate_tick t w) = generated w + of_nat (nat (credit div record_size w))"
proof -
  let ?B = "wc_BytesPerSecond (w_cfg w)"
  let ?dt = "t - w_lastGenerate w"
  have dt: "0 \<le> ?dt" "?dt \<le> ?B * ?dt" using assms(2,4) by (simp_all add: mult_le_cancel_right1)
  then have "time_sub t (w_lastGenerate w) = ?dt" using assms(5) by (simp add: time_sub_def)
  moreover have "wrap64 (?B * ?dt) = ?B * ?dt"
    using dt assms(5) by (intro wrap64_id) (simp add: in_int64_def)
  moreover have "go_div (?B * ?dt) (10 ^ 9) = ?B * ?dt div 10 ^ 9"
    using dt by (intro go_div_nonneg) simp_all
  moreover have nn: "0 \<le> credit" using assms(3,6) dt by (simp add: pos_imp_zdiv_nonneg_iff)
  moreover have "wrap64 credit = credit"
    using nn assms(7) by (intro wrap64_id) (simp add: in_int64_def)
  ultimately have paid: "w_byteCredit (add_credit t w) = credit"
    by (simp add: add_credit_def second_ns_def assms(6))
  have fields: "run_id (add_credit t w) = run_id w" "record_size (add_credit t w) = record_size w"
      "generated (add_credit t w) = generated w"
    by (simp_all add: add_credit_def)
  from generate_loop_count [of "add_credit t w"] assms(1) nn obtain w' where
    "generate_loop (add_credit t w) = (None, w')" "w_byteCredit w' = credit mod record_size w"
    "generated w' = generated w + of_nat (nat (credit div record_size w))"
    by (auto simp: fields paid)
  then show ?thesis by (simp add: generate_tick_def begin_flush_def)
qed

theorem generator_rate_witness:
  "w_byteCredit (generate_tick (3 * 10 ^ 9) (sample_writer\<lparr>w_byteCredit := 11\<rparr>)) = 11 \<and>
   generated (generate_tick (3 * 10 ^ 9) (sample_writer\<lparr>w_byteCredit := 11\<rparr>)) = 3"
  using generator_rate [of "sample_writer\<lparr>w_byteCredit := 11\<rparr>" "3 * 10 ^ 9" 83]
  by (simp add: sample_writer_def sample_writer_config_def default_config_def zero_WriterState_def
      valid_run_id_def contains_any_def)

text \<open>C27: no reopen request is lost or invented: over any run, the requests the HTTP handler accepted
  with status 200 are those the writer has counted, plus the one still queued.\<close>

theorem reopen_requests_accounted:
  assumes "new_writer None cfg = Inr w0" and "writer_steps evs (w0, fs) = (w, fs')"
  shows "of_nat (accepted_posts evs (w0, fs)) =
    ws_ReopenRequests (w_state w) + (if w_reopen w then 1 else 0)"
  using reopens_due_steps [of evs "(w0, fs)"] assms(2) new_writer_Inr [OF assms(1)]
  by (simp add: reopens_due_def zero_WriterState_def)

theorem reopen_requests_accounted_witness:
  "of_nat (accepted_posts sample_script (sample_writer, empty_fs)) =
     ws_ReopenRequests (w_state (fst (writer_steps sample_script (sample_writer, empty_fs)))) +
     (if w_reopen (fst (writer_steps sample_script (sample_writer, empty_fs))) then 1 else 0) \<and>
   accepted_posts sample_script (sample_writer, empty_fs) = 1"
proof (rule conjI [OF reopen_requests_accounted [OF sample_writer_new prod.collapse [symmetric]]])
  show "accepted_posts sample_script (sample_writer, empty_fs) = 1" by code_simp
qed

end
