(* ===== verification/World.thy ===== *)
theory World
  imports Writer
begin

text \<open>
  The machine the rotator runs on. A program is a function on a \<open>world\<close>: the file system, the
  writer process, a clock and a schedule. Before each system call of the program one \<open>slot\<close> of
  the schedule is used up: the writer takes the slot's steps, time passes, and the call succeeds
  or fails as the slot says. A theorem about all worlds is thus a theorem about every
  interleaving of the two processes at the granularity of system calls and every pattern of
  failures. When the schedule has run out every call fails (with \<open>EIO\<close>) and the context counts
  as cancelled; a run that ends is one of a long enough schedule.
\<close>

datatype http_outcome =
    HttpOk
  | HttpLost
  | HttpRefused
  | HttpOther nat

record slot =
  sl_events :: "writer_event list"
  sl_fault :: "errno option"
  sl_fstat :: "errno option"
  sl_count :: nat
  sl_http :: http_outcome
  sl_done :: bool
  sl_elapse :: nat

record world =
  files :: fs
  writer :: Writer
  sched :: "slot list"
  clock :: int
  url_error :: "string \<Rightarrow> go_error option"

type_synonym 'a io = "world \<Rightarrow> 'a result \<times> world"

definition ok_slot :: slot where
  "ok_slot = \<lparr>sl_events = [], sl_fault = None, sl_fstat = None, sl_count = 0, sl_http = HttpOk,
     sl_done = False, sl_elapse = 0\<rparr>"

definition end_slot :: slot where
  "end_slot = ok_slot\<lparr>sl_fault := Some EIO, sl_fstat := Some EIO, sl_http := HttpRefused,
     sl_done := True\<rparr>"

definition run_events :: "writer_event list \<Rightarrow> world \<Rightarrow> world" where
  "run_events evs w =
     (case writer_steps evs (writer w, files w) of (wr, fs) \<Rightarrow> w\<lparr>writer := wr, files := fs\<rparr>)"

definition take_slot :: "world \<Rightarrow> slot \<times> world" where
  "take_slot w =
     (case sched w of
        [] \<Rightarrow> (end_slot, w)
      | s # ss \<Rightarrow> (s, run_events (sl_events s) (w\<lparr>sched := ss, clock := clock w + int (sl_elapse s)\<rparr>)))"

text \<open>\<open>try_io m wrap k\<close> is \<open>x, err := m; if err != nil { return wrap(err) }; k(x)\<close>.\<close>

definition return_io :: "'a \<Rightarrow> 'a io" where
  "return_io x w = (Inr x, w)"

definition fail_io :: "go_error \<Rightarrow> 'a io" where
  "fail_io e w = (Inl e, w)"

definition try_io :: "'a io \<Rightarrow> (go_error \<Rightarrow> go_error) \<Rightarrow> ('a \<Rightarrow> 'b io) \<Rightarrow> 'b io" where
  "try_io m wrap k w = (case m w of (Inl e, w) \<Rightarrow> (Inl (wrap e), w) | (Inr x, w) \<Rightarrow> k x w)"

subsection \<open>System calls\<close>

definition syscall :: "(errno \<Rightarrow> go_error) \<Rightarrow> (fs \<Rightarrow> (errno + 'a) \<times> fs) \<Rightarrow> 'a io" where
  "syscall mk f w =
     (case take_slot w of (s, w) \<Rightarrow>
        (case sl_fault s of
           Some e \<Rightarrow> (Inl (mk e), w)
         | None \<Rightarrow>
             (case f (files w) of
                (Inl e, fs) \<Rightarrow> (Inl (mk e), w\<lparr>files := fs\<rparr>)
              | (Inr x, fs) \<Rightarrow> (Inr x, w\<lparr>files := fs\<rparr>))))"

definition sys_stat :: "string \<Rightarrow> nat io" where
  "sys_stat p = syscall (PathError ''stat'' p) (fs_stat p)"

definition sys_open :: "string \<Rightarrow> ino io" where
  "sys_open p = syscall (PathError ''open'' p) (fs_open p)"

definition sys_open_excl :: "string \<Rightarrow> ino io" where
  "sys_open_excl p = syscall (PathError ''open'' p) (fs_open_excl p)"

definition sys_open_append :: "string \<Rightarrow> ino io" where
  "sys_open_append p = syscall (PathError ''open'' p) (fs_open_create p)"

definition sys_truncate :: "string \<Rightarrow> unit io" where
  "sys_truncate p = syscall (PathError ''truncate'' p) (fs_truncate p)"

definition sys_remove :: "string \<Rightarrow> unit io" where
  "sys_remove p = syscall (PathError ''remove'' p) (fs_remove p)"

definition sys_rename :: "string \<Rightarrow> string \<Rightarrow> unit io" where
  "sys_rename old new =
     syscall (\<lambda>e. ErrText (''rename '' @ old @ '' '' @ new @ '': '' @ errno_text e)) (fs_rename old new)"

text \<open>Calls on an open file or a directory that leave the modelled state alone, and calls on a path
  (\<open>chown\<close>, \<open>chmod\<close>) that only need it to exist.\<close>

definition sys_quiet :: "string \<Rightarrow> string \<Rightarrow> unit io" where
  "sys_quiet op p = syscall (PathError op p) (\<lambda>fs. (Inr (), fs))"

definition sys_on_path :: "string \<Rightarrow> string \<Rightarrow> unit io" where
  "sys_on_path op p = syscall (PathError op p)
     (\<lambda>fs. (if find_ino fs p = None then Inl ENOENT else Inr (), fs))"

text \<open>\<open>Stat\<close> of an open file, which has an outcome of its own in the slot.\<close>

definition sys_fstat :: "ino \<Rightarrow> nat io" where
  "sys_fstat i w =
     (case take_slot w of (s, w) \<Rightarrow>
        (case sl_fstat s of
           Some e \<Rightarrow> (Inl (PathError ''stat'' [] e), w)
         | None \<Rightarrow> (Inr (length (contents (files w) i)), w)))"

text \<open>A read returns at least one byte unless it is at the end; a failing write may have stored
  some bytes. How many is the slot's choice.\<close>

definition sys_read :: "ino \<Rightarrow> nat \<Rightarrow> string io" where
  "sys_read i pos w =
     (case take_slot w of (s, w) \<Rightarrow>
        (case sl_fault s of
           Some e \<Rightarrow> (Inl (PathError ''read'' [] e), w)
         | None \<Rightarrow> (Inr (take (max 1 (sl_count s)) (drop pos (contents (files w) i))), w)))"

definition sys_write :: "ino \<Rightarrow> string \<Rightarrow> unit io" where
  "sys_write i data w =
     (case take_slot w of (s, w) \<Rightarrow>
        (case sl_fault s of
           Some e \<Rightarrow> (Inl (PathError ''write'' [] e),
             w\<lparr>files := fs_append i (take (sl_count s) data) (files w)\<rparr>)
         | None \<Rightarrow> (Inr (), w\<lparr>files := fs_append i data (files w)\<rparr>)))"

definition sys_now :: "world \<Rightarrow> int \<times> world" where
  "sys_now w = (case take_slot w of (s, w) \<Rightarrow> (clock w, w))"

text \<open>A POST of \<open>/reopen-logs\<close>: it reaches the writer or not, its response arrives or not, or
  some other server answers.\<close>

definition post_to_writer :: "world \<Rightarrow> nat result \<times> world" where
  "post_to_writer w =
     (if serving (w_pc (writer w))
      then (case handle_reopen POST (writer w) of
              ((status, body), wr) \<Rightarrow> (Inr status, w\<lparr>writer := wr\<rparr>))
      else (Inl (ErrText ''connection refused''), w))"

definition http_post :: "nat io" where
  "http_post w =
     (case take_slot w of (s, w) \<Rightarrow>
        (case sl_http s of
           HttpOk \<Rightarrow> post_to_writer w
         | HttpLost \<Rightarrow> (Inl (ErrText ''timeout''), snd (post_to_writer w))
         | HttpRefused \<Rightarrow> (Inl (ErrText ''connection refused''), w)
         | HttpOther status \<Rightarrow> (Inr status, w)))"

subsection \<open>Every call uses up the schedule\<close>

abbreviation slots :: "world \<Rightarrow> nat" where "slots w \<equiv> length (sched w)"

lemma run_events_sched [simp]: "sched (run_events evs w) = sched w" "clock (run_events evs w) = clock w"
  "url_error (run_events evs w) = url_error w"
  by (simp_all add: run_events_def split: prod.split)

lemma take_slot_slots: "take_slot w = (s, w') \<Longrightarrow> slots w' \<le> slots w"
  by (auto simp: take_slot_def split: list.splits)

lemma take_slot_less:
  "take_slot w = (s, w') \<Longrightarrow> sl_fault s = None \<or> \<not> sl_done s \<Longrightarrow> slots w' < slots w"
  by (auto simp: take_slot_def end_slot_def split: list.splits)

lemma syscall_slots:
  "syscall mk f w = (r, w') \<Longrightarrow> slots w' \<le> slots w \<and> (is_ok r \<longrightarrow> slots w' < slots w)"
  by (auto simp: syscall_def dest: take_slot_slots take_slot_less
      split: prod.splits option.splits sum.splits)

lemma sys_read_slots: "sys_read i pos w = (r, w') \<Longrightarrow> slots w' \<le> slots w \<and> (is_ok r \<longrightarrow> slots w' < slots w)"
  by (auto simp: sys_read_def dest: take_slot_slots take_slot_less split: prod.splits option.splits)

lemma sys_write_slots: "sys_write i d w = (r, w') \<Longrightarrow> slots w' \<le> slots w"
  by (auto simp: sys_write_def dest: take_slot_slots split: prod.splits option.splits)

text \<open>\<open>try_ioE\<close> takes a successful program apart.\<close>

lemma try_ioE:
  assumes "try_io m wrap k w = (Inr x, w')"
  obtains y w1 where "m w = (Inr y, w1)" and "k y w1 = (Inr x, w')"
  using assms by (auto simp: try_io_def split: prod.splits sum.splits)

text \<open>\<open>used w w'\<close>: the schedule of \<open>w'\<close> is what is left of that of \<open>w\<close>. \<open>no_gain m\<close>: the program \<open>m\<close> only
  uses up the schedule.\<close>

definition used :: "world \<Rightarrow> world \<Rightarrow> bool" where
  "used w w' \<longleftrightarrow> (\<exists>k. sched w' = drop k (sched w))"

lemma used_same [simp, intro]: "sched w' = sched w \<Longrightarrow> used w w'"
  unfolding used_def by (intro exI [of _ 0]) simp

lemma used_trans [trans]: "used u v \<Longrightarrow> used v w \<Longrightarrow> used u w"
  by (auto simp: used_def)

lemma used_slots: "used w w' \<Longrightarrow> slots w' \<le> slots w"
  by (auto simp: used_def)

lemma used_files [simp]: "used w (w'\<lparr>files := fs\<rparr>) = used w w'" "used w (w'\<lparr>writer := wr\<rparr>) = used w w'"
  by (simp_all add: used_def)

lemma take_slot_used: "take_slot w = (s, w') \<Longrightarrow> used w w'"
  unfolding used_def take_slot_def by (auto split: list.splits intro: exI [of _ 0] exI [of _ 1])

definition no_gain :: "(world \<Rightarrow> 'a \<times> world) \<Rightarrow> bool" where
  "no_gain m \<longleftrightarrow> (\<forall>w. used w (snd (m w)))"

named_theorems gain \<open>programs that only use up the schedule\<close>

lemma no_gain_used: "no_gain m \<Longrightarrow> m w = (r, w') \<Longrightarrow> used w w'"
  by (metis no_gain_def snd_conv)

lemma no_gainI: "(\<And>w r w'. m w = (r, w') \<Longrightarrow> used w w') \<Longrightarrow> no_gain m"
  by (metis no_gain_def prod.collapse)

lemma no_gainD: "no_gain m \<Longrightarrow> m w = (r, w') \<Longrightarrow> slots w' \<le> slots w"
  by (rule used_slots [OF no_gain_used])

lemma gain_slot:
  assumes "\<And>w s w1. take_slot w = (s, w1) \<Longrightarrow> sched (snd (m w)) = sched w1"
  shows "no_gain m"
proof (rule no_gainI)
  fix w r w'
  assume "m w = (r, w')"
  moreover obtain s w1 where s: "take_slot w = (s, w1)" by fastforce
  ultimately have "sched w' = sched w1" using assms [OF s] by simp
  with take_slot_used [OF s] show "used w w'" by (simp add: used_def)
qed

lemma post_to_writer_sched: "sched (snd (post_to_writer w)) = sched w"
  by (simp add: post_to_writer_def split: prod.split)

lemma gain_basic [gain]:
  "no_gain (return_io x)" "no_gain (fail_io e)" "no_gain (syscall mk f)" "no_gain (sys_read i pos)"
  "no_gain (sys_write i d)" "no_gain sys_now" "no_gain http_post"
  "no_gain (sys_fstat i)"
proof -
  show "no_gain (return_io x)" "no_gain (fail_io e)"
    by (simp_all add: no_gain_def return_io_def fail_io_def)
  show "no_gain (syscall mk f)"
  proof (rule gain_slot)
    fix w s w1
    assume "take_slot w = (s, w1)"
    then show "sched (snd (syscall mk f w)) = sched w1"
      by (cases "sl_fault s"; cases "f (files w1)"; cases "fst (f (files w1))") (simp_all add: syscall_def)
  qed
  show "no_gain (sys_read i pos)" by (rule gain_slot) (simp add: sys_read_def split: option.split)
  show "no_gain (sys_write i d)" by (rule gain_slot) (simp add: sys_write_def split: option.split)
  show "no_gain (sys_fstat i)" by (rule gain_slot) (simp add: sys_fstat_def split: option.split)
  show "no_gain sys_now" by (rule gain_slot) (simp add: sys_now_def)
  show "no_gain http_post"
    by (rule gain_slot) (simp add: http_post_def post_to_writer_sched split: http_outcome.split)
qed

lemma gain_sys [gain]:
  "no_gain (sys_stat p)" "no_gain (sys_open p)" "no_gain (sys_open_excl p)"
  "no_gain (sys_open_append p)" "no_gain (sys_truncate p)" "no_gain (sys_remove p)"
  "no_gain (sys_rename p q)" "no_gain (sys_quiet op p)" "no_gain (sys_on_path op p)"
  by (simp_all add: gain sys_stat_def sys_open_def sys_open_excl_def sys_open_append_def
      sys_truncate_def sys_remove_def sys_rename_def sys_quiet_def sys_on_path_def)

lemma gain_try [gain]:
  assumes "no_gain m" and "\<And>x. no_gain (k x)"
  shows "no_gain (try_io m wrap k)"
proof (rule no_gainI)
  fix w r w'
  assume t: "try_io m wrap k w = (r, w')"
  obtain r1 w1 where m: "m w = (r1, w1)" by fastforce
  note u = no_gain_used [OF assms(1) m]
  show "used w w'"
  proof (cases r1)
    case (Inr x)
    then have "k x w1 = (r, w')" using t by (simp add: try_io_def m)
    from used_trans [OF u no_gain_used [OF assms(2) this]] show ?thesis .
  qed (use t m u in \<open>simp add: try_io_def\<close>)
qed

end
