(* ===== verification/Monitor.thy ===== *)
theory Monitor
  imports Cgroup Csv World
begin

text \<open>
  \<open>internal/monitor/monitor.go\<close>: sampling loop, log file statistics and the samples table. What a
  round of the loop meets is a \<open>monitor_round\<close>: whether the context is done, the tick's time, the
  cgroup files, the log directory, and what writing to the samples file does. The table goes
  through the buffer of the CSV writer, whose first write error sticks; a row is shorter than
  the buffer, so it reaches the file only by \<open>Flush\<close>. The interval is not modelled.
\<close>

record FileStats =
  fst_ActiveBytes :: u64
  fst_BackupBytes :: u64
  fst_BackupCount :: int

record MonitorConfig =
  mc_RunID :: string
  mc_Strategy :: string
  mc_ActivePath :: string
  mc_SamplesPath :: string
  mc_Interval :: int
  mc_StartTime :: "int option"

record monitor_round =
  mo_done :: bool
  mo_now :: int
  mo_read :: "string \<Rightarrow> file_read"
  mo_stat :: "string \<Rightarrow> nat result"
  mo_regular :: "string \<Rightarrow> bool"
  mo_glob :: "string list"
  mo_flush :: "nat \<times> errno option"

subsection \<open>The log directory\<close>

definition count_backup :: "monitor_round \<Rightarrow> string \<Rightarrow> FileStats \<Rightarrow> FileStats" where
  "count_backup m p f =
     (case mo_stat m p of
        Inl _ \<Rightarrow> f
      | Inr bytes \<Rightarrow>
          (if mo_regular m p
           then f\<lparr>fst_BackupBytes := fst_BackupBytes f + of_nat bytes,
                  fst_BackupCount := wrap64 (fst_BackupCount f + 1)\<rparr>
           else f))"

definition LogFileStats :: "monitor_round \<Rightarrow> string \<Rightarrow> FileStats result" where
  "LogFileStats m active =
     (let zero = \<lparr>fst_ActiveBytes = 0, fst_BackupBytes = 0, fst_BackupCount = 0\<rparr>;
          backups = (\<lambda>f. Inr (fold (count_backup m) (mo_glob m) f))
      in case mo_stat m active of
           Inr bytes \<Rightarrow> backups (zero\<lparr>fst_ActiveBytes := of_nat bytes\<rparr>)
         | Inl err \<Rightarrow> (if is_not_exist err then backups zero else Inl err))"

subsection \<open>The samples table\<close>

definition samples_header :: "string list" where
  "samples_header = [''elapsed_ns'', ''timestamp'', ''strategy'', ''run_id'', ''memory_current'',
     ''cache'', ''rss'', ''anon'', ''inactive_file'', ''active_file'', ''file_dirty'',
     ''file_writeback'', ''shmem'', ''active_bytes'', ''backup_bytes'', ''backup_count'']"

definition ptrString :: "u64 option \<Rightarrow> string" where
  "ptrString v = (case v of None \<Rightarrow> [] | Some x \<Rightarrow> format_uint x)"

definition parsePtr :: "string \<Rightarrow> u64 option" where
  "parsePtr s = (if s = [] then None else case parse_uint s of (v, None) \<Rightarrow> Some v | (_, Some e) \<Rightarrow> None)"

definition sampleRow :: "Sample \<Rightarrow> string list" where
  "sampleRow s = [format_int (s_ElapsedNS s), s_Timestamp s, s_Strategy s, s_RunID s,
     format_uint (s_MemoryCurrent s), format_uint (s_Cache s), format_uint (s_RSS s),
     ptrString (s_Anon s), ptrString (s_InactiveFile s), ptrString (s_ActiveFile s),
     ptrString (s_Dirty s), ptrString (s_Writeback s), ptrString (s_Shmem s),
     format_uint (s_ActiveBytes s), format_uint (s_BackupBytes s), format_int (s_BackupCount s)]"

definition decode_sample :: "string list \<Rightarrow> Sample" where
  "decode_sample row = \<lparr>s_ElapsedNS = fst (parse_int (row ! 0)), s_Timestamp = row ! 1,
     s_Strategy = row ! 2, s_RunID = row ! 3, s_MemoryCurrent = fst (parse_uint (row ! 4)),
     s_Cache = fst (parse_uint (row ! 5)), s_RSS = fst (parse_uint (row ! 6)),
     s_Anon = parsePtr (row ! 7), s_InactiveFile = parsePtr (row ! 8),
     s_ActiveFile = parsePtr (row ! 9), s_Dirty = parsePtr (row ! 10),
     s_Writeback = parsePtr (row ! 11), s_Shmem = parsePtr (row ! 12),
     s_ActiveBytes = fst (parse_uint (row ! 13)), s_BackupBytes = fst (parse_uint (row ! 14)),
     s_BackupCount = fst (atoi (row ! 15))\<rparr>"

fun decode_samples :: "nat \<Rightarrow> string list list \<Rightarrow> Sample list result" where
  "decode_samples i [] = Inr []"
| "decode_samples i (row # rows) =
     (if length row \<noteq> 16
      then Inl (ErrText (''sample row '' @ dec (Suc i) @ '' has '' @ dec (length row) @ '' columns''))
      else case decode_samples (Suc i) rows of
        Inl e \<Rightarrow> Inl e
      | Inr samples \<Rightarrow> Inr (decode_sample row # samples))"

text \<open>\<open>ReadSamples\<close>, given what opening and reading the file yields.\<close>

definition ReadSamples :: "string result \<Rightarrow> Sample list result" where
  "ReadSamples input =
     (case input of
        Inl e \<Rightarrow> Inl e
      | Inr text \<Rightarrow>
          (case csv_read_all text of
             Inl e \<Rightarrow> Inl (ErrText (csv_error_text e))
           | Inr rows \<Rightarrow> decode_samples 1 (drop 1 rows)))"

subsection \<open>The sampling loop\<close>

definition take_sample :: "MonitorConfig \<Rightarrow> int \<Rightarrow> Reader \<Rightarrow> monitor_round \<Rightarrow> Sample result" where
  "take_sample cfg start reader m =
     (case Reader_Sample (mo_read m) reader of
        Inl e \<Rightarrow> Inl e
      | Inr memory \<Rightarrow>
          (case LogFileStats m (mc_ActivePath cfg) of
             Inl e \<Rightarrow> Inl e
           | Inr f \<Rightarrow> Inr \<lparr>s_ElapsedNS = time_sub (mo_now m) start,
               s_Timestamp = rfc3339_nano (mo_now m), s_Strategy = mc_Strategy cfg,
               s_RunID = mc_RunID cfg, s_MemoryCurrent = ms_Current memory,
               s_Cache = ms_Cache memory, s_RSS = fst (RSSFromCgroupProcs (mo_read m) reader),
               s_Anon = ms_Anon memory, s_InactiveFile = ms_InactiveFile memory,
               s_ActiveFile = ms_ActiveFile memory, s_Dirty = ms_Dirty memory,
               s_Writeback = ms_Writeback memory, s_Shmem = ms_Shmem memory,
               s_ActiveBytes = fst_ActiveBytes f, s_BackupBytes = fst_BackupBytes f,
               s_BackupCount = fst_BackupCount f\<rparr>))"

record samples_file =
  sf_text :: string
  sf_buffer :: string
  sf_error :: "go_error option"

definition csv_write :: "string list \<Rightarrow> samples_file \<Rightarrow> samples_file" where
  "csv_write row f = (if sf_error f = None then f\<lparr>sf_buffer := sf_buffer f @ csv_row row\<rparr> else f)"

definition csv_flush :: "nat \<times> errno option \<Rightarrow> samples_file \<Rightarrow> samples_file" where
  "csv_flush outcome f =
     (if sf_error f \<noteq> None \<or> sf_buffer f = [] then f
      else case outcome of
        (_, None) \<Rightarrow> f\<lparr>sf_text := sf_text f @ sf_buffer f, sf_buffer := []\<rparr>
      | (n, Some e) \<Rightarrow> f\<lparr>sf_text := sf_text f @ take n (sf_buffer f),
          sf_buffer := drop n (sf_buffer f), sf_error := Some (PathError ''write'' [] e)\<rparr>)"

text \<open>\<open>None\<close>: the loop still runs when the rounds are used up; \<open>Some e\<close>: it has returned \<open>e\<close>. On
  every return the deferred \<open>Flush\<close> runs.\<close>

fun monitor_loop ::
  "MonitorConfig \<Rightarrow> int \<Rightarrow> Reader \<Rightarrow> monitor_round list \<Rightarrow> samples_file \<Rightarrow>
   go_error option option \<times> samples_file" where
  "monitor_loop cfg start reader [] f = (None, f)"
| "monitor_loop cfg start reader (m # ms) f =
     (if mo_done m then (let f = csv_flush (mo_flush m) f in (Some (sf_error f), f))
      else case take_sample cfg start reader m of
        Inl e \<Rightarrow> (Some (Some e), csv_flush (mo_flush m) f)
      | Inr s \<Rightarrow>
          (let f = csv_flush (mo_flush m) (csv_write (sampleRow s) f) in
           case sf_error f of
             Some e \<Rightarrow> (Some (Some e), f)
           | None \<Rightarrow> monitor_loop cfg start reader ms f))"

text \<open>\<open>Run\<close>, over what \<open>Discover\<close>, the first clock reading, \<open>MkdirAll\<close> and \<open>Create\<close> give; the second
  component is the samples file, if it was created.\<close>

definition Monitor_Run ::
  "MonitorConfig \<Rightarrow> (string \<Rightarrow> bool) \<Rightarrow> int \<Rightarrow> unit result \<Rightarrow> unit result \<Rightarrow> monitor_round list \<Rightarrow>
   go_error option option \<times> samples_file option" where
  "Monitor_Run cfg stat now mkdir create rounds =
     (case Discover stat of
        Inl e \<Rightarrow> (Some (Some e), None)
      | Inr reader \<Rightarrow>
          (let start = (case mc_StartTime cfg of Some t \<Rightarrow> t | None \<Rightarrow> now) in
           case mkdir of
             Inl e \<Rightarrow> (Some (Some e), None)
           | Inr _ \<Rightarrow>
               (case create of
                  Inl e \<Rightarrow> (Some (Some e), None)
                | Inr _ \<Rightarrow>
                    (case monitor_loop cfg start reader rounds
                        (csv_write samples_header \<lparr>sf_text = [], sf_buffer = [], sf_error = None\<rparr>) of
                       (r, f) \<Rightarrow> (r, Some f)))))"

subsection \<open>The samples table as a CSV table\<close>

definition good_sample :: "Sample \<Rightarrow> bool" where
  "good_sample s \<longleftrightarrow> in_int64 (s_ElapsedNS s) \<and> in_int64 (s_BackupCount s) \<and>
     CR \<notin> set (s_Timestamp s @ s_Strategy s @ s_RunID s)"

lemma ptrString_CR: "CR \<notin> set (ptrString v)"
  using format_uint_CR by (auto simp: ptrString_def split: option.split)

lemma parse_ptrString [simp]: "parsePtr (ptrString v) = v"
  using format_uint_word(2) by (auto simp: ptrString_def parsePtr_def split: option.split)

interpretation sample_table: csv_table samples_header sampleRow good_sample decode_sample id
proof
  show "safe_row samples_header" by (simp add: safe_row_def samples_header_def)
  fix s assume g: "good_sample s"
  then show "safe_row (sampleRow s) \<and> length (sampleRow s) = length samples_header"
    using format_uint_CR format_int_CR ptrString_CR
    by (simp add: safe_row_def samples_header_def sampleRow_def good_sample_def)
  show "decode_sample (sampleRow s) = id s"
    using g by (simp add: decode_sample_def sampleRow_def good_sample_def)
qed

lemma decode_samples_rows:
  assumes "\<forall>s \<in> set ss. good_sample s"
  shows "decode_samples i (map sampleRow ss) = Inr ss"
  using assms
proof (induction ss arbitrary: i)
  case (Cons s ss)
  then show ?case using sample_table.dec_row [of s] by (simp add: sampleRow_def)
qed simp

lemma read_samples_table:
  assumes "\<forall>s \<in> set ss. good_sample s"
  shows "ReadSamples (Inr (sample_table.table_text ss)) = Inr ss"
  using sample_table.read_table [OF assms] decode_samples_rows [OF assms]
  by (simp add: ReadSamples_def)

subsection \<open>What the loop leaves in the file\<close>

lemma flush_no_error:
  assumes "sf_error (csv_flush x f) = None"
  shows "sf_error f = None" and "sf_buffer (csv_flush x f) = []"
    and "sf_text (csv_flush x f) = sf_text f @ sf_buffer f"
  using assms by (auto simp: csv_flush_def split: prod.splits option.splits if_splits)

lemma flush_ok:
  "sf_error f = None \<Longrightarrow> csv_flush (n, None) f = f\<lparr>sf_text := sf_text f @ sf_buffer f, sf_buffer := []\<rparr>"
  by (cases f) (simp add: csv_flush_def)

lemma wrap64_fold_count: "in_int64 (fst_BackupCount f) \<Longrightarrow> in_int64 (fst_BackupCount (fold (count_backup m) ps f))"
  by (rule fold_invariant [where P = "\<lambda>f. in_int64 (fst_BackupCount f)"])
    (auto simp: count_backup_def wrap64_in_int64 split: sum.split)

lemma take_sample_good:
  assumes "take_sample cfg start reader m = Inr s" and "CR \<notin> set (mc_RunID cfg @ mc_Strategy cfg)"
  shows "good_sample s"
proof -
  have "CR \<notin> set (rfc3339_nano t)" for t
    using timestamp_chars [of CR t] by (auto simp: is_digit_def)
  moreover have "in_int64 (time_sub a b)" for a b
    by (auto simp: in_int64_def time_sub_def)
  moreover have "in_int64 (0 :: int)" by (simp add: in_int64_def)
  ultimately show ?thesis
    using assms wrap64_fold_count
    by (auto simp: take_sample_def good_sample_def LogFileStats_def Let_def split: sum.splits if_splits)
qed

definition loop_stops :: "MonitorConfig \<Rightarrow> int \<Rightarrow> Reader \<Rightarrow> monitor_round list \<Rightarrow> go_error option \<Rightarrow> Sample list \<Rightarrow> bool" where
  "loop_stops cfg start reader ms r samples \<longleftrightarrow> length samples < length ms \<and>
     map Inr samples = map (take_sample cfg start reader) (take (length samples) ms) \<and>
     list_all (\<lambda>m. \<not> mo_done m) (take (length samples) ms) \<and>
     (case r of None \<Rightarrow> mo_done (ms ! length samples)
      | Some e \<Rightarrow> \<not> mo_done (ms ! length samples) \<and>
          take_sample cfg start reader (ms ! length samples) = Inl e)"

lemma monitor_loop_stops:
  assumes "monitor_loop cfg start reader ms f = (Some r, f')" and "sf_error f' = None"
    and "sf_text f @ sf_buffer f = sample_table.table_text ss" and "sf_error f = None"
  shows "\<exists>samples. sf_text f' = sample_table.table_text (ss @ samples) \<and>
    loop_stops cfg start reader ms r samples"
  using assms(1,3,4)
proof (induction ms arbitrary: f ss)
  case (Cons m ms)
  show ?case
  proof (cases "mo_done m")
    case True
    with Cons.prems have "f' = csv_flush (mo_flush m) f" "r = None" using assms(2) by (auto simp: Let_def)
    with True Cons.prems(2) flush_no_error [of "mo_flush m" f] assms(2) show ?thesis
      by (intro exI [of _ "[]"]) (simp add: loop_stops_def)
  next
    case tick: False
    show ?thesis
    proof (cases "take_sample cfg start reader m")
      case (Inl e)
      with tick Cons.prems have "f' = csv_flush (mo_flush m) f" "r = Some e" by auto
      with tick Inl Cons.prems(2) flush_no_error [of "mo_flush m" f] assms(2) show ?thesis
        by (intro exI [of _ "[]"]) (simp add: loop_stops_def)
    next
      case (Inr s)
      let ?f = "csv_flush (mo_flush m) (csv_write (sampleRow s) f)"
      have ok: "sf_error ?f = None" and rest: "monitor_loop cfg start reader ms ?f = (Some r, f')"
        using tick Inr Cons.prems(1) assms(2) by (auto simp: Let_def split: option.splits)
      have "sf_text ?f @ sf_buffer ?f = (sf_text f @ sf_buffer f) @ csv_row (sampleRow s)"
        using flush_no_error [OF ok] Cons.prems(3) by (simp add: csv_write_def)
      then have "sf_text ?f @ sf_buffer ?f = sample_table.table_text (ss @ [s])"
        unfolding Cons.prems(2) sample_table.table_text_snoc .
      from Cons.IH [OF rest this ok] obtain samples where
        t: "sf_text f' = sample_table.table_text ((ss @ [s]) @ samples)"
        and l: "loop_stops cfg start reader ms r samples" by blast
      from t l tick Inr show ?thesis
        by (intro exI [of _ "s # samples"]) (auto simp: loop_stops_def split: option.splits)
    qed
  qed
qed simp

subsection \<open>Properties\<close>

text \<open>C22: the samples survive the file. When \<open>Run\<close> has returned and no write has failed, reading the
  samples file gives back, field by field, one sample for every tick up to the end: the context's
  end when it returned nil, else the first tick whose sample failed, whose error it returned.\<close>

theorem samples_read_back:
  assumes "Monitor_Run cfg stat now mkdir create rounds = (Some r, Some f)" and "sf_error f = None"
    and "Discover stat = Inr reader" and "CR \<notin> set (mc_RunID cfg @ mc_Strategy cfg)"
    and "start = (case mc_StartTime cfg of Some t \<Rightarrow> t | None \<Rightarrow> now)"
  shows "\<exists>samples. ReadSamples (Inr (sf_text f)) = Inr samples \<and> loop_stops cfg start reader rounds r samples"
proof -
  let ?f = "csv_write samples_header \<lparr>sf_text = [], sf_buffer = [], sf_error = None\<rparr>"
  have "monitor_loop cfg start reader rounds ?f = (Some r, f)"
    using assms(1,3,5) by (auto simp: Monitor_Run_def Let_def split: sum.splits prod.splits)
  moreover have "sf_text ?f @ sf_buffer ?f = sample_table.table_text []" "sf_error ?f = None"
    by (simp_all add: csv_write_def sample_table.table_text_def)
  ultimately obtain samples where t: "sf_text f = sample_table.table_text ([] @ samples)"
    and l: "loop_stops cfg start reader rounds r samples"
    using monitor_loop_stops assms(2) by blast
  have "good_sample s" if "s \<in> set samples" for s
  proof -
    have "map Inr samples = map (take_sample cfg start reader) (take (length samples) rounds)"
      using l by (simp add: loop_stops_def)
    with that obtain m where "take_sample cfg start reader m = Inr s"
      by (metis (no_types, lifting) image_iff image_set)
    from take_sample_good [OF this assms(4)] show ?thesis .
  qed
  with t l read_samples_table show ?thesis by auto
qed

text \<open>A run of three ticks, the last of which ends it.\<close>

definition sample_monitor :: MonitorConfig where
  "sample_monitor = \<lparr>mc_RunID = ''r'', mc_Strategy = ''baseline'', mc_ActivePath = ''a.log'',
     mc_SamplesPath = ''s.csv'', mc_Interval = 0, mc_StartTime = Some 0\<rparr>"

definition sample_round :: "int \<Rightarrow> bool \<Rightarrow> monitor_round" where
  "sample_round t fin = \<lparr>mo_done = fin, mo_now = t, mo_read = sample_cgroup,
     mo_stat = (\<lambda>p. if p = ''a.log'' then Inr 100 else Inl (PathError ''stat'' p ENOENT)),
     mo_regular = (\<lambda>_. True), mo_glob = [], mo_flush = (0, None)\<rparr>"

lemma sample_round_fields:
  "mo_done (sample_round t b) = b" "mo_flush (sample_round t b) = (0, None)"
  "mo_read (sample_round t b) = sample_cgroup" "mo_stat (sample_round t b) ''a.log'' = Inr 100"
  "mo_glob (sample_round t b) = []" "mc_StartTime sample_monitor = Some 0"
  "mc_ActivePath sample_monitor = ''a.log''"
  by (simp_all add: sample_round_def sample_monitor_def)

lemma sample_round_takes:
  "\<exists>s. take_sample sample_monitor 0 (NewReader ''/sys/fs/cgroup'' VersionV2) (sample_round t False) = Inr s \<and>
    s_MemoryCurrent s = 7340032 \<and> s_Cache s = 4194304 \<and> s_ActiveBytes s = 100"
proof -
  let ?kvs = "[(''anon'', 1048576), (''file'', 4194304)] :: (string \<times> u64) list"
  have "read_stats sample_cgroup ''/sys/fs/cgroup/memory.stat'' = Inr (map_of (rev ?kvs))"
    by (rule read_stats_lines) (simp_all add: sample_cgroup_def sample_cgroup_stats)
  moreover have "word_like (format_uint 7340032)"
    using format_uint_word length_format_uint [of 7340032] by (simp add: word_like_def)
  then have "read_uint sample_cgroup ''/sys/fs/cgroup/memory.current'' = Inr 7340032"
    by (simp add: read_uint_def sample_cgroup_def trim_space_line)
  ultimately have "Reader_Sample sample_cgroup (NewReader ''/sys/fs/cgroup'' VersionV2) =
      sample_of VersionV2 7340032 (map_of (rev ?kvs))"
    by (simp add: Reader_Sample_def NewReader_def sample_cgroup_paths)
  moreover have "\<exists>memory. sample_of VersionV2 7340032 (map_of (rev ?kvs)) = Inr memory \<and>
      ms_Current memory = 7340032 \<and> ms_Cache memory = 4194304"
    by (simp add: sample_of_def cache_source_def Let_def)
  ultimately obtain memory where "Reader_Sample sample_cgroup (NewReader ''/sys/fs/cgroup'' VersionV2) = Inr memory"
      "ms_Current memory = 7340032" "ms_Cache memory = 4194304" by auto
  then show ?thesis
    by (simp add: take_sample_def sample_round_fields LogFileStats_def Let_def)
qed

theorem samples_read_back_witness:
  "\<exists>f s. Monitor_Run sample_monitor (\<lambda>_. True) 0 (Inr ()) (Inr ())
      [sample_round 5 False, sample_round 9 True] = (Some None, Some f) \<and>
    ReadSamples (Inr (sf_text f)) = Inr [s] \<and> s_Cache s = 4194304"
proof -
  let ?r = "NewReader ''/sys/fs/cgroup'' VersionV2" and ?ms = "[sample_round 5 False, sample_round 9 True]"
  obtain s where s: "take_sample sample_monitor 0 ?r (sample_round 5 False) = Inr s" "s_Cache s = 4194304"
    using sample_round_takes by blast
  obtain f where f: "Monitor_Run sample_monitor (\<lambda>_. True) 0 (Inr ()) (Inr ()) ?ms = (Some None, Some f)"
      "sf_error f = None"
    using s(1) by (simp add: Monitor_Run_def Discover_def sample_round_fields flush_ok csv_write_def Let_def)
  have "Discover (\<lambda>_. True) = Inr ?r" by (simp add: Discover_def)
  from samples_read_back [OF f this _ refl] obtain samples where
    samples: "ReadSamples (Inr (sf_text f)) = Inr samples" "loop_stops sample_monitor 0 ?r ?ms None samples"
    by (auto simp: sample_monitor_def)
  have "samples = [s]"
  proof (cases samples)
    case Nil
    with samples(2) show ?thesis by (simp add: loop_stops_def sample_round_def)
  next
    case (Cons s' rest)
    with samples(2) s show ?thesis by (auto simp: loop_stops_def)
  qed
  with f samples(1) s show ?thesis by blast
qed

end
