(* ===== verification/Integrity.thy ===== *)
theory Integrity
  imports LogRecord Report
begin

text \<open>
  \<open>internal/integrity/analyze.go\<close>: the analyser that scans the active file and the backups
  and counts malformed records, foreign run IDs, duplicates, descending transitions and
  missing sequence numbers. Files are read through a function \<open>rd\<close> from paths to what opening
  and reading the file gives. The final loop over \<open>1..expected\<close> compares and increments
  \<open>uint64\<close> values, so it does not end for the largest one: it is a \<open>partial_function\<close> and
  \<open>None\<close> means that \<open>Analyze\<close> does not return.
\<close>

type_synonym seen = "(u64, u64) mapping"

abbreviation seen_count :: "seen \<Rightarrow> u64 \<Rightarrow> u64" where
  "seen_count m q \<equiv> Mapping.lookup_default 0 m q"

text \<open>The variables of the loop over one file: the report, \<open>seen\<close>, \<open>fileSet\<close>, \<open>previous\<close>.\<close>

record scan_state =
  st_report :: IntegrityReport
  st_seen :: seen
  st_fileSet :: FileSet
  st_previous :: u64

definition update_fileSet :: "u64 \<Rightarrow> FileSet \<Rightarrow> FileSet" where
  "update_fileSet q f =
     (let f = f\<lparr>fs_Records := fs_Records f + 1\<rparr>;
          f = (if fs_Min f = 0 \<or> q < fs_Min f then f\<lparr>fs_Min := q\<rparr> else f)
      in if fs_Max f < q then f\<lparr>fs_Max := q\<rparr> else f)"

definition scan_record :: "u64 \<Rightarrow> scan_state \<Rightarrow> scan_state" where
  "scan_record q st =
     (let f = update_fileSet q (st_fileSet st);
          r = st_report st;
          r = (if st_previous st \<noteq> 0 \<and> q < st_previous st
               then r\<lparr>ir_DescendingTransitions := ir_DescendingTransitions r + 1\<rparr> else r);
          n = seen_count (st_seen st) q + 1;
          r = (if 1 < n then r\<lparr>ir_Duplicates := ir_Duplicates r + 1\<rparr> else r)
      in \<lparr>st_report = r, st_seen = Mapping.update q n (st_seen st),
          st_fileSet = f, st_previous = q\<rparr>)"

definition scan_step :: "string \<Rightarrow> string \<Rightarrow> scan_state \<Rightarrow> scan_state" where
  "scan_step runID token st =
     (let r = st_report st in
      case Parse (token @ [NL]) of
        Inl _ \<Rightarrow> st\<lparr>st_report := r\<lparr>ir_Malformed := ir_Malformed r + 1\<rparr>\<rparr>
      | Inr parsed \<Rightarrow>
          (if rec_RunID parsed \<noteq> runID
           then st\<lparr>st_report := r\<lparr>ir_WrongRunID := ir_WrongRunID r + 1\<rparr>\<rparr>
           else scan_record (rec_Sequence parsed) st))"

fun analyze_paths ::
  "(string \<Rightarrow> file_read) \<Rightarrow> string \<Rightarrow> string list \<Rightarrow> IntegrityReport \<Rightarrow> seen \<Rightarrow>
   IntegrityReport \<times> seen \<times> go_error option" where
  "analyze_paths rd runID [] r seen = (r, seen, None)"
| "analyze_paths rd runID (path # paths) r seen =
     (case rd path of
        OpenError e \<Rightarrow> (r, seen, Some e)
      | Contents text readErr \<Rightarrow>
          (let (tokens, fits) = scan_lines integrity_token_limit text;
               st = fold (scan_step runID) tokens
                      \<lparr>st_report = r, st_seen = seen, st_fileSet = zero_FileSet, st_previous = 0\<rparr>;
               r = st_report st
           in case scan_error fits readErr of
                Some e \<Rightarrow> (r, st_seen st, Some (Wrap (''scan '' @ path @ '': '') e))
              | None \<Rightarrow>
                  analyze_paths rd runID paths
                    (r\<lparr>ir_Files := Mapping.update (path_base path) (st_fileSet st) (ir_Files r)\<rparr>)
                    (st_seen st)))"

text \<open>\<open>for sequence := uint64(1); sequence <= expected; sequence++\<close>\<close>

partial_function (option) missing_loop ::
  "u64 \<Rightarrow> seen \<Rightarrow> u64 \<Rightarrow> IntegrityReport \<Rightarrow> IntegrityReport option" where
  "missing_loop expected seen sequence r =
     (if sequence \<le> expected then
        (if seen_count seen sequence \<noteq> 0 then missing_loop expected seen (sequence + 1) r
         else missing_loop expected seen (sequence + 1)
           (let r = r\<lparr>ir_Missing := ir_Missing r + 1\<rparr> in
            if length (ir_MissingExamples r) < 100
            then r\<lparr>ir_MissingExamples := ir_MissingExamples r @ [sequence]\<rparr> else r))
      else Some r)"

definition Analyze ::
  "(string \<Rightarrow> file_read) \<Rightarrow> string \<Rightarrow> u64 \<Rightarrow> string list \<Rightarrow>
   (IntegrityReport \<times> go_error option) option" where
  "Analyze rd runID expected paths =
     (let result = zero_IntegrityReport\<lparr>ir_SchemaVersion := SchemaVersion, ir_Expected := expected\<rparr>
      in case analyze_paths rd runID paths result Mapping.empty of
           (r, seen, Some e) \<Rightarrow> Some (r, Some e)
         | (r, seen, None) \<Rightarrow>
             map_option (\<lambda>r. (r, None))
               (missing_loop expected seen 1
                  (r\<lparr>ir_ValidUnique := of_nat (Mapping.size seen)\<rparr>)))"

subsection \<open>What the counters mean\<close>

text \<open>
  A specification without state: the lines of a file, the sequence numbers of its valid
  records, and counting functions over those lists.
\<close>

definition line_seq :: "string \<Rightarrow> string \<Rightarrow> u64 option" where
  "line_seq runID token = (case Parse (token @ [NL]) of Inl _ \<Rightarrow> None
     | Inr p \<Rightarrow> if rec_RunID p = runID then Some (rec_Sequence p) else None)"

definition valid_seqs :: "string \<Rightarrow> string list \<Rightarrow> u64 list" where
  "valid_seqs runID tokens = List.map_filter (line_seq runID) tokens"

definition is_malformed :: "string \<Rightarrow> bool" where
  "is_malformed token \<longleftrightarrow> \<not> is_ok (Parse (token @ [NL]))"

definition is_foreign :: "string \<Rightarrow> string \<Rightarrow> bool" where
  "is_foreign runID token \<longleftrightarrow> \<not> is_malformed token \<and> line_seq runID token = None"

fun descents :: "u64 \<Rightarrow> u64 list \<Rightarrow> nat" where
  "descents p [] = 0"
| "descents p (q # qs) = (if q < p then 1 else 0) + descents q qs"

definition missing_list :: "u64 \<Rightarrow> u64 set \<Rightarrow> u64 list" where
  "missing_list expected seqs =
     filter (\<lambda>q. q \<notin> seqs) (map of_nat [1 ..< Suc (unat expected)])"

definition file_tokens :: "(string \<Rightarrow> file_read) \<Rightarrow> string \<Rightarrow> string list" where
  "file_tokens rd path = (case rd path of OpenError _ \<Rightarrow> []
     | Contents text _ \<Rightarrow> fst (scan_lines integrity_token_limit text))"

definition file_clean :: "(string \<Rightarrow> file_read) \<Rightarrow> string \<Rightarrow> bool" where
  "file_clean rd path \<longleftrightarrow>
     (case rd path of OpenError _ \<Rightarrow> False
      | Contents text readErr \<Rightarrow> readErr = None \<and> snd (scan_lines integrity_token_limit text))"

subsection \<open>One line, one file\<close>

text \<open>\<open>bump\<close> adds to the four counters of the scanning loop.\<close>

definition bump :: "nat \<Rightarrow> nat \<Rightarrow> nat \<Rightarrow> nat \<Rightarrow> IntegrityReport \<Rightarrow> IntegrityReport" where
  "bump m w d u r = r\<lparr>ir_Malformed := ir_Malformed r + of_nat m,
     ir_WrongRunID := ir_WrongRunID r + of_nat w,
     ir_DescendingTransitions := ir_DescendingTransitions r + of_nat d,
     ir_Duplicates := ir_Duplicates r + of_nat u\<rparr>"

lemma bump_bump [simp]: "bump m w d u (bump m' w' d' u' r) = bump (m' + m) (w' + w) (d' + d) (u' + u) r"
  by (simp add: bump_def add.assoc)

lemma bump_0 [simp]: "bump 0 0 0 0 r = r"
  by (simp add: bump_def)

definition seen_repr :: "seen \<Rightarrow> u64 list \<Rightarrow> bool" where
  "seen_repr m ps \<longleftrightarrow> Mapping.keys m = set ps \<and> (\<forall>q. seen_count m q = of_nat (count_list ps q))"

lemma seen_repr_empty [simp]: "seen_repr Mapping.empty []"
  by (simp add: seen_repr_def lookup_default_empty)

lemma seen_repr_update:
  "seen_repr m ps \<Longrightarrow> seen_repr (Mapping.update q (seen_count m q + 1) m) (ps @ [q])"
  by (auto simp: seen_repr_def lookup_default_update')

lemma seen_repr_count:
  assumes "seen_repr m ps" and "length ps < 2 ^ 64"
  shows "seen_count m q = 0 \<longleftrightarrow> q \<notin> set ps"
proof -
  have "count_list ps q \<le> length ps" by (rule count_le_length)
  with assms have "unat (seen_count m q) = count_list ps q"
    by (simp add: seen_repr_def unat_of_nat_u64)
  then show ?thesis by (metis count_list_0_iff unat_0 unat_eq_zero)
qed

lemma seen_repr_again:
  assumes "seen_repr m ps" and "length ps + 1 < 2 ^ 64"
  shows "1 < seen_count m q + 1 \<longleftrightarrow> q \<in> set ps"
proof -
  have "count_list ps q \<le> length ps" by (rule count_le_length)
  with assms(2) have "count_list ps q + 1 < 2 ^ 64" by linarith
  then have "unat (of_nat (count_list ps q + 1) :: u64) = count_list ps q + 1"
    by (rule unat_of_nat_u64)
  then have "1 < (of_nat (count_list ps q + 1) :: u64) \<longleftrightarrow> 0 < count_list ps q"
    by (simp add: word_less_nat_alt)
  also have "\<dots> \<longleftrightarrow> q \<in> set ps" by (metis count_list_0_iff gr0I less_irrefl)
  finally show ?thesis using assms(1) by (simp add: seen_repr_def add.commute)
qed

text \<open>How many of \<open>qs\<close> repeat an earlier element, \<open>ps\<close> coming first.\<close>

fun repeats :: "'a list \<Rightarrow> 'a list \<Rightarrow> nat" where
  "repeats ps [] = 0"
| "repeats ps (q # qs) = (if q \<in> set ps then 1 else 0) + repeats (ps @ [q]) qs"

lemma repeats_eq: "repeats ps qs + card (set (ps @ qs)) = length qs + card (set ps)"
proof (induction qs arbitrary: ps)
  case Nil
  then show ?case by simp
next
  case (Cons q qs)
  from Cons [of "ps @ [q]"] show ?case by (auto simp: insert_absorb split: if_splits)
qed

lemma scan_record_eq:
  assumes "seen_repr (st_seen st) ps" and "length ps + 1 < 2 ^ 64"
  shows "scan_record q st =
    \<lparr>st_report = bump 0 0 (if q < st_previous st then 1 else 0) (if q \<in> set ps then 1 else 0) (st_report st),
     st_seen = Mapping.update q (seen_count (st_seen st) q + 1) (st_seen st),
     st_fileSet = update_fileSet q (st_fileSet st), st_previous = q\<rparr>"
proof -
  have "st_previous st \<noteq> 0 \<and> q < st_previous st \<longleftrightarrow> q < st_previous st" by auto
  then show ?thesis
    using seen_repr_again [OF assms, of q] by (auto simp: scan_record_def bump_def Let_def)
qed

lemma scan_step_cases:
  "scan_step runID t st =
     (if is_malformed t then st\<lparr>st_report := bump 1 0 0 0 (st_report st)\<rparr>
      else case line_seq runID t of None \<Rightarrow> st\<lparr>st_report := bump 0 1 0 0 (st_report st)\<rparr>
      | Some q \<Rightarrow> scan_record q st)"
  by (auto simp: scan_step_def is_malformed_def line_seq_def bump_def Let_def split: sum.splits)

lemma line_seq_malformed: "is_malformed t \<Longrightarrow> line_seq runID t = None"
  by (auto simp: is_malformed_def line_seq_def split: sum.splits)

lemma valid_seqs_simps [simp]:
  "valid_seqs runID [] = []"
  "valid_seqs runID (t # ts) =
     (case line_seq runID t of None \<Rightarrow> valid_seqs runID ts | Some q \<Rightarrow> q # valid_seqs runID ts)"
  by (simp_all add: valid_seqs_def List.map_filter_simps split: option.splits)

lemma length_valid_seqs: "length (valid_seqs runID ts) \<le> length ts"
  by (induction ts) (auto split: option.splits)

lemma fold_scan_step:
  assumes "seen_repr (st_seen st) ps" and "length ps + length ts < 2 ^ 64"
  shows "seen_repr (st_seen (fold (scan_step runID) ts st)) (ps @ valid_seqs runID ts) \<and>
    st_report (fold (scan_step runID) ts st) =
      bump (length (filter is_malformed ts)) (length (filter (is_foreign runID) ts))
        (descents (st_previous st) (valid_seqs runID ts)) (repeats ps (valid_seqs runID ts))
        (st_report st) \<and>
    st_fileSet (fold (scan_step runID) ts st) =
      fold update_fileSet (valid_seqs runID ts) (st_fileSet st)"
  using assms
proof (induction ts arbitrary: st ps)
  case Nil
  then show ?case by simp
next
  case (Cons t ts)
  show ?case
  proof (cases "line_seq runID t")
    case None
    let ?st = "st\<lparr>st_report := (if is_malformed t then bump 1 0 0 0 else bump 0 1 0 0) (st_report st)\<rparr>"
    have step: "scan_step runID t st = ?st"
      by (simp add: scan_step_cases None)
    show ?thesis
      using Cons.IH [of ?st ps] Cons.prems by (simp add: step None is_foreign_def)
  next
    case (Some q)
    then have m: "\<not> is_malformed t" using line_seq_malformed by force
    have len: "length ps + 1 < 2 ^ 64" using Cons.prems(2) by simp
    note step = scan_step_cases [of runID t st] and rec = scan_record_eq [OF Cons.prems(1) len, of q]
    let ?st = "scan_step runID t st"
    have "seen_repr (st_seen ?st) (ps @ [q])"
      using seen_repr_update [OF Cons.prems(1)] by (simp add: step m Some rec)
    from Cons.IH [OF this] Cons.prems(2) show ?thesis
      by (simp add: step m Some rec is_foreign_def)
  qed
qed

subsection \<open>All files\<close>

definition path_seqs :: "(string \<Rightarrow> file_read) \<Rightarrow> string \<Rightarrow> string \<Rightarrow> u64 list" where
  "path_seqs rd runID path = valid_seqs runID (file_tokens rd path)"

definition all_tokens :: "(string \<Rightarrow> file_read) \<Rightarrow> string list \<Rightarrow> string list" where
  "all_tokens rd paths = concat (map (file_tokens rd) paths)"

definition all_seqs :: "(string \<Rightarrow> file_read) \<Rightarrow> string \<Rightarrow> string list \<Rightarrow> u64 list" where
  "all_seqs rd runID paths = concat (map (path_seqs rd runID) paths)"

definition all_descents :: "(string \<Rightarrow> file_read) \<Rightarrow> string \<Rightarrow> string list \<Rightarrow> nat" where
  "all_descents rd runID paths = sum_list (map (\<lambda>p. descents 0 (path_seqs rd runID p)) paths)"

definition file_set :: "(string \<Rightarrow> file_read) \<Rightarrow> string \<Rightarrow> string \<Rightarrow> FileSet" where
  "file_set rd runID path = fold update_fileSet (path_seqs rd runID path) zero_FileSet"

definition add_files :: "(string \<Rightarrow> file_read) \<Rightarrow> string \<Rightarrow> string list \<Rightarrow>
    IntegrityReport \<Rightarrow> IntegrityReport" where
  "add_files rd runID paths r = r\<lparr>ir_Files :=
     fold (\<lambda>p. Mapping.update (path_base p) (file_set rd runID p)) paths (ir_Files r)\<rparr>"

lemma add_files_Cons [simp]:
  "add_files rd runID (p # ps) r = add_files rd runID ps
     (r\<lparr>ir_Files := Mapping.update (path_base p) (file_set rd runID p) (ir_Files r)\<rparr>)"
  by (simp add: add_files_def)

lemma add_files_Nil [simp]: "add_files rd runID [] r = r"
  by (simp add: add_files_def)

lemma add_files_bump: "add_files rd runID ps (bump m w d u r) = bump m w d u (add_files rd runID ps r)"
  by (simp add: add_files_def bump_def)

lemma bump_files: "(bump m w d u r)\<lparr>ir_Files := g\<rparr> = bump m w d u (r\<lparr>ir_Files := g\<rparr>)"
  by (simp add: bump_def)

lemma ir_Files_bump [simp]: "ir_Files (bump m w d u r) = ir_Files r"
  by (simp add: bump_def)

lemma repeats_append: "repeats ps (qs @ qs') = repeats ps qs + repeats (ps @ qs) qs'"
  by (induction qs arbitrary: ps) auto

lemma analyze_paths_clean:
  assumes "seen_repr seen ps" and "length ps + length (all_tokens rd paths) < 2 ^ 64"
    and "\<forall>p \<in> set paths. file_clean rd p"
  shows "\<exists>seen'. analyze_paths rd runID paths r seen =
      (bump (length (filter is_malformed (all_tokens rd paths)))
        (length (filter (is_foreign runID) (all_tokens rd paths)))
        (all_descents rd runID paths) (repeats ps (all_seqs rd runID paths))
        (add_files rd runID paths r), seen', None) \<and>
    seen_repr seen' (ps @ all_seqs rd runID paths)"
  using assms
proof (induction paths arbitrary: ps r seen)
  case Nil
  then show ?case by (simp add: all_tokens_def all_descents_def all_seqs_def)
next
  case (Cons p paths)
  from Cons.prems(3) obtain body ts where rd: "rd p = Contents body None"
    and scan: "scan_lines integrity_token_limit body = (ts, True)"
    by (auto simp: file_clean_def prod_eq_iff split: file_read.splits)
  let ?st = "\<lparr>st_report = r, st_seen = seen, st_fileSet = zero_FileSet, st_previous = 0\<rparr>"
  let ?st' = "fold (scan_step runID) ts ?st"
  have tok: "file_tokens rd p = ts" by (simp add: file_tokens_def rd scan)
  have len: "length ps + length ts < 2 ^ 64"
    using Cons.prems(2) by (simp add: all_tokens_def tok)
  have one: "seen_repr (st_seen ?st') (ps @ path_seqs rd runID p)"
      "st_report ?st' = bump (length (filter is_malformed ts)) (length (filter (is_foreign runID) ts))
        (descents 0 (path_seqs rd runID p)) (repeats ps (path_seqs rd runID p)) r"
      "st_fileSet ?st' = file_set rd runID p"
    using fold_scan_step [of ?st ps ts runID] Cons.prems(1) len
    by (simp_all add: path_seqs_def file_set_def tok)
  have "length (ps @ path_seqs rd runID p) + length (all_tokens rd paths) < 2 ^ 64"
    using Cons.prems(2) length_valid_seqs [of runID ts]
    by (simp add: all_tokens_def path_seqs_def tok)
  note IH = Cons.IH [OF one(1) this, of "(st_report ?st')\<lparr>ir_Files :=
      Mapping.update (path_base p) (st_fileSet ?st') (ir_Files (st_report ?st'))\<rparr>"]
  from IH Cons.prems(3) show ?case
    by (simp add: rd scan scan_error_def Let_def one(2,3) add_files_bump bump_files
        all_tokens_def tok all_descents_def all_seqs_def repeats_append)
qed

subsection \<open>The loop over the expected sequence numbers\<close>

lemma missing_loop_step:
  assumes "sequence \<noteq> - 1"
  shows "[unat sequence ..< Suc (unat (e :: u64))] =
    (if sequence \<le> e then unat sequence # [unat (sequence + 1) ..< Suc (unat e)] else [])"
  using assms by (simp add: upt_rec unat_u64_Suc word_le_nat_alt)

lemma missing_loop_eq:
  assumes "expected \<noteq> - 1"
  shows "missing_loop expected seen sequence r = Some
    (let ms = filter (\<lambda>q. seen_count seen q = 0) (map of_nat [unat sequence ..< Suc (unat expected)])
     in r\<lparr>ir_Missing := ir_Missing r + of_nat (length ms),
          ir_MissingExamples := ir_MissingExamples r @ take (100 - length (ir_MissingExamples r)) ms\<rparr>)"
proof (induction "Suc (unat expected) - unat sequence" arbitrary: sequence r)
  case 0
  then have "\<not> sequence \<le> expected" and "[unat sequence ..< Suc (unat expected)] = []"
    by (simp_all add: word_le_nat_alt)
  then show ?case by (simp add: missing_loop.simps)
next
  case (Suc k)
  then have le: "sequence \<le> expected" by (simp add: word_le_nat_alt)
  with assms have ne: "sequence \<noteq> - 1" by (metis word_order.extremum_uniqueI)
  have k: "k = Suc (unat expected) - unat (sequence + 1)"
    using Suc.hyps(2) by (simp add: unat_u64_Suc [OF ne])
  show ?case
    using Suc.hyps(1) [OF k] missing_loop_step [OF ne, of expected] le
    by (subst missing_loop.simps) (auto simp: Let_def Suc_diff_le take_Cons')
qed

lemma missing_loop_None: "missing_loop (- 1) seen sequence r = None"
proof (rule ccontr)
  assume "missing_loop (- 1) seen sequence r \<noteq> None"
  then obtain r' where "missing_loop (- 1) seen sequence r = Some r'" by blast
  moreover have "expected = - 1 \<longrightarrow> False"
    if "missing_loop expected seen sequence r = Some r'" for expected seen sequence r r'
  proof (rule missing_loop.raw_induct [where P = "\<lambda>e _ _ _ _. e = - 1 \<longrightarrow> False", OF _ that])
    fix f expected seen sequence r r'
    assume "\<And>e s q r r'. f e s q r = Some r' \<Longrightarrow> e = - 1 \<longrightarrow> False"
      and "(if sequence \<le> expected then
        (if seen_count seen sequence \<noteq> 0 then f expected seen (sequence + 1) r
         else f expected seen (sequence + 1)
           (let r = r\<lparr>ir_Missing := ir_Missing r + 1\<rparr> in
            if length (ir_MissingExamples r) < 100
            then r\<lparr>ir_MissingExamples := ir_MissingExamples r @ [sequence]\<rparr> else r))
      else Some r) = Some r'"
    then show "expected = - 1 \<longrightarrow> False" by (auto split: if_splits)
  qed
  ultimately show False by blast
qed

subsection \<open>The whole analysis\<close>

lemma analyze_paths_error_None:
  "snd (snd (analyze_paths rd runID paths r seen)) = None \<longleftrightarrow> (\<forall>p \<in> set paths. file_clean rd p)"
  by (induction paths arbitrary: r seen)
    (auto simp: file_clean_def scan_error_def Let_def split: file_read.splits prod.splits option.splits
       if_splits)

lemma Mapping_size_seen: "seen_repr m ps \<Longrightarrow> Mapping.size m = card (set ps)"
  by (simp add: seen_repr_def Mapping.size_def)

text \<open>The counters of a complete report, as numbers.\<close>

definition counts_are :: "IntegrityReport \<Rightarrow> nat \<Rightarrow> nat \<Rightarrow> nat \<Rightarrow> nat \<Rightarrow> nat \<Rightarrow> nat \<Rightarrow> bool" where
  "counts_are r valid missing dup mal wrong desc \<longleftrightarrow>
     unat (ir_ValidUnique r) = valid \<and> unat (ir_Missing r) = missing \<and>
     unat (ir_Duplicates r) = dup \<and> unat (ir_Malformed r) = mal \<and>
     unat (ir_WrongRunID r) = wrong \<and> unat (ir_DescendingTransitions r) = desc"

lemma descents_le: "descents p qs \<le> length qs"
  by (induction qs arbitrary: p) (auto intro: le_SucI)

lemma length_all_seqs: "length (all_seqs rd runID paths) \<le> length (all_tokens rd paths)"
  by (induction paths)
    (auto simp: all_seqs_def all_tokens_def path_seqs_def intro: add_mono length_valid_seqs)

lemma all_descents_le: "all_descents rd runID paths \<le> length (all_seqs rd runID paths)"
  by (induction paths) (auto simp: all_seqs_def all_descents_def intro: add_mono descents_le)

lemma length_missing_list: "length (missing_list e S) \<le> unat e"
  unfolding missing_list_def by (rule order_trans [OF length_filter_le]) simp

lemma Analyze_clean:
  assumes "\<forall>p \<in> set paths. file_clean rd p" and len: "length (all_tokens rd paths) < 2 ^ 64"
    and e: "expected \<noteq> - 1"
  shows "\<exists>r. Analyze rd runID expected paths = Some (r, None) \<and>
    counts_are r (card (set (all_seqs rd runID paths)))
      (length (missing_list expected (set (all_seqs rd runID paths))))
      (length (all_seqs rd runID paths) - card (set (all_seqs rd runID paths)))
      (length (filter is_malformed (all_tokens rd paths)))
      (length (filter (is_foreign runID) (all_tokens rd paths)))
      (all_descents rd runID paths) \<and>
    ir_MissingExamples r = take 100 (missing_list expected (set (all_seqs rd runID paths))) \<and>
    (ir_SchemaVersion r = SchemaVersion \<and> ir_Expected r = expected)"
proof -
  let ?qs = "all_seqs rd runID paths" and ?ts = "all_tokens rd paths"
  let ?r0 = "zero_IntegrityReport\<lparr>ir_SchemaVersion := SchemaVersion, ir_Expected := expected\<rparr>"
  obtain seen where run: "analyze_paths rd runID paths ?r0 Mapping.empty =
      (bump (length (filter is_malformed ?ts)) (length (filter (is_foreign runID) ?ts))
        (all_descents rd runID paths) (repeats [] ?qs) (add_files rd runID paths ?r0), seen, None)"
    and seen: "seen_repr seen ?qs"
    using analyze_paths_clean [of Mapping.empty "[]" rd paths runID ?r0] assms by auto
  have qs: "length ?qs < 2 ^ 64" using len length_all_seqs [of rd runID paths] by linarith
  have ms: "filter (\<lambda>q. seen_count seen q = 0) (map of_nat [1 ..< Suc (unat expected)]) =
      missing_list expected (set ?qs)"
    using seen_repr_count [OF seen qs] by (simp add: missing_list_def)
  have rep: "repeats [] ?qs = length ?qs - card (set ?qs)"
    using repeats_eq [of "[]" ?qs] by simp
  have card: "card (set ?qs) \<le> length ?qs" by (rule card_length)
  have small: "card (set ?qs) < 2 ^ 64" "length ?qs - card (set ?qs) < 2 ^ 64"
      "length (filter is_malformed ?ts) < 2 ^ 64" "length (filter (is_foreign runID) ?ts) < 2 ^ 64"
      "all_descents rd runID paths < 2 ^ 64" "length (missing_list expected (set ?qs)) < 2 ^ 64"
    using card qs len all_descents_le [of rd runID paths] length_filter_le [of is_malformed ?ts]
      length_filter_le [of "is_foreign runID" ?ts] length_missing_list [of expected "set ?qs"]
      unat_u64_less [of expected]
    by linarith+
  note loop = missing_loop_eq [OF e, of seen 1, simplified ms unat_1 Let_def]
  show ?thesis
    by (simp add: Analyze_def run loop Mapping_size_seen [OF seen] rep counts_are_def)
      (simp add: bump_def add_files_def zero_IntegrityReport_def small [THEN unat_of_nat_u64])
qed

subsection \<open>Properties\<close>

lemma set_upto_u64: "set (map of_nat [1 ..< Suc (unat e)]) = {q. 1 \<le> q \<and> q \<le> (e :: u64)}"
proof -
  have *: "of_nat k \<in> {q. 1 \<le> q \<and> q \<le> e}" if "1 \<le> k" "k \<le> unat e" for k
  proof -
    have "unat (of_nat k :: u64) = k"
      using that(2) unat_u64_less [of e] by (intro unat_of_nat_u64) linarith
    with that show ?thesis by (simp add: word_le_nat_alt)
  qed
  have "q \<in> of_nat ` {1 ..< Suc (unat e)}" if "1 \<le> q" "q \<le> e" for q
    using that by (intro image_eqI [of _ _ "unat q"]) (auto simp: word_le_nat_alt)
  with * show ?thesis by (auto simp del: upt_Suc atLeastLessThanSuc_atLeastAtMost)
qed

lemma set_missing_list: "set (missing_list e S) = {q. 1 \<le> q \<and> q \<le> e} - S"
  using set_upto_u64 [of e] by (auto simp: missing_list_def)

lemma distinct_upto_u64: "distinct (map (of_nat :: nat \<Rightarrow> u64) [1 ..< Suc (unat e)])"
  for e :: u64
proof -
  have "inj_on (of_nat :: nat \<Rightarrow> u64) {1 ..< Suc (unat e)}"
  proof (rule inj_onI)
    fix i j assume "i \<in> {1 ..< Suc (unat e)}" "j \<in> {1 ..< Suc (unat e)}"
      and eq: "(of_nat i :: u64) = of_nat j"
    then have "i < 2 ^ 64" "j < 2 ^ 64" using unat_u64_less [of e] by auto
    with eq show "i = j" by (metis unat_of_nat_u64)
  qed
  then show ?thesis by (simp add: distinct_map del: upt_Suc)
qed

lemma card_upto_u64: "card {q. 1 \<le> q \<and> q \<le> (e :: u64)} = unat e"
proof -
  have "card (set (map (of_nat :: nat \<Rightarrow> u64) [1 ..< Suc (unat e)])) = unat e"
    using distinct_card [OF distinct_upto_u64 [of e]] by simp
  then show ?thesis by (simp only: set_upto_u64)
qed

text \<open>C16: the counters of the report are what they claim to count. When every file can be read
  to its end, \<open>Analyze\<close> returns (for every expected count but the largest \<open>uint64\<close>) with no
  error; \<open>ValidUnique\<close> is the number of different sequence numbers of the valid records of the
  run, \<open>Missing\<close> the number of \<open>1..expected\<close> not among them (the first hundred listed in order),
  \<open>Duplicates\<close> the records beyond the first of their number, and \<open>Malformed\<close>, \<open>WrongRunID\<close> and
  \<open>DescendingTransitions\<close> count lines and in-file steps down; no counter wraps around.\<close>

theorem analyze_counts:
  assumes "\<forall>p \<in> set paths. file_clean rd p" and "length (all_tokens rd paths) < 2 ^ 64"
    and "expected \<noteq> - 1"
  shows "\<exists>r. Analyze rd runID expected paths = Some (r, None) \<and>
    (let qs = all_seqs rd runID paths; ts = all_tokens rd paths;
         ms = missing_list expected (set qs)
     in counts_are r (card (set qs)) (length ms) (length qs - card (set qs))
          (length (filter is_malformed ts)) (length (filter (is_foreign runID) ts))
          (all_descents rd runID paths) \<and>
        ir_MissingExamples r = take 100 ms)"
  using Analyze_clean [OF assms] by (auto simp: Let_def)

text \<open>A concrete log used by the witnesses: one file holding records 1, 3, 3 of run "r".\<close>

definition sample_lines :: "u64 list \<Rightarrow> string" where
  "sample_lines qs = concat (map (\<lambda>q. record_line (''r'', q, 24)) qs)"

definition sample_rd :: "u64 list \<Rightarrow> string \<Rightarrow> file_read" where
  "sample_rd qs path = Contents (sample_lines qs) None"

lemma scannable_sample: "scannable (''r'', q, 24)"
  by (simp add: scannable_def integrity_token_limit_def valid_run_id_def contains_any_def)

lemma scan_sample: "scan_lines integrity_token_limit (sample_lines qs) =
    (map (\<lambda>q. butlast (record_line (''r'', q, 24))) qs, True)"
  using log_record.scan_all [of "map (\<lambda>q. (''r'', q, 24)) qs"] scannable_sample
  by (simp add: sample_lines_def comp_def)

lemma line_seq_record:
  assumes "scannable (r, q, n)"
  shows "line_seq r (butlast (record_line (r, q, n))) = Some q"
    and "\<not> is_malformed (butlast (record_line (r, q, n)))"
  using log_record.dec_scanned [OF assms]
  by (simp_all add: line_seq_def is_malformed_def record_view_def)

lemma valid_seqs_records:
  assumes "\<forall>q \<in> set qs. scannable (r, q, n)"
  shows "valid_seqs r (map (\<lambda>q. butlast (record_line (r, q, n))) qs) = qs"
  using assms by (induction qs) (simp_all add: line_seq_record)

lemma sample_facts:
  "file_clean (sample_rd qs) p"
  "all_tokens (sample_rd qs) [p] = map (\<lambda>q. butlast (record_line (''r'', q, 24))) qs"
  "all_seqs (sample_rd qs) ''r'' [p] = qs"
  using valid_seqs_records [of qs "''r''" 24] scannable_sample
  by (simp_all add: file_clean_def sample_rd_def scan_sample all_tokens_def file_tokens_def
      all_seqs_def path_seqs_def)

theorem analyze_counts_witness:
  "\<exists>r. Analyze (sample_rd [1, 3, 3]) ''r'' 4 [''a.log''] = Some (r, None) \<and>
     unat (ir_ValidUnique r) = 2 \<and> unat (ir_Missing r) = 2 \<and> unat (ir_Duplicates r) = 1 \<and>
     ir_MissingExamples r = [2, 4]"
proof -
  have ms: "missing_list 4 (set [1, 3, 3]) = [2, 4]"
    by (simp add: missing_list_def upt_rec)
  show ?thesis
    using analyze_counts [of "[''a.log'']" "sample_rd [1, 3, 3]" 4 "''r''"]
    by (auto simp: sample_facts counts_are_def Let_def ms [simplified])
qed

lemma Analyze_None_iff:
  "Analyze rd runID expected paths = None \<longleftrightarrow>
     expected = - 1 \<and> (\<forall>p \<in> set paths. file_clean rd p)"
proof -
  let ?r0 = "zero_IntegrityReport\<lparr>ir_SchemaVersion := SchemaVersion, ir_Expected := expected\<rparr>"
  obtain r seen e where run: "analyze_paths rd runID paths ?r0 Mapping.empty = (r, seen, e)"
    by (cases "analyze_paths rd runID paths ?r0 Mapping.empty") auto
  have e: "e = None \<longleftrightarrow> (\<forall>p \<in> set paths. file_clean rd p)"
    using analyze_paths_error_None [of rd runID paths ?r0 Mapping.empty] by (simp add: run)
  have loop: "missing_loop expected seen 1 r = None \<longleftrightarrow> expected = - 1" for r
    by (cases "expected = - 1") (simp_all add: missing_loop_None missing_loop_eq Let_def)
  show ?thesis
    by (cases e) (simp_all add: Analyze_def run loop flip: e)
qed

text \<open>C18: \<open>Analyze\<close> fails to return exactly when the expected count is the largest \<open>uint64\<close> and
  no file stops the scan with an error: then \<open>sequence <= expected\<close> can never become false.
  In every other case it returns a report.\<close>

theorem analyze_returns_iff:
  "Analyze rd runID expected paths = None \<longleftrightarrow>
     expected = - 1 \<and> (\<forall>p \<in> set paths. file_clean rd p)"
  by (rule Analyze_None_iff)

theorem analyze_returns_iff_witness:
  "Analyze (sample_rd [1]) ''r'' (- 1) [''a.log''] = None \<and>
   Analyze (sample_rd [1]) ''r'' 4 [''a.log''] \<noteq> None"
  using analyze_returns_iff [of "sample_rd [1]" "''r''" "- 1" "[''a.log'']"]
    analyze_returns_iff [of "sample_rd [1]" "''r''" 4 "[''a.log'']"]
  by (simp add: sample_facts del: not_None_eq)

lemma clean_lines_iff:
  "filter is_malformed ts = [] \<and> filter (is_foreign runID) ts = [] \<longleftrightarrow>
   (\<forall>t \<in> set ts. line_seq runID t \<noteq> None)"
  using line_seq_malformed [of _ runID] by (auto simp: is_foreign_def filter_empty_conv)

lemma descents_0_iff: "descents p qs = 0 \<longleftrightarrow> sorted (p # qs)"
proof (induction qs arbitrary: p)
  case Nil
  then show ?case by simp
next
  case (Cons q qs)
  then show ?case by (auto simp: not_less intro: order_trans)
qed

lemma clean_report_char:
  assumes "\<forall>p \<in> set paths. file_clean rd p" and "length (all_tokens rd paths) < 2 ^ 64"
    and "Analyze rd runID expected paths = Some (r, None)"
  shows "ir_Malformed r = 0 \<and> ir_WrongRunID r = 0 \<and> ir_Missing r = 0 \<and> ir_Duplicates r = 0 \<and>
      ir_DescendingTransitions r = 0 \<and> ir_ValidUnique r = expected \<longleftrightarrow>
    (\<forall>t \<in> set (all_tokens rd paths). line_seq runID t \<noteq> None) \<and>
    distinct (all_seqs rd runID paths) \<and>
    set (all_seqs rd runID paths) = {q. 1 \<le> q \<and> q \<le> expected} \<and>
    (\<forall>p \<in> set paths. sorted (path_seqs rd runID p))"
proof -
  let ?qs = "all_seqs rd runID paths" and ?E = "{q. 1 \<le> q \<and> q \<le> expected}"
  have "expected \<noteq> - 1"
    using assms(1,3) Analyze_None_iff [of rd runID expected paths] by auto
  from Analyze_clean [OF assms(1,2) this, of runID] assms(3) have
    c: "counts_are r (card (set ?qs)) (length (missing_list expected (set ?qs)))
      (length ?qs - card (set ?qs)) (length (filter is_malformed (all_tokens rd paths)))
      (length (filter (is_foreign runID) (all_tokens rd paths))) (all_descents rd runID paths)"
    by auto
  have z: "w = 0 \<longleftrightarrow> n = 0" if "unat w = n" for w :: u64 and n
    using that by (metis unat_0 unat_eq_zero)
  have dup: "length ?qs - card (set ?qs) = 0 \<longleftrightarrow> distinct ?qs"
    by (metis card_distinct card_length diff_is_0_eq distinct_card le_antisym order_refl)
  have miss: "missing_list expected (set ?qs) = [] \<longleftrightarrow> ?E \<subseteq> set ?qs"
    by (simp only: set_empty [symmetric] set_missing_list Diff_eq_empty_iff)
  have uniq: "ir_ValidUnique r = expected \<longleftrightarrow> card (set ?qs) = card ?E"
    using c word_unat_eq_iff [of "ir_ValidUnique r" expected]
    by (simp add: counts_are_def card_upto_u64 eq_commute)
  have desc: "all_descents rd runID paths = 0 \<longleftrightarrow> (\<forall>p \<in> set paths. sorted (path_seqs rd runID p))"
    by (auto simp: all_descents_def descents_0_iff)
  have "?E \<subseteq> set ?qs \<and> card (set ?qs) = card ?E \<longleftrightarrow> set ?qs = ?E"
    using card_subset_eq [of "set ?qs" ?E] by auto
  moreover have "ir_Malformed r = 0 \<and> ir_WrongRunID r = 0 \<longleftrightarrow>
      (\<forall>t \<in> set (all_tokens rd paths). line_seq runID t \<noteq> None)"
    using c clean_lines_iff [of "all_tokens rd paths" runID] by (simp add: counts_are_def z)
  moreover have "ir_Missing r = 0 \<longleftrightarrow> ?E \<subseteq> set ?qs" "ir_Duplicates r = 0 \<longleftrightarrow> distinct ?qs"
      "ir_DescendingTransitions r = 0 \<longleftrightarrow> (\<forall>p \<in> set paths. sorted (path_seqs rd runID p))"
    using c z miss dup desc by (simp_all only: counts_are_def length_0_conv)
  ultimately show ?thesis using uniq by blast
qed

text \<open>C17: what a clean report certifies. All counters are zero and every expected record was
  found exactly when every line of every file is a record of the run and the records of all
  files together are the numbers \<open>1..expected\<close>, each once, in ascending order within each file.\<close>

theorem clean_report_iff:
  assumes "\<forall>p \<in> set paths. file_clean rd p" and "length (all_tokens rd paths) < 2 ^ 64"
    and "Analyze rd runID expected paths = Some (r, None)"
  shows "ir_Malformed r = 0 \<and> ir_WrongRunID r = 0 \<and> ir_Missing r = 0 \<and> ir_Duplicates r = 0 \<and>
      ir_DescendingTransitions r = 0 \<and> ir_ValidUnique r = expected \<longleftrightarrow>
    (\<forall>t \<in> set (all_tokens rd paths). line_seq runID t \<noteq> None) \<and>
    distinct (all_seqs rd runID paths) \<and>
    set (all_seqs rd runID paths) = {q. 1 \<le> q \<and> q \<le> expected} \<and>
    (\<forall>p \<in> set paths. sorted (path_seqs rd runID p))"
  by (rule clean_report_char [OF assms])

theorem clean_report_iff_witness:
  "\<exists>r. Analyze (sample_rd [1, 2, 3]) ''r'' 3 [''a.log''] = Some (r, None) \<and>
     ir_Missing r = 0 \<and> ir_Duplicates r = 0 \<and> ir_ValidUnique r = 3"
proof -
  have len: "length (all_tokens (sample_rd [1, 2, 3]) [''a.log'']) < 2 ^ 64"
    by (simp add: sample_facts)
  obtain r where r: "Analyze (sample_rd [1, 2, 3]) ''r'' 3 [''a.log''] = Some (r, None)"
    using Analyze_clean [of "[''a.log'']" "sample_rd [1, 2, 3]" 3 "''r''"] len
    by (auto simp: sample_facts(1))
  have "set [1, 2, 3 :: u64] = {q. 1 \<le> q \<and> q \<le> 3}"
    using set_upto_u64 [of 3] by (simp add: upt_rec)
  moreover have "path_seqs (sample_rd [1, 2, 3]) ''r'' ''a.log'' = [1, 2, 3]"
    using sample_facts(3) [of "[1, 2, 3]" "''a.log''"] by (simp add: all_seqs_def)
  ultimately have "ir_Missing r = 0 \<and> ir_Duplicates r = 0 \<and> ir_ValidUnique r = 3"
    using clean_report_iff [OF _ len r, THEN iffD2] line_seq_record(1) [OF scannable_sample]
    by (simp add: sample_facts)
  with r show ?thesis by blast
qed

end
