(* ===== verification/Rotator.thy ===== *)
theory Rotator
  imports World Csv "HOL-Library.Char_ord" "HOL-Library.List_Lexorder"
begin

text \<open>
  \<open>internal/rotator\<close>: the event log, the two rotation algorithms, retention and the polling loop,
  as programs of \<open>World\<close>, statement by statement. Every function of \<open>rotator.go\<close>,
  \<open>copytruncate.go\<close> and \<open>renamereopen.go\<close> has a definition of its name.

  Not modelled: file modes and owners, the poll interval, closing a file again after an error
  (deferred calls without effect on the files), the 4 KiB buffer of the CSV writer (an event is
  one write), and active paths with pattern characters, which \<open>filepath.Glob\<close> would interpret.
\<close>

record RotatorConfig =
  rc_Strategy :: Strategy
  rc_ActivePath :: string
  rc_ReopenURL :: string
  rc_EventPath :: string
  rc_MaxFileBytes :: int
  rc_Rotations :: int
  rc_MaxBackups :: int
  rc_PollInterval :: int
  rc_StartTime :: "int option"

definition event :: "int \<Rightarrow> string \<Rightarrow> int \<Rightarrow> string \<Rightarrow> RotationEvent" where
  "event ordinal phase bytes err = \<lparr>ev_ElapsedNS = 0, ev_Timestamp = [], ev_Ordinal = ordinal,
     ev_Phase = phase, ev_Bytes = bytes, ev_Error = err\<rparr>"

definition BackupPath :: "string \<Rightarrow> int \<Rightarrow> string" where
  "BackupPath active ordinal = active @ ''.'' @ fmt_06d ordinal"

subsection \<open>The event log\<close>

definition event_header :: "string list" where
  "event_header = [''elapsed_ns'', ''timestamp'', ''ordinal'', ''phase'', ''bytes'', ''error'']"

definition event_row :: "RotationEvent \<Rightarrow> string list" where
  "event_row ev = [format_int (ev_ElapsedNS ev), ev_Timestamp ev, format_int (ev_Ordinal ev),
     ev_Phase ev, format_int (ev_Bytes ev), ev_Error ev]"

definition stamp_event :: "int option \<Rightarrow> int \<Rightarrow> RotationEvent \<Rightarrow> RotationEvent" where
  "stamp_event start now ev = ev\<lparr>ev_ElapsedNS := time_sub now (case start of Some t \<Rightarrow> t | None \<Rightarrow> now),
     ev_Timestamp := rfc3339_nano now\<rparr>"

definition write_event :: "RotationEvent \<Rightarrow> ino \<Rightarrow> unit io" where
  "write_event ev f w =
     (case sys_fstat f w of
        (Inr 0, w) \<Rightarrow> sys_write f (csv_row event_header @ csv_row (event_row ev)) w
      | (_, w) \<Rightarrow> sys_write f (csv_row (event_row ev)) w)"

text \<open>A zero \<open>StartTime\<close> is replaced by the time of the call, read once more before the event's own.\<close>

definition start_time :: "int option \<Rightarrow> world \<Rightarrow> int option \<times> world" where
  "start_time start w =
     (case start of Some t \<Rightarrow> (Some t, w) | None \<Rightarrow> (case sys_now w of (t, w) \<Rightarrow> (Some t, w)))"

definition appendEvent :: "RotatorConfig \<Rightarrow> RotationEvent \<Rightarrow> unit io" where
  "appendEvent cfg ev w =
     (if rc_EventPath cfg = [] then (Inr (), w)
      else
        (let (start, w) = start_time (rc_StartTime cfg) w; (now, w) = sys_now w;
             ev = stamp_event start now ev
         in try_io (sys_quiet ''mkdir'' (path_dir (rc_EventPath cfg))) id (\<lambda>_.
            try_io (sys_open_append (rc_EventPath cfg)) id (\<lambda>f.
            write_event ev f)) w))"

definition decode_event :: "string list \<Rightarrow> RotationEvent" where
  "decode_event row = \<lparr>ev_ElapsedNS = fst (parse_int (row ! 0)), ev_Timestamp = row ! 1,
     ev_Ordinal = fst (atoi (row ! 2)), ev_Phase = row ! 3, ev_Bytes = fst (parse_int (row ! 4)),
     ev_Error = row ! 5\<rparr>"

definition decode_events :: "string list list \<Rightarrow> RotationEvent list" where
  "decode_events rows = map decode_event (filter (\<lambda>row. 6 \<le> length row) (drop 1 rows))"

text \<open>\<open>ReadEvents\<close>, given what opening and reading the file yields.\<close>

definition ReadEvents :: "string result \<Rightarrow> RotationEvent list result" where
  "ReadEvents input =
     (case input of
        Inl e \<Rightarrow> Inl e
      | Inr text \<Rightarrow>
          (case csv_read_all text of
             Inl e \<Rightarrow> Inl (ErrText (csv_error_text e))
           | Inr rows \<Rightarrow> Inr (decode_events rows)))"

subsection \<open>Copytruncate\<close>

function copy_loop :: "ino \<Rightarrow> ino \<Rightarrow> nat \<Rightarrow> nat io" where
  "copy_loop src dst pos w =
     (case sys_read src pos w of
        (Inl e, w) \<Rightarrow> (Inl e, w)
      | (Inr data, w1) \<Rightarrow>
          (if data = [] then (Inr pos, w1)
           else case sys_write dst data w1 of
             (Inl e, w) \<Rightarrow> (Inl e, w)
           | (Inr _, w2) \<Rightarrow> copy_loop src dst (pos + length data) w2))"
  by pat_completeness auto
termination
proof (relation "measure (\<lambda>(src, dst, pos, w). slots w)", goal_cases)
  case (2 src dst pos w r w1 data r2 w2 u)
  then have "slots w1 < slots w" "slots w2 \<le> slots w1"
    using sys_read_slots [of src pos w "Inr data" w1] sys_write_slots [of dst data w1 r2 w2] by auto
  then show ?case by simp
qed simp

declare copy_loop.simps [simp del]

text \<open>\<open>copy_backup\<close> are the lines from opening the source to closing the backup, \<open>truncate_active\<close>
  those after the "copy-synced" event.\<close>

definition copy_backup :: "RotatorConfig \<Rightarrow> int \<Rightarrow> nat io" where
  "copy_backup cfg ordinal =
     (let backup = BackupPath (rc_ActivePath cfg) ordinal in
     try_io (sys_open (rc_ActivePath cfg)) (Wrap ''open source: '') (\<lambda>src.
     try_io (sys_open_excl backup) (Wrap ''create backup: '') (\<lambda>dst.
     try_io (copy_loop src dst 0) (Wrap ''copy: '') (\<lambda>written.
     try_io (sys_quiet ''sync'' backup) (Wrap ''sync backup: '') (\<lambda>_.
     try_io (sys_quiet ''close'' backup) (Wrap ''close backup: '') (\<lambda>_.
     return_io written))))))"

definition truncate_active :: "RotatorConfig \<Rightarrow> int \<Rightarrow> nat \<Rightarrow> unit io" where
  "truncate_active cfg ordinal written =
     try_io (sys_truncate (rc_ActivePath cfg)) (Wrap ''truncate active: '') (\<lambda>_.
     appendEvent cfg (event ordinal ''truncate'' (int written) []))"

definition rotateCopyTruncate :: "RotatorConfig \<Rightarrow> int \<Rightarrow> unit io" where
  "rotateCopyTruncate cfg ordinal =
     try_io (appendEvent cfg (event ordinal ''copy-start'' 0 [])) id (\<lambda>_.
     try_io (copy_backup cfg ordinal) id (\<lambda>written.
     try_io (appendEvent cfg (event ordinal ''copy-synced'' (int written) [])) id (\<lambda>_.
     truncate_active cfg ordinal written)))"

subsection \<open>Rename and reopen\<close>

text \<open>\<open>http.NewRequestWithContext\<close> fails when the URL does not parse (\<open>url_error\<close>).\<close>

definition new_request :: "string \<Rightarrow> unit io" where
  "new_request url w = (case url_error w url of Some e \<Rightarrow> (Inl e, w) | None \<Rightarrow> (Inr (), w))"

definition request_reopen :: "RotatorConfig \<Rightarrow> int \<Rightarrow> unit io" where
  "request_reopen cfg ordinal =
     (if rc_ReopenURL cfg = [] then fail_io (ErrText ''reopen URL is required'')
      else
      try_io (new_request (rc_ReopenURL cfg @ ''/reopen-logs'')) id (\<lambda>_.
      try_io http_post (Wrap ''request reopen: '') (\<lambda>status.
      if status \<noteq> 200 then fail_io (ErrText (''reopen status '' @ dec status))
      else appendEvent cfg (event ordinal ''reopen-requested'' 0 []))))"

definition replace_active :: "RotatorConfig \<Rightarrow> int \<Rightarrow> unit io" where
  "replace_active cfg ordinal =
     (let active = rc_ActivePath cfg in
     try_io (sys_open_excl active) (Wrap ''create replacement: '') (\<lambda>f.
     try_io (sys_quiet ''close'' active) (Wrap ''close replacement: '') (\<lambda>_.
     try_io (sys_on_path ''chown'' active) (Wrap ''chown replacement: '') (\<lambda>_.
     try_io (sys_on_path ''chmod'' active) (Wrap ''chmod replacement: '') (\<lambda>_.
     try_io (appendEvent cfg (event ordinal ''replacement-created'' 0 [])) id (\<lambda>_.
     request_reopen cfg ordinal))))))"

definition rotateRenameReopen :: "RotatorConfig \<Rightarrow> int \<Rightarrow> nat \<Rightarrow> unit io" where
  "rotateRenameReopen cfg ordinal info_size =
     (let active = rc_ActivePath cfg; backup = BackupPath active ordinal in
     try_io (sys_rename active backup) (Wrap ''rename active: '') (\<lambda>_.
     try_io (appendEvent cfg (event ordinal ''rename'' (int info_size) [])) id (\<lambda>_.
     replace_active cfg ordinal)))"

subsection \<open>Retention\<close>

text \<open>\<open>filepath.Glob(active + ".*")\<close>: the names in the directory of \<open>active\<close> that extend
  \<open>active.\<close>, sorted; an unreadable directory has no matches.\<close>

definition backup_name :: "string \<Rightarrow> string \<Rightarrow> bool" where
  "backup_name active p \<longleftrightarrow>
     has_prefix p (active @ ''.'') \<and> CHR ''/'' \<notin> set (trim_prefix p (active @ ''.''))"

definition glob_backups :: "string \<Rightarrow> fs \<Rightarrow> string list" where
  "glob_backups active fs = sort (filter (backup_name active) (map fst (dirents fs)))"

definition sys_glob :: "string \<Rightarrow> world \<Rightarrow> string list \<times> world" where
  "sys_glob active w =
     (case take_slot w of (s, w) \<Rightarrow>
        ((case sl_fault s of Some e \<Rightarrow> [] | None \<Rightarrow> glob_backups active (files w)), w))"

definition backup_ordinals :: "string \<Rightarrow> string list \<Rightarrow> (string \<times> int) list" where
  "backup_ordinals active matches =
     List.map_filter (\<lambda>p. case atoi (trim_prefix p (active @ ''.'')) of
        (n, None) \<Rightarrow> Some (p, n) | (_, Some e) \<Rightarrow> None) matches"

fun remove_excess :: "int \<Rightarrow> (string \<times> int) list \<Rightarrow> unit io" where
  "remove_excess maxBackups [] = return_io ()"
| "remove_excess maxBackups (b # bs) =
     (if maxBackups < int (length (b # bs))
      then try_io (sys_remove (fst b)) id (\<lambda>_. remove_excess maxBackups bs)
      else return_io ())"

definition EnforceRetention :: "string \<Rightarrow> int \<Rightarrow> unit io" where
  "EnforceRetention active maxBackups w =
     (if maxBackups \<le> 0 then (Inr (), w)
      else case sys_glob active w of
        (matches, w) \<Rightarrow> remove_excess maxBackups (sort_key snd (backup_ordinals active matches)) w)"

subsection \<open>The polling loop\<close>

definition rotate_files :: "RotatorConfig \<Rightarrow> int \<Rightarrow> nat \<Rightarrow> unit io" where
  "rotate_files cfg ordinal info_size =
     (if rc_Strategy cfg = CopyTruncate then rotateCopyTruncate cfg ordinal
      else if rc_Strategy cfg = RenameReopen then rotateRenameReopen cfg ordinal info_size
      else fail_io (ErrText (''unknown strategy '' @ QT # rc_Strategy cfg @ [QT])))"

definition RotateOnce :: "RotatorConfig \<Rightarrow> int \<Rightarrow> unit io" where
  "RotateOnce cfg ordinal =
     try_io (sys_stat (rc_ActivePath cfg)) (Wrap ''stat active log: '') (\<lambda>info_size.
     try_io (appendEvent cfg (event ordinal ''threshold'' (int info_size) [])) id (\<lambda>_.
     try_io (rotate_files cfg ordinal info_size)
       (Wrap (rc_Strategy cfg @ '' rotation '' @ format_int ordinal @ '': '')) (\<lambda>_.
     try_io (EnforceRetention (rc_ActivePath cfg) (rc_MaxBackups cfg)) (Wrap ''retention: '') (\<lambda>_.
     appendEvent cfg (event ordinal ''retention-complete'' (int info_size) [])))))"

lemma gain_write_event [gain]: "no_gain (write_event ev f)"
proof (rule no_gainI)
  fix w r w'
  assume t: "write_event ev f w = (r, w')"
  obtain n w1 where 1: "sys_fstat f w = (n, w1)" by fastforce
  obtain d where "sys_write f d w1 = (r, w')"
    using t by (auto simp: write_event_def 1 split: sum.splits nat.splits)
  from used_trans [OF no_gain_used [OF gain_basic(8) 1] no_gain_used [OF gain_basic(5) this]]
  show "used w w'" .
qed

lemma gain_start [gain]: "no_gain (start_time st)"
  using no_gain_used [OF gain_basic(6)]
  by (intro no_gainI) (auto simp: start_time_def split: option.splits prod.splits)

lemma gain_append [gain]: "no_gain (appendEvent cfg ev)"
proof (rule no_gainI)
  fix w r w'
  assume t: "appendEvent cfg ev w = (r, w')"
  show "used w w'"
  proof (cases "rc_EventPath cfg = []")
    case False
    obtain st w1 where 1: "start_time (rc_StartTime cfg) w = (st, w1)" by fastforce
    obtain n w2 where 2: "sys_now w1 = (n, w2)" by fastforce
    let ?m = "try_io (sys_quiet ''mkdir'' (path_dir (rc_EventPath cfg))) id (\<lambda>_.
        try_io (sys_open_append (rc_EventPath cfg)) id (\<lambda>f. write_event (stamp_event st n ev) f))"
    have m: "no_gain ?m" by (intro gain)
    have "?m w2 = (r, w')" using t False 1 2 by (simp add: appendEvent_def)
    from used_trans [OF no_gain_used [OF gain_start 1] used_trans [OF no_gain_used [OF gain_basic(6) 2]
        no_gain_used [OF m this]]] show ?thesis .
  qed (use t in \<open>simp add: appendEvent_def\<close>)
qed

lemma gain_copy [gain]: "no_gain (copy_loop src dst pos)"
proof -
  have "used w (snd (copy_loop src dst pos w))" for w
  proof (induction src dst pos w rule: copy_loop.induct)
    case (1 src dst pos w)
    obtain r w1 where r: "sys_read src pos w = (r, w1)" by fastforce
    note u1 = no_gain_used [OF gain_basic(4) r]
    show ?case
    proof (cases r)
      case (Inr data)
      obtain r2 w2 where 2: "sys_write dst data w1 = (r2, w2)" by fastforce
      note u2 = used_trans [OF u1 no_gain_used [OF gain_basic(5) 2]]
      consider "data = []" | e where "data \<noteq> []" "r2 = Inl e" | u where "data \<noteq> []" "r2 = Inr u"
        by (cases r2) auto
      then show ?thesis
      proof cases
        case 3
        from used_trans [OF u2 "1.IH" [OF r [symmetric, unfolded Inr] refl 3(1) 2 [symmetric] 3(2)]] 3 r 2 Inr
        show ?thesis by (subst copy_loop.simps) simp
      qed (use r 2 Inr u1 u2 in \<open>subst copy_loop.simps, simp\<close>)+
    qed (use r u1 in \<open>subst copy_loop.simps, simp\<close>)
  qed
  then show ?thesis by (simp add: no_gain_def)
qed

lemma gain_new_request [gain]: "no_gain (new_request url)"
  by (simp add: no_gain_def new_request_def split: option.split)

lemma gain_remove [gain]: "no_gain (remove_excess m bs)"
  by (induction bs) (auto intro!: gain)

lemma gain_retention [gain]: "no_gain (EnforceRetention active m)"
proof (rule no_gainI)
  fix w r w'
  assume t: "EnforceRetention active m w = (r, w')"
  show "used w w'"
  proof (cases "m \<le> 0")
    case False
    obtain sl w1 where s: "take_slot w = (sl, w1)" by fastforce
    then obtain ms where "sys_glob active w = (ms, w1)" by (simp add: sys_glob_def)
    with t False have "remove_excess m (sort_key snd (backup_ordinals active ms)) w1 = (r, w')"
      by (simp add: EnforceRetention_def)
    from used_trans [OF take_slot_used [OF s] no_gain_used [OF gain_remove this]] show ?thesis .
  qed (use t in \<open>simp add: EnforceRetention_def\<close>)
qed

lemma gain_rotate [gain]:
  "no_gain (rotateCopyTruncate cfg ordinal)" "no_gain (rotateRenameReopen cfg ordinal info_size)"
  "no_gain (rotate_files cfg ordinal info_size)"
  by (auto simp: rotateCopyTruncate_def copy_backup_def truncate_active_def rotateRenameReopen_def
      replace_active_def request_reopen_def rotate_files_def Let_def intro!: gain)

lemma gain_rotate_once [gain]: "no_gain (RotateOnce cfg ordinal)"
  by (auto simp: RotateOnce_def intro!: gain)

text \<open>One round of a select statement: \<open>ctx.Done()\<close> or the ticker.\<close>

definition select_tick :: "world \<Rightarrow> bool \<times> world" where
  "select_tick w = (case take_slot w of (s, w) \<Rightarrow> (sl_done s, w))"

lemma select_tick_less: "select_tick w = (False, w') \<Longrightarrow> slots w' < slots w"
  by (auto simp: select_tick_def dest: take_slot_less split: prod.splits)

lemma tick_stat_less:
  "(False, w1) = select_tick w \<Longrightarrow> (r, w2) = sys_stat p w1 \<Longrightarrow> slots w2 < slots w"
  using select_tick_less [of w w1] no_gainD [OF gain_sys(1), of p w1 r w2] by simp

lemma rotate_once_le: "(r, w2) = RotateOnce cfg ordinal w1 \<Longrightarrow> slots w2 \<le> slots w1"
  using no_gainD [OF gain_rotate_once, of cfg ordinal w1 r w2] by simp

definition context_canceled :: go_error where
  "context_canceled = ErrText ''context canceled''"

definition rotation_failed :: "RotatorConfig \<Rightarrow> int \<Rightarrow> nat \<Rightarrow> go_error \<Rightarrow> unit io" where
  "rotation_failed cfg ordinal info_size err w =
     (case appendEvent cfg (event ordinal ''rotation-failed'' (int info_size) (error_text err)) w of
        (_, w) \<Rightarrow> (Inl err, w))"

function run_loop :: "RotatorConfig \<Rightarrow> int \<Rightarrow> unit io" where
  "run_loop cfg ordinal w =
     (case select_tick w of
        (True, w) \<Rightarrow> (Inl context_canceled, w)
      | (False, w1) \<Rightarrow>
          (case sys_stat (rc_ActivePath cfg) w1 of
             (Inl err, w2) \<Rightarrow>
               (if is_not_exist err then run_loop cfg ordinal w2 else (Inl err, w2))
           | (Inr info_size, w2) \<Rightarrow>
               (if int info_size < rc_MaxFileBytes cfg then run_loop cfg ordinal w2
                else case RotateOnce cfg ordinal w2 of
                  (Inl err, w3) \<Rightarrow> rotation_failed cfg ordinal info_size err w3
                | (Inr _, w3) \<Rightarrow>
                    (if rc_Rotations cfg < wrap64 (ordinal + 1) then (Inr (), w3)
                     else run_loop cfg (wrap64 (ordinal + 1)) w3))))"
  by pat_completeness auto
termination
  by (relation "measure (\<lambda>(cfg, ordinal, w). slots w)")
    (simp_all, (blast dest: tick_stat_less rotate_once_le intro: le_less_trans)+)

declare run_loop.simps [simp del]

function baseline_loop :: "RotatorConfig \<Rightarrow> int \<Rightarrow> unit io" where
  "baseline_loop cfg target w =
     (case select_tick w of
        (True, w) \<Rightarrow> (Inl context_canceled, w)
      | (False, w1) \<Rightarrow>
          (case sys_stat (rc_ActivePath cfg) w1 of
             (Inl err, w2) \<Rightarrow>
               (if is_not_exist err then baseline_loop cfg target w2 else (Inl err, w2))
           | (Inr info_size, w2) \<Rightarrow>
               (if int info_size < target then baseline_loop cfg target w2
                else try_io (appendEvent cfg (event 1 ''threshold'' (int info_size) [])) id
                  (\<lambda>_. appendEvent cfg (event 1 ''baseline-complete'' (int info_size) [])) w2)))"
  by pat_completeness auto
termination
  by (relation "measure (\<lambda>(cfg, target, w). slots w)")
    (simp_all, (blast dest: tick_stat_less)+)

declare baseline_loop.simps [simp del]

definition poll_interval :: "RotatorConfig \<Rightarrow> int" where
  "poll_interval cfg = (if rc_PollInterval cfg \<le> 0 then 20 * 10 ^ 6 else rc_PollInterval cfg)"

definition Run :: "RotatorConfig \<Rightarrow> unit io" where
  "Run cfg w =
     (if rc_MaxFileBytes cfg \<le> 0 \<or> rc_Rotations cfg \<le> 0
      then (Inl (ErrText ''max file bytes and rotations must be positive''), w)
      else
        let cfg = cfg\<lparr>rc_PollInterval := poll_interval cfg\<rparr> in
        if rc_Strategy cfg = Baseline then
          (let target = wrap64 (rc_MaxFileBytes cfg * rc_Rotations cfg) in
           if go_div target (rc_Rotations cfg) \<noteq> rc_MaxFileBytes cfg
           then (Inl (ErrText ''baseline target overflows''), w)
           else baseline_loop cfg target w)
        else run_loop cfg 1 w)"

end
