(* ===== verification/Harness.thy ===== *)
theory Harness
  imports Metrics Monitor Integrity Rotator
begin

text \<open>
  \<open>internal/harness/run.go\<close>: one experiment. \<open>Run\<close> starts the writer, the monitor and the rotator as
  child processes, waits for the rotator, stops the others, and turns the files they left into the
  summary. The operating system, the clock, HTTP, \<open>encoding/json\<close> and the reports' writing are the
  fields of a \<open>lab_env\<close>, functions on a world \<open>'w\<close> of any type about which nothing is assumed. The
  process table is kept beside the world: \<open>running\<close> are the children started and not yet waited for.

  Not modelled: closing the children's log files (deferred, without effect on the result).
\<close>

record HarnessConfig =
  hc_Executable :: string
  hc_WriterExecutable :: string
  hc_RunID :: string
  hc_Strategy :: Strategy
  hc_LogDir :: string
  hc_ResultDir :: string
  hc_MaxFileBytes :: int
  hc_Rotations :: int
  hc_MaxBackups :: int
  hc_RecordBytes :: int
  hc_BytesPerSecond :: int
  hc_BufferBytes :: int
  hc_FlushInterval :: int
  hc_MonitorInterval :: int
  hc_ResidentBytes :: int
  hc_EnableMonitor :: bool

text \<open>What \<open>cmd.Wait\<close> returns besides nil: an \<open>*exec.ExitError\<close> with its code, or any other error.
  A \<open>poll\<close> is one round of a waiting loop: the response (status and body), and whether the context
  ended before the next round.\<close>

datatype child_error = ExitStatus int go_error | OtherError go_error

datatype report_value = IntegrityValue IntegrityReport | SummaryValue RunSummary

record poll =
  po_response :: "(nat \<times> string) result"
  po_done :: bool

record 'w lab_env =
  le_arg0 :: string
  le_now :: "'w \<Rightarrow> int \<times> 'w"
  le_mkdir_all :: "string \<Rightarrow> 'w \<Rightarrow> go_error option \<times> 'w"
  le_listen :: "'w \<Rightarrow> string result \<times> 'w"
  le_close_listener :: "'w \<Rightarrow> go_error option \<times> 'w"
  le_create :: "string \<Rightarrow> 'w \<Rightarrow> go_error option \<times> 'w"
  le_start :: "nat \<Rightarrow> string \<Rightarrow> string list \<Rightarrow> string \<Rightarrow> 'w \<Rightarrow> go_error option \<times> 'w"
  le_terminate :: "nat \<Rightarrow> 'w \<Rightarrow> 'w"
  le_kill :: "nat \<Rightarrow> 'w \<Rightarrow> 'w"
  le_race :: "nat \<Rightarrow> int option \<Rightarrow> 'w \<Rightarrow> bool \<times> 'w"
  le_wait :: "nat \<Rightarrow> 'w \<Rightarrow> child_error option \<times> 'w"
  le_ctx_err :: "'w \<Rightarrow> go_error"
  le_polls :: "string \<Rightarrow> int \<Rightarrow> 'w \<Rightarrow> poll list \<times> 'w"
  le_decode_body :: "string \<Rightarrow> WriterState result"
  le_read_file :: "'w \<Rightarrow> string \<Rightarrow> string result"
  le_json_state :: "string \<Rightarrow> WriterState result"
  le_glob :: "'w \<Rightarrow> string \<Rightarrow> string list result"
  le_read_log :: "'w \<Rightarrow> string \<Rightarrow> file_read"
  le_stat :: "'w \<Rightarrow> string \<Rightarrow> bool"
  le_write_json :: "string \<Rightarrow> report_value \<Rightarrow> 'w \<Rightarrow> go_error option \<times> 'w"

record 'w lab =
  lab_world :: 'w
  started :: nat
  running :: "nat list"

definition on_world :: "('w \<Rightarrow> 'a \<times> 'w) \<Rightarrow> 'w lab \<Rightarrow> 'a \<times> 'w lab" where
  "on_world f l = (case f (lab_world l) of (x, w) \<Rightarrow> (x, l\<lparr>lab_world := w\<rparr>))"

definition seconds :: "int \<Rightarrow> int" where "seconds n = n * 10 ^ 9"

subsection \<open>Children\<close>

definition startChild ::
  "'w lab_env \<Rightarrow> string \<Rightarrow> string \<Rightarrow> string list \<Rightarrow> 'w lab \<Rightarrow> nat result \<times> 'w lab" where
  "startChild env executable logPath args l =
     (case on_world (le_create env logPath) l of
        (Some e, l) \<Rightarrow> (Inl e, l)
      | (None, l) \<Rightarrow>
          (case on_world (le_start env (started l) executable args logPath) l of
             (Some e, l) \<Rightarrow> (Inl e, l)
           | (None, l) \<Rightarrow>
               (Inr (started l), l\<lparr>started := Suc (started l), running := started l # running l\<rparr>)))"

definition reap :: "'w lab_env \<Rightarrow> nat \<Rightarrow> 'w lab \<Rightarrow> child_error option \<times> 'w lab" where
  "reap env c l =
     (case on_world (le_wait env c) l of (r, l) \<Rightarrow> (r, l\<lparr>running := remove1 c (running l)\<rparr>))"

fun child_go_error :: "child_error \<Rightarrow> go_error" where
  "child_go_error (ExitStatus code e) = e"
| "child_go_error (OtherError e) = e"

definition stop_result :: "child_error option \<Rightarrow> go_error option" where
  "stop_result r = (case r of
     None \<Rightarrow> None
   | Some (ExitStatus code e) \<Rightarrow> if code = 0 then None else Some e
   | Some (OtherError e) \<Rightarrow> Some e)"

definition stopChild :: "'w lab_env \<Rightarrow> nat option \<Rightarrow> int \<Rightarrow> 'w lab \<Rightarrow> go_error option \<times> 'w lab" where
  "stopChild env cmd timeout l =
     (case cmd of
        None \<Rightarrow> (None, l)
      | Some c \<Rightarrow>
          (case on_world (le_race env c (Some timeout)) (l\<lparr>lab_world := le_terminate env c (lab_world l)\<rparr>) of
             (True, l) \<Rightarrow> (case reap env c l of (r, l) \<Rightarrow> (stop_result r, l))
           | (False, l) \<Rightarrow>
               (case reap env c (l\<lparr>lab_world := le_kill env c (lab_world l)\<rparr>) of
                  (_, l) \<Rightarrow> (Some (ErrText ''child stop timeout''), l))))"

definition waitCommand :: "'w lab_env \<Rightarrow> nat \<Rightarrow> 'w lab \<Rightarrow> go_error option \<times> 'w lab" where
  "waitCommand env c l =
     (case on_world (le_race env c None) l of
        (True, l) \<Rightarrow> (case reap env c l of (r, l) \<Rightarrow> (map_option child_go_error r, l))
      | (False, l) \<Rightarrow>
          (case reap env c (l\<lparr>lab_world := le_kill env c (lab_world l)\<rparr>) of
             (_, l) \<Rightarrow> (Some (le_ctx_err env (lab_world l)), l)))"

text \<open>The waiting loops, over the rounds before their deadline.\<close>

fun wait_http_loop :: "go_error \<Rightarrow> string \<Rightarrow> poll list \<Rightarrow> go_error option" where
  "wait_http_loop ctx_err url [] = Some (ErrText (''timeout waiting for '' @ url))"
| "wait_http_loop ctx_err url (p # ps) =
     (if map_sum id fst (po_response p) = Inr 200 then None
      else if po_done p then Some ctx_err
      else wait_http_loop ctx_err url ps)"

definition waitHTTP :: "'w lab_env \<Rightarrow> string \<Rightarrow> int \<Rightarrow> 'w lab \<Rightarrow> go_error option \<times> 'w lab" where
  "waitHTTP env url timeout l =
     (case on_world (le_polls env url timeout) l of
        (ps, l) \<Rightarrow> (wait_http_loop (le_ctx_err env (lab_world l)) url ps, l))"

fun wait_reopens_loop :: "(string \<Rightarrow> WriterState result) \<Rightarrow> u64 \<Rightarrow> poll list \<Rightarrow> go_error option" where
  "wait_reopens_loop decode want [] =
     Some (ErrText (''timeout waiting for '' @ format_uint want @ '' reopen requests''))"
| "wait_reopens_loop decode want (p # ps) =
     (case po_response p of
        Inl e \<Rightarrow> wait_reopens_loop decode want ps
      | Inr (_, body) \<Rightarrow>
          (case decode body of
             Inl e \<Rightarrow> wait_reopens_loop decode want ps
           | Inr st \<Rightarrow> if want \<le> ws_ReopenRequests st then None else wait_reopens_loop decode want ps))"

definition waitReopens :: "'w lab_env \<Rightarrow> string \<Rightarrow> u64 \<Rightarrow> int \<Rightarrow> 'w lab \<Rightarrow> go_error option \<times> 'w lab" where
  "waitReopens env url want timeout l =
     (case on_world (le_polls env url timeout) l of
        (ps, l) \<Rightarrow> (wait_reopens_loop (le_decode_body env) want ps, l))"

subsection \<open>Command lines\<close>

definition writer_args :: "HarnessConfig \<Rightarrow> string \<Rightarrow> string \<Rightarrow> string \<Rightarrow> string list" where
  "writer_args cfg active listen statePath =
     [''--run-id'', hc_RunID cfg, ''--path'', active, ''--listen'', listen,
      ''--state'', statePath, ''--record-bytes'', format_int (hc_RecordBytes cfg),
      ''--buffer-bytes'', format_int (hc_BufferBytes cfg),
      ''--bytes-per-second'', format_int (hc_BytesPerSecond cfg),
      ''--flush-interval'', duration_string (hc_FlushInterval cfg),
      ''--resident-bytes'', format_int (hc_ResidentBytes cfg)]"

definition writerInvocation :: "string \<Rightarrow> string \<Rightarrow> string list \<Rightarrow> string \<times> string list" where
  "writerInvocation loglabExecutable writerExecutable args =
     (if writerExecutable \<noteq> [] then (writerExecutable, args)
      else (loglabExecutable, ''writer'' # args))"

definition monitor_args :: "HarnessConfig \<Rightarrow> string \<Rightarrow> string \<Rightarrow> int \<Rightarrow> string list" where
  "monitor_args cfg active samplesPath start =
     [''monitor'', ''--run-id'', hc_RunID cfg, ''--strategy'', hc_Strategy cfg, ''--active'', active,
      ''--samples'', samplesPath, ''--interval'', duration_string (hc_MonitorInterval cfg),
      ''--start-unix-nano'', format_int start]"

definition rotate_args :: "HarnessConfig \<Rightarrow> string \<Rightarrow> string \<Rightarrow> string \<Rightarrow> int \<Rightarrow> string list" where
  "rotate_args cfg active listen eventPath start =
     [''rotate'', ''--strategy'', hc_Strategy cfg, ''--active'', active,
      ''--reopen-url'', ''http://'' @ listen, ''--events'', eventPath,
      ''--max-file-bytes'', format_int (hc_MaxFileBytes cfg),
      ''--rotations'', format_int (hc_Rotations cfg), ''--max-backups'', format_int (hc_MaxBackups cfg),
      ''--start-unix-nano'', format_int start]"

subsection \<open>The children's run\<close>

definition freeLoopbackAddress :: "'w lab_env \<Rightarrow> 'w lab \<Rightarrow> (string \<times> go_error option) \<times> 'w lab" where
  "freeLoopbackAddress env l =
     (case on_world (le_listen env) l of
        (Inl e, l) \<Rightarrow> (([], Some e), l)
      | (Inr address, l) \<Rightarrow>
          (case on_world (le_close_listener env) l of (err, l) \<Rightarrow> ((address, err), l)))"

definition stop_both :: "'w lab_env \<Rightarrow> nat \<Rightarrow> nat option \<Rightarrow> 'w lab \<Rightarrow> 'w lab" where
  "stop_both env writerCmd monitorCmd l =
     (case stopChild env (Some writerCmd) (seconds 2) l of
        (_, l) \<Rightarrow> snd (stopChild env monitorCmd (seconds 2) l))"

definition start_monitor ::
  "'w lab_env \<Rightarrow> HarnessConfig \<Rightarrow> string \<Rightarrow> string \<Rightarrow> int \<Rightarrow> 'w lab \<Rightarrow> nat option result \<times> 'w lab" where
  "start_monitor env cfg active samplesPath start l =
     (if hc_EnableMonitor cfg
      then (case startChild env (hc_Executable cfg) (path_join [hc_ResultDir cfg, ''monitor.log''])
               (monitor_args cfg active samplesPath start) l of
              (Inl e, l) \<Rightarrow> (Inl e, l)
            | (Inr c, l) \<Rightarrow> (Inr (Some c), l))
      else (Inr None, l))"

definition first_child_error ::
  "go_error option \<Rightarrow> go_error option \<Rightarrow> go_error option \<Rightarrow> unit result" where
  "first_child_error rotatorErr writerErr monitorErr =
     (case rotatorErr of
        Some e \<Rightarrow> Inl (Wrap ''rotator: '' e)
      | None \<Rightarrow>
          (case writerErr of
             Some e \<Rightarrow> Inl (Wrap ''writer: '' e)
           | None \<Rightarrow> (case monitorErr of Some e \<Rightarrow> Inl (Wrap ''monitor: '' e) | None \<Rightarrow> Inr ())))"

definition finish_children ::
  "'w lab_env \<Rightarrow> HarnessConfig \<Rightarrow> string \<Rightarrow> nat \<Rightarrow> nat option \<Rightarrow> nat \<Rightarrow> 'w lab \<Rightarrow> unit result \<times> 'w lab" where
  "finish_children env cfg listen writerCmd monitorCmd rotatorCmd l =
     (let (rotatorErr, l) = waitCommand env rotatorCmd l;
          l = (if rotatorErr = None \<and> hc_Strategy cfg = RenameReopen
               then snd (waitReopens env (''http://'' @ listen @ ''/state'') (of_int (hc_Rotations cfg))
                 (seconds 2) l) else l);
          (writerErr, l) = stopChild env (Some writerCmd) (seconds 3) l;
          (monitorErr, l) = stopChild env monitorCmd (seconds 3) l
      in (first_child_error rotatorErr writerErr monitorErr, l))"

definition run_children ::
  "'w lab_env \<Rightarrow> HarnessConfig \<Rightarrow> string \<Rightarrow> string \<Rightarrow> string \<Rightarrow> string \<Rightarrow> string \<Rightarrow> int \<Rightarrow>
   'w lab \<Rightarrow> unit result \<times> 'w lab" where
  "run_children env cfg active statePath eventPath samplesPath listen start l =
     (case writerInvocation (hc_Executable cfg) (hc_WriterExecutable cfg)
          (writer_args cfg active listen statePath) of
        (exe, args) \<Rightarrow>
     (case startChild env exe (path_join [hc_ResultDir cfg, ''writer.log'']) args l of
        (Inl e, l) \<Rightarrow> (Inl e, l)
      | (Inr writerCmd, l) \<Rightarrow>
     (case waitHTTP env (''http://'' @ listen @ ''/healthz'') (seconds 5) l of
        (Some e, l) \<Rightarrow> (Inl e, snd (stopChild env (Some writerCmd) (seconds 2) l))
      | (None, l) \<Rightarrow>
     (case start_monitor env cfg active samplesPath start l of
        (Inl e, l) \<Rightarrow> (Inl e, snd (stopChild env (Some writerCmd) (seconds 2) l))
      | (Inr monitorCmd, l) \<Rightarrow>
     (case startChild env (hc_Executable cfg) (path_join [hc_ResultDir cfg, ''rotator.log''])
          (rotate_args cfg active listen eventPath start) l of
        (Inl e, l) \<Rightarrow> (Inl e, stop_both env writerCmd monitorCmd l)
      | (Inr rotatorCmd, l) \<Rightarrow> finish_children env cfg listen writerCmd monitorCmd rotatorCmd l)))))"

subsection \<open>The summary\<close>

definition peak :: "u64 \<Rightarrow> u64 \<Rightarrow> u64" where
  "peak value old = (if old < value then value else old)"

definition peak_sample :: "Sample \<Rightarrow> RunSummary \<Rightarrow> RunSummary" where
  "peak_sample s summary = summary\<lparr>
     rs_PeakMemory := peak (s_MemoryCurrent s) (rs_PeakMemory summary),
     rs_PeakRSS := peak (s_RSS s) (rs_PeakRSS summary),
     rs_PeakAnon := (case s_Anon s of None \<Rightarrow> rs_PeakAnon summary | Some a \<Rightarrow> peak a (rs_PeakAnon summary))\<rparr>"

definition updatePeaks :: "RunSummary \<Rightarrow> Sample list \<Rightarrow> RunSummary" where
  "updatePeaks summary samples = fold peak_sample samples summary"

definition harness_workload :: "HarnessConfig \<Rightarrow> WorkloadConfig" where
  "harness_workload cfg =
     \<lparr>wl_MaxFileBytes = hc_MaxFileBytes cfg, wl_Rotations = hc_Rotations cfg,
      wl_MaxBackups = hc_MaxBackups cfg, wl_RecordBytes = hc_RecordBytes cfg,
      wl_BytesPerSecond = hc_BytesPerSecond cfg, wl_BufferBytes = hc_BufferBytes cfg,
      wl_FlushIntervalNS = hc_FlushInterval cfg, wl_MonitorIntervalNS = hc_MonitorInterval cfg,
      wl_ResidentBytes = hc_ResidentBytes cfg\<rparr>"

definition add_cgroup :: "'w lab_env \<Rightarrow> 'w \<Rightarrow> RunSummary \<Rightarrow> RunSummary" where
  "add_cgroup env w summary =
     (case Discover (le_stat env w) of
        Inl e \<Rightarrow> summary
      | Inr reader \<Rightarrow>
          (case Reader_Sample (le_read_log env w) reader of
             Inl e \<Rightarrow> summary
           | Inr memory \<Rightarrow> summary\<lparr>rs_CgroupVersion := version_text (ms_Version memory),
               rs_CacheSource := ms_CacheSource memory\<rparr>))"

definition judge :: "HarnessConfig \<Rightarrow> RunSummary \<Rightarrow> RunSummary" where
  "judge cfg summary =
     (let rep = rs_Integrity summary;
          success = (ws_ReopenFailures (rs_Writer summary) = 0);
          success = (if hc_Strategy cfg = RenameReopen \<or> hc_Strategy cfg = Baseline
            then success \<and> ir_Missing rep = 0 \<and> ir_Duplicates rep = 0 \<and> ir_Malformed rep = 0
            else success)
      in summary\<lparr>rs_Success := success,
           rs_Error := (if success then rs_Error summary else ''acceptance criteria failed'')\<rparr>)"

definition make_summary ::
  "HarnessConfig \<Rightarrow> int \<Rightarrow> int \<Rightarrow> WriterState \<Rightarrow> IntegrityReport \<Rightarrow> RotationEvent list \<Rightarrow>
   Sample list \<Rightarrow> RunSummary" where
  "make_summary cfg start now writerState rep events samples =
     updatePeaks (zero_RunSummary
       \<lparr>rs_SchemaVersion := SchemaVersion, rs_RunID := hc_RunID cfg, rs_Strategy := hc_Strategy cfg,
        rs_StartedAt := rfc3339_nano start, rs_DurationNS := time_sub now start,
        rs_Rotations := hc_Rotations cfg, rs_Writer := writerState, rs_Integrity := rep,
        rs_Cache := Metrics_Analyze samples events, rs_Workload := harness_workload cfg,
        rs_WriterImplementation := (if hc_WriterExecutable cfg = [] then ''go''
          else path_base (hc_WriterExecutable cfg))\<rparr>) samples"

definition read_state :: "'w lab_env \<Rightarrow> string \<Rightarrow> 'w \<Rightarrow> WriterState result" where
  "read_state env statePath w =
     (case le_read_file env w statePath of Inl e \<Rightarrow> Inl e | Inr b \<Rightarrow> le_json_state env b)"

definition collect_paths :: "'w lab_env \<Rightarrow> string \<Rightarrow> 'w \<Rightarrow> string list result" where
  "collect_paths env active w =
     (case le_glob env w (active @ ''.*'') of Inl e \<Rightarrow> Inl e | Inr ms \<Rightarrow> Inr (sort (ms @ [active])))"

definition read_tables ::
  "'w lab_env \<Rightarrow> HarnessConfig \<Rightarrow> string \<Rightarrow> string \<Rightarrow> 'w \<Rightarrow> (RotationEvent list \<times> Sample list) result" where
  "read_tables env cfg eventPath samplesPath w =
     (case ReadEvents (le_read_file env w eventPath) of
        Inl e \<Rightarrow> Inl e
      | Inr events \<Rightarrow>
          (if hc_EnableMonitor cfg
           then (case ReadSamples (le_read_file env w samplesPath) of
                   Inl e \<Rightarrow> Inl e
                 | Inr samples \<Rightarrow> Inr (events, samples))
           else Inr (events, [])))"

type_synonym 'w outcome = "(RunSummary \<times> go_error option) \<times> 'w lab"

definition no_summary :: "go_error \<Rightarrow> 'w lab \<Rightarrow> 'w outcome" where
  "no_summary e l = ((zero_RunSummary, Some e), l)"

definition write_summary ::
  "'w lab_env \<Rightarrow> HarnessConfig \<Rightarrow> int \<Rightarrow> WriterState \<Rightarrow> IntegrityReport \<Rightarrow>
   RotationEvent list \<times> Sample list \<Rightarrow> 'w lab \<Rightarrow> 'w outcome" where
  "write_summary env cfg start writerState rep tables l =
     (case on_world (le_now env) l of (now, l) \<Rightarrow>
        (let summary = judge cfg (add_cgroup env (lab_world l)
               (make_summary cfg start now writerState rep (fst tables) (snd tables)))
         in case on_world (le_write_json env (path_join [hc_ResultDir cfg, ''summary.json''])
                  (SummaryValue summary)) l of
              (err, l) \<Rightarrow> ((summary, err), l)))"

text \<open>\<open>None\<close>: \<open>Analyze\<close> does not return (see \<open>analyze_returns_iff\<close>).\<close>

definition collect ::
  "'w lab_env \<Rightarrow> HarnessConfig \<Rightarrow> string \<Rightarrow> string \<Rightarrow> string \<Rightarrow> string \<Rightarrow> int \<Rightarrow> 'w lab \<Rightarrow>
   'w outcome option" where
  "collect env cfg active statePath eventPath samplesPath start l =
     (case read_state env statePath (lab_world l) of
        Inl e \<Rightarrow> Some (no_summary e l)
      | Inr writerState \<Rightarrow>
     (case collect_paths env active (lab_world l) of
        Inl e \<Rightarrow> Some (no_summary e l)
      | Inr paths \<Rightarrow>
     (case Analyze (le_read_log env (lab_world l)) (hc_RunID cfg) (ws_Generated writerState) paths of
        None \<Rightarrow> None
      | Some (rep, Some e) \<Rightarrow> Some (no_summary e l)
      | Some (rep, None) \<Rightarrow>
     (case on_world (le_write_json env (path_join [hc_ResultDir cfg, ''integrity.json''])
          (IntegrityValue rep)) l of
        (Some e, l) \<Rightarrow> Some (no_summary e l)
      | (None, l) \<Rightarrow>
     (case read_tables env cfg eventPath samplesPath (lab_world l) of
        Inl e \<Rightarrow> Some (no_summary e l)
      | Inr tables \<Rightarrow> Some (write_summary env cfg start writerState rep tables l))))))"

definition valid_harness_config :: "HarnessConfig \<Rightarrow> bool" where
  "valid_harness_config cfg \<longleftrightarrow> hc_RunID cfg \<noteq> [] \<and> hc_LogDir cfg \<noteq> [] \<and> hc_ResultDir cfg \<noteq> [] \<and>
     0 < hc_MaxFileBytes cfg \<and> 0 < hc_Rotations cfg"

definition make_dirs :: "'w lab_env \<Rightarrow> string list \<Rightarrow> 'w lab \<Rightarrow> go_error option \<times> 'w lab" where
  "make_dirs env dirs l = fold (\<lambda>d (err, l). if err = None then on_world (le_mkdir_all env d) l else (err, l))
     dirs (None, l)"

definition Harness_Run :: "'w lab_env \<Rightarrow> HarnessConfig \<Rightarrow> 'w lab \<Rightarrow> 'w outcome option" where
  "Harness_Run env cfg l =
     (case on_world (le_now env) l of (start, l) \<Rightarrow>
        (let cfg = (if hc_Executable cfg = [] then cfg\<lparr>hc_Executable := le_arg0 env\<rparr> else cfg);
             active = path_join [hc_LogDir cfg, ''envoy.log''];
             statePath = path_join [hc_ResultDir cfg, ''writer-state.json''];
             eventPath = path_join [hc_ResultDir cfg, ''events.csv''];
             samplesPath = path_join [hc_ResultDir cfg, ''samples.csv'']
         in if \<not> valid_harness_config cfg
            then Some (no_summary (ErrText ''invalid harness configuration'') l)
            else
              (case make_dirs env [hc_LogDir cfg, hc_ResultDir cfg] l of
                 (Some e, l) \<Rightarrow> Some (no_summary e l)
               | (None, l) \<Rightarrow>
              (case freeLoopbackAddress env l of
                 ((_, Some e), l) \<Rightarrow> Some (no_summary e l)
               | ((listen, None), l) \<Rightarrow>
              (case run_children env cfg active statePath eventPath samplesPath listen start l of
                 (Inl e, l) \<Rightarrow> Some (no_summary e l)
               | (Inr _, l) \<Rightarrow> collect env cfg active statePath eventPath samplesPath start l)))))"

subsection \<open>The process table\<close>

text \<open>\<open>table l l' cs\<close>: from \<open>l\<close> to \<open>l'\<close> the children \<open>cs\<close> were started, the last one first, and
  are still running; every other child started in between has been waited for.\<close>

definition table :: "'w lab \<Rightarrow> nat list \<Rightarrow> 'w lab \<Rightarrow> bool" where
  "table l cs l' \<longleftrightarrow> running l' = cs @ running l \<and> started l \<le> started l' \<and>
     (\<forall>c \<in> set cs. c < started l') \<and> distinct cs"

lemma table_refl: "table l [] l"
  by (simp add: table_def)

lemma on_world_table: "on_world f l = (x, l') \<Longrightarrow> table l0 cs l \<Longrightarrow> table l0 cs l'"
  by (auto simp: on_world_def table_def split: prod.splits)

lemma table_world: "table l0 cs (l\<lparr>lab_world := w\<rparr>) = table l0 cs l"
  by (simp add: table_def)

lemma startChild_table:
  assumes "startChild env exe p args l = (r, l')" and "table l0 cs l"
  shows "case r of Inl e \<Rightarrow> table l0 cs l' | Inr c \<Rightarrow> table l0 (c # cs) l'"
proof -
  have "table l0 (started m # cs) (m\<lparr>started := Suc (started m), running := started m # running m\<rparr>)"
    if "table l0 cs m" for m :: "'a lab"
    using that by (auto simp: table_def)
  then show ?thesis
    using assms by (auto simp: startChild_def dest!: on_world_table split: prod.splits option.splits)
qed

lemma reap_table:
  assumes "reap env c l = (r, l')" and "table l0 (cs @ c # ds) l"
  shows "table l0 (cs @ ds) l'"
proof -
  obtain l1 where 1: "on_world (le_wait env c) l = (r, l1)" "l' = l1\<lparr>running := remove1 c (running l1)\<rparr>"
    using assms(1) by (auto simp: reap_def split: prod.splits)
  from on_world_table [OF 1(1) assms(2)] show ?thesis
    by (auto simp: 1(2) table_def remove1_append)
qed

lemma stopChild_table:
  assumes "stopChild env (Some c) t l = (r, l')" and "table l0 (cs @ c # ds) l"
  shows "table l0 (cs @ ds) l'"
  using assms
  by (auto simp: stopChild_def table_world intro: reap_table dest!: on_world_table
      split: prod.splits bool.splits)

lemma waitCommand_table:
  assumes "waitCommand env c l = (r, l')" and "table l0 (cs @ c # ds) l"
  shows "table l0 (cs @ ds) l'"
  using assms
  by (auto simp: waitCommand_def table_world intro: reap_table dest!: on_world_table
      split: prod.splits bool.splits)

lemma stop_optional_table:
  "stopChild env m t l = (r, l') \<Longrightarrow> table l0 (cs @ (case m of None \<Rightarrow> [] | Some c \<Rightarrow> [c]) @ ds) l \<Longrightarrow>
   table l0 (cs @ ds) l'"
  using stopChild_table [of env _ t l r l' l0 cs ds]
  by (cases m) (auto simp: stopChild_def)

lemma wait_loops_table:
  "waitHTTP env url t l = (r, l') \<Longrightarrow> table l0 cs l \<Longrightarrow> table l0 cs l'"
  "waitReopens env url n t l = (r, l') \<Longrightarrow> table l0 cs l \<Longrightarrow> table l0 cs l'"
  by (auto simp: waitHTTP_def waitReopens_def dest!: on_world_table split: prod.splits)

lemma start_monitor_table:
  assumes "start_monitor env cfg active samplesPath start l = (r, l')" and "table l0 cs l"
  shows "case r of Inl e \<Rightarrow> table l0 cs l' | Inr m \<Rightarrow> table l0 ((case m of None \<Rightarrow> [] | Some c \<Rightarrow> [c]) @ cs) l'"
  using assms
  by (auto simp: start_monitor_def dest: startChild_table split: if_splits prod.splits sum.splits)

lemma finish_children_table:
  assumes "finish_children env cfg listen wc mc rc l = (r, l')"
    and "table l0 (rc # (case mc of None \<Rightarrow> [] | Some c \<Rightarrow> [c]) @ [wc]) l"
  shows "table l0 [] l'"
proof -
  let ?m = "case mc of None \<Rightarrow> [] | Some c \<Rightarrow> [c]"
  obtain e1 l1 where 1: "waitCommand env rc l = (e1, l1)" by fastforce
  define l2 where "l2 = (if e1 = None \<and> hc_Strategy cfg = RenameReopen
      then snd (waitReopens env (''http://'' @ listen @ ''/state'') (of_int (hc_Rotations cfg)) (seconds 2) l1) else l1)"
  obtain e3 l3 where 3: "stopChild env (Some wc) (seconds 3) l2 = (e3, l3)" by fastforce
  obtain e4 l4 where 4: "stopChild env mc (seconds 3) l3 = (e4, l4)" by fastforce
  have "table l0 (?m @ [wc]) l1" using waitCommand_table [OF 1, of l0 "[]"] assms(2) by simp
  then have "table l0 (?m @ [wc]) l2"
    unfolding l2_def using wait_loops_table(2) [of env _ _ _ l1] by (auto simp: prod_eq_iff)
  then have "table l0 ?m l3" using stopChild_table [OF 3, of l0 ?m "[]"] by simp
  then have "table l0 [] l4" using stop_optional_table [OF 4, of l0 "[]" "[]"] by simp
  moreover have "l' = l4" using assms(1) 1 3 4 by (simp add: finish_children_def Let_def l2_def)
  ultimately show ?thesis by simp
qed

lemma run_children_table:
  assumes "run_children env cfg active statePath eventPath samplesPath listen start l = (r, l')"
    and "table l0 [] l"
  shows "table l0 [] l'"
proof -
  obtain exe args where inv: "writerInvocation (hc_Executable cfg) (hc_WriterExecutable cfg)
      (writer_args cfg active listen statePath) = (exe, args)" by fastforce
  obtain q1 l1 where 1: "startChild env exe (path_join [hc_ResultDir cfg, ''writer.log'']) args l = (q1, l1)"
    by fastforce
  note t1 = startChild_table [OF 1 assms(2)]
  note eq = assms(1) [unfolded run_children_def, simplified inv prod.case 1]
  show ?thesis
  proof (cases q1)
    case (Inl e)
    with eq t1 show ?thesis by simp
  next
    case q1: (Inr wc)
    obtain q2 l2 where 2: "waitHTTP env (''http://'' @ listen @ ''/healthz'') (seconds 5) l1 = (q2, l2)" by fastforce
    have t2: "table l0 [wc] l2" using wait_loops_table(1) [OF 2] t1 q1 by simp
    obtain q3 l3 where 3: "start_monitor env cfg active samplesPath start l2 = (q3, l3)" by fastforce
    note t3 = start_monitor_table [OF 3 t2]
    have stop: "table l0 [] (snd (stopChild env (Some wc) t m))" if "table l0 [wc] m" for t m
      using stopChild_table [of env wc t m _ _ l0 "[]" "[]"] that by (simp add: prod_eq_iff)
    consider e where "q2 = Some e" | e where "q2 = None" "q3 = Inl e" | mc where "q2 = None" "q3 = Inr mc"
      by (cases q2; cases q3) auto
    then show ?thesis
    proof cases
      case (3 mc)
      let ?m = "case mc of None \<Rightarrow> [] | Some c \<Rightarrow> [c]"
      have t: "table l0 (?m @ [wc]) l3" using t3 3 by simp
      obtain q4 l4 where 4: "startChild env (hc_Executable cfg) (path_join [hc_ResultDir cfg, ''rotator.log''])
          (rotate_args cfg active listen eventPath start) l3 = (q4, l4)" by fastforce
      note t4 = startChild_table [OF 4 t]
      show ?thesis
      proof (cases q4)
        case (Inl e)
        obtain e5 l5 where 5: "stopChild env (Some wc) (seconds 2) l4 = (e5, l5)" by fastforce
        have "table l0 ?m l5" using stopChild_table [OF 5, of l0 ?m "[]"] t4 Inl by simp
        then have "table l0 [] (snd (stopChild env mc (seconds 2) l5))"
          using stop_optional_table [of env mc _ l5 _ _ l0 "[]" "[]"] by (simp add: prod_eq_iff)
        moreover have "l' = snd (stopChild env mc (seconds 2) l5)"
          using eq q1 2 3 4 Inl 5 \<open>start_monitor _ _ _ _ _ _ = _\<close> by (simp add: stop_both_def)
        ultimately show ?thesis by simp
      next
        case (Inr rc)
        have "finish_children env cfg listen wc mc rc l4 = (r, l')"
          using eq q1 2 3 4 Inr \<open>start_monitor _ _ _ _ _ _ = _\<close> by simp
        with finish_children_table t4 Inr show ?thesis by fastforce
      qed
    qed (use eq q1 2 3 t2 t3 stop in auto)
  qed
qed

lemma collect_table:
  "collect env cfg active statePath eventPath samplesPath start l = Some (r, l') \<Longrightarrow>
   table l0 cs l \<Longrightarrow> table l0 cs l'"
  by (auto simp: collect_def write_summary_def no_summary_def Let_def dest!: on_world_table
      split: sum.splits option.splits prod.splits)

lemma make_dirs_table:
  fixes l1 :: "'a lab"
  assumes "make_dirs env ds l1 = (e, l2)" and "table l0 [] l1"
  shows "table l0 [] l2"
proof -
  let ?f = "\<lambda>d (err, l). if err = None then on_world (le_mkdir_all env d) l else (err, l)"
  have "table l0 [] (snd (fold ?f ds (None, l1)))"
  proof (rule fold_invariant [where P = "\<lambda>x. table l0 [] (snd x)"])
    fix d and x :: "go_error option \<times> 'a lab"
    assume "table l0 [] (snd x)"
    then show "table l0 [] (snd (?f d x))"
      using on_world_table [of "le_mkdir_all env d" "snd x"] by (auto simp: split_beta prod_eq_iff)
  qed (simp add: assms(2))
  then show ?thesis using assms(1) by (simp add: make_dirs_def)
qed

lemma Harness_Run_table:
  assumes "Harness_Run env cfg l = Some (r, l')"
  shows "table l [] l'"
proof -
  have listen: "freeLoopbackAddress env l1 = (q, l2) \<Longrightarrow> table l [] l1 \<Longrightarrow> table l [] l2" for l1 q l2
    by (auto simp: freeLoopbackAddress_def dest!: on_world_table split: prod.splits sum.splits)
  note table_refl [of l]
  then show ?thesis
    using assms
    by (auto simp: Harness_Run_def Let_def no_summary_def
        dest!: make_dirs_table listen run_children_table collect_table dest: on_world_table
        split: prod.splits if_splits option.splits sum.splits)
qed

subsection \<open>What a summary says\<close>

lemma peak_max: "peak x y = max x y"
  by (auto simp: peak_def max_def)

definition anon_size :: "Sample \<Rightarrow> u64" where
  "anon_size s = (case s_Anon s of None \<Rightarrow> 0 | Some a \<Rightarrow> a)"

lemma peak_sample_fields:
  "rs_PeakMemory (peak_sample s r) = max (s_MemoryCurrent s) (rs_PeakMemory r)"
  "rs_PeakRSS (peak_sample s r) = max (s_RSS s) (rs_PeakRSS r)"
  "rs_PeakAnon (peak_sample s r) = max (anon_size s) (rs_PeakAnon r)"
  "rs_Writer (peak_sample s r) = rs_Writer r" "rs_Integrity (peak_sample s r) = rs_Integrity r"
  "rs_Success (peak_sample s r) = rs_Success r" "rs_Error (peak_sample s r) = rs_Error r"
  "rs_SchemaVersion (peak_sample s r) = rs_SchemaVersion r" "rs_Cache (peak_sample s r) = rs_Cache r"
  by (auto simp: peak_sample_def peak_max anon_size_def split: option.split)

lemma updatePeaks_fields:
  "rs_PeakMemory (updatePeaks r ss) = Max (insert (rs_PeakMemory r) (s_MemoryCurrent ` set ss))"
  "rs_PeakRSS (updatePeaks r ss) = Max (insert (rs_PeakRSS r) (s_RSS ` set ss))"
  "rs_PeakAnon (updatePeaks r ss) = Max (insert (rs_PeakAnon r) (anon_size ` set ss))"
proof -
  have peaks: "g (fold peak_sample ss r) = Max (insert (g r) (f ` set ss))"
    if "\<And>s r. g (peak_sample s r) = max (f s) (g r)" for f :: "Sample \<Rightarrow> u64" and g
  proof (induction ss arbitrary: r)
    case (Cons s ss)
    have "Max (insert (max (f s) (g r)) (f ` set ss)) = Max (insert (g r) (insert (f s) (f ` set ss)))"
      by (cases "ss = []") (simp_all add: max.left_commute max.commute max.assoc)
    with Cons that show ?case by simp
  qed simp
  show "rs_PeakMemory (updatePeaks r ss) = Max (insert (rs_PeakMemory r) (s_MemoryCurrent ` set ss))"
    "rs_PeakRSS (updatePeaks r ss) = Max (insert (rs_PeakRSS r) (s_RSS ` set ss))"
    "rs_PeakAnon (updatePeaks r ss) = Max (insert (rs_PeakAnon r) (anon_size ` set ss))"
    unfolding updatePeaks_def by (rule peaks; simp add: peak_sample_fields)+
qed

lemma updatePeaks_other:
  "rs_Writer (updatePeaks r ss) = rs_Writer r" "rs_Integrity (updatePeaks r ss) = rs_Integrity r"
  "rs_Error (updatePeaks r ss) = rs_Error r" "rs_SchemaVersion (updatePeaks r ss) = rs_SchemaVersion r"
  "rs_Cache (updatePeaks r ss) = rs_Cache r"
  unfolding updatePeaks_def by (induction ss arbitrary: r) (simp_all add: peak_sample_fields)

lemma add_cgroup_fields:
  "rs_Writer (add_cgroup env w r) = rs_Writer r" "rs_Integrity (add_cgroup env w r) = rs_Integrity r"
  "rs_Error (add_cgroup env w r) = rs_Error r" "rs_SchemaVersion (add_cgroup env w r) = rs_SchemaVersion r"
  "rs_Cache (add_cgroup env w r) = rs_Cache r" "rs_PeakMemory (add_cgroup env w r) = rs_PeakMemory r"
  "rs_PeakRSS (add_cgroup env w r) = rs_PeakRSS r" "rs_PeakAnon (add_cgroup env w r) = rs_PeakAnon r"
  by (auto simp: add_cgroup_def split: sum.split)

lemma judge_fields:
  "rs_Writer (judge cfg r) = rs_Writer r" "rs_Integrity (judge cfg r) = rs_Integrity r"
  "rs_SchemaVersion (judge cfg r) = rs_SchemaVersion r" "rs_Cache (judge cfg r) = rs_Cache r"
  "rs_PeakMemory (judge cfg r) = rs_PeakMemory r" "rs_PeakRSS (judge cfg r) = rs_PeakRSS r"
  "rs_PeakAnon (judge cfg r) = rs_PeakAnon r"
  by (simp_all add: judge_def Let_def)

lemmas summary_fields = updatePeaks_fields updatePeaks_other add_cgroup_fields judge_fields

text \<open>\<open>accepts strategy ws rep\<close>: what \<open>Run\<close> asks of a run.\<close>

definition accepts :: "Strategy \<Rightarrow> WriterState \<Rightarrow> IntegrityReport \<Rightarrow> bool" where
  "accepts strategy ws rep \<longleftrightarrow> ws_ReopenFailures ws = 0 \<and>
     (strategy \<in> {RenameReopen, Baseline} \<longrightarrow>
        ir_Missing rep = 0 \<and> ir_Duplicates rep = 0 \<and> ir_Malformed rep = 0)"

definition describes ::
  "HarnessConfig \<Rightarrow> WriterState \<Rightarrow> IntegrityReport \<Rightarrow> RotationEvent list \<Rightarrow> Sample list \<Rightarrow> RunSummary \<Rightarrow> bool" where
  "describes cfg ws rep events samples s \<longleftrightarrow>
     rs_SchemaVersion s = SchemaVersion \<and> rs_Writer s = ws \<and> rs_Integrity s = rep \<and>
     rs_Cache s = Metrics_Analyze samples events \<and>
     rs_PeakMemory s = Max (insert 0 (s_MemoryCurrent ` set samples)) \<and>
     rs_PeakRSS s = Max (insert 0 (s_RSS ` set samples)) \<and>
     rs_PeakAnon s = Max (insert 0 (anon_size ` set samples)) \<and>
     rs_Success s = accepts (hc_Strategy cfg) ws rep \<and> (rs_Error s = [] \<longleftrightarrow> rs_Success s)"

lemma judged_summary:
  "describes cfg ws rep events samples
     (judge cfg (add_cgroup env w (make_summary cfg start now ws rep events samples)))"
  by (simp add: describes_def make_summary_def summary_fields)
    (auto simp: judge_def Let_def accepts_def make_summary_def summary_fields zero_RunSummary_def)

lemma executable_irrelevant:
  "describes (cfg\<lparr>hc_Executable := x\<rparr>) = describes cfg" "hc_RunID (cfg\<lparr>hc_Executable := x\<rparr>) = hc_RunID cfg"
  "hc_LogDir (cfg\<lparr>hc_Executable := x\<rparr>) = hc_LogDir cfg" "hc_ResultDir (cfg\<lparr>hc_Executable := x\<rparr>) = hc_ResultDir cfg"
  "hc_EnableMonitor (cfg\<lparr>hc_Executable := x\<rparr>) = hc_EnableMonitor cfg"
  by (intro ext, simp add: describes_def) simp_all

text \<open>\<open>children_ended env cfg l l1\<close>: the run that starts in \<open>l\<close> gets its children to the end, in \<open>l1\<close>: the
  directories are there, an address was found, and \<open>run_children\<close> ends without error. By
  \<open>children_ended_table\<close> every child was started before \<open>l1\<close>, and has been waited for.\<close>

definition children_ended :: "'w lab_env \<Rightarrow> HarnessConfig \<Rightarrow> 'w lab \<Rightarrow> 'w lab \<Rightarrow> bool" where
  "children_ended env cfg l l1 \<longleftrightarrow> (\<exists>start la lb listen lc.
     on_world (le_now env) l = (start, la) \<and>
     make_dirs env [hc_LogDir cfg, hc_ResultDir cfg] la = (None, lb) \<and>
     freeLoopbackAddress env lb = ((listen, None), lc) \<and>
     run_children env (if hc_Executable cfg = [] then cfg\<lparr>hc_Executable := le_arg0 env\<rparr> else cfg)
       (path_join [hc_LogDir cfg, ''envoy.log'']) (path_join [hc_ResultDir cfg, ''writer-state.json''])
       (path_join [hc_ResultDir cfg, ''events.csv'']) (path_join [hc_ResultDir cfg, ''samples.csv''])
       listen start lc = (Inr (), l1))"

lemma children_ended_unique: "children_ended env cfg l l1 \<Longrightarrow> children_ended env cfg l l2 \<Longrightarrow> l1 = l2"
  by (auto simp: children_ended_def)

lemma on_world_started: "on_world f l = (x, l') \<Longrightarrow> started l' = started l"
  by (auto simp: on_world_def split: prod.splits)

lemma started_kept:
  "stopChild env m t l = (e, l') \<Longrightarrow> started l' = started l"
  "waitCommand env k l = (e, l') \<Longrightarrow> started l' = started l"
  "waitHTTP env url t l = (e, l') \<Longrightarrow> started l' = started l"
  "waitReopens env url n t l = (e, l') \<Longrightarrow> started l' = started l"
  by (auto simp: stopChild_def waitCommand_def reap_def on_world_def waitHTTP_def waitReopens_def
      split: option.splits prod.splits bool.splits)

lemma startChild_started: "startChild env exe p args l = (Inr k, l') \<Longrightarrow> started l' = Suc (started l)"
  by (auto simp: startChild_def on_world_def split: prod.splits option.splits)

lemma finish_children_started:
  "finish_children env cfg listen wc mc rc l = (r, l') \<Longrightarrow> started l' = started l"
  by (auto simp: finish_children_def Let_def dest!: started_kept(1,2) split: prod.splits if_splits)
    (metis prod.collapse started_kept(4))+

lemma run_children_started:
  assumes "run_children env cfg active statePath eventPath samplesPath listen start l = (Inr (), l')"
  shows "started l' = started l + (if hc_EnableMonitor cfg then 3 else 2)"
  using assms
  by (auto simp: run_children_def start_monitor_def dest!: startChild_started started_kept(3)
      finish_children_started split: prod.splits sum.splits option.splits if_splits)

lemma children_ended_table:
  assumes "children_ended env cfg l l1"
  shows "running l1 = running l" and "started l1 = started l + (if hc_EnableMonitor cfg then 3 else 2)"
proof -
  let ?cfg = "if hc_Executable cfg = [] then cfg\<lparr>hc_Executable := le_arg0 env\<rparr> else cfg"
  from assms obtain start la lb listen lc p1 p2 p3 p4 where
    1: "on_world (le_now env) l = (start, la)" and 2: "make_dirs env [hc_LogDir cfg, hc_ResultDir cfg] la = (None, lb)"
    and 3: "freeLoopbackAddress env lb = ((listen, None), lc)"
    and 4: "run_children env ?cfg p1 p2 p3 p4 listen start lc = (Inr (), l1)"
    unfolding children_ended_def by blast
  have t: "table l [] lb" by (rule make_dirs_table [OF 2 on_world_table [OF 1 table_refl]])
  then have tc: "table l [] lc"
    using 3 by (auto simp: freeLoopbackAddress_def dest!: on_world_table split: prod.splits sum.splits)
  show "running l1 = running l" using run_children_table [OF 4 tc] by (simp add: table_def)
  have "started la = started l" using on_world_started [OF 1] .
  moreover have "started lb = started la"
    using 2 by (auto simp: make_dirs_def dest!: on_world_started split: prod.splits if_splits)
  moreover have "started lc = started lb"
    using 3 by (auto simp: freeLoopbackAddress_def dest!: on_world_started split: prod.splits sum.splits)
  ultimately show "started l1 = started l + (if hc_EnableMonitor cfg then 3 else 2)"
    using run_children_started [OF 4] by simp
qed

text \<open>\<open>evidence env cfg l ws rep events samples\<close>: in the state \<open>l\<close> the writer's state file says \<open>ws\<close>, and
  \<open>rep\<close> is the analyser's report on the log files there, against the writer's count; after \<open>rep\<close> has
  been written to \<open>integrity.json\<close>, the tables say \<open>events\<close> and \<open>samples\<close>.\<close>

definition evidence :: "'w lab_env \<Rightarrow> HarnessConfig \<Rightarrow> 'w lab \<Rightarrow> WriterState \<Rightarrow> IntegrityReport \<Rightarrow>
    RotationEvent list \<Rightarrow> Sample list \<Rightarrow> bool" where
  "evidence env cfg l ws rep events samples \<longleftrightarrow>
     read_state env (path_join [hc_ResultDir cfg, ''writer-state.json'']) (lab_world l) = Inr ws \<and>
     (\<exists>paths. collect_paths env (path_join [hc_LogDir cfg, ''envoy.log'']) (lab_world l) = Inr paths \<and>
        Analyze (le_read_log env (lab_world l)) (hc_RunID cfg) (ws_Generated ws) paths = Some (rep, None)) \<and>
     (\<exists>w. le_write_json env (path_join [hc_ResultDir cfg, ''integrity.json'']) (IntegrityValue rep) (lab_world l) =
          (None, w) \<and>
        read_tables env cfg (path_join [hc_ResultDir cfg, ''events.csv''])
          (path_join [hc_ResultDir cfg, ''samples.csv'']) w = Inr (events, samples))"

lemma collect_summary:
  assumes "collect env cfg (path_join [hc_LogDir cfg, ''envoy.log''])
      (path_join [hc_ResultDir cfg, ''writer-state.json'']) (path_join [hc_ResultDir cfg, ''events.csv''])
      (path_join [hc_ResultDir cfg, ''samples.csv'']) start l = Some ((s, None), l')"
  shows "\<exists>ws rep events samples. evidence env cfg l ws rep events samples \<and>
    describes cfg ws rep events samples s"
  using assms judged_summary [of cfg]
  by (fastforce simp: collect_def write_summary_def no_summary_def Let_def evidence_def on_world_def
      split: sum.splits option.splits prod.splits)

lemma Harness_Run_summary:
  assumes "Harness_Run env cfg l = Some ((s, None), l')"
  shows "\<exists>l1 ws rep events samples. children_ended env cfg l l1 \<and> evidence env cfg l1 ws rep events samples \<and>
    describes cfg ws rep events samples s"
proof -
  define cfg' where "cfg' = (if hc_Executable cfg = [] then cfg\<lparr>hc_Executable := le_arg0 env\<rparr> else cfg)"
  have fields: "hc_ResultDir cfg' = hc_ResultDir cfg" "hc_LogDir cfg' = hc_LogDir cfg"
      "hc_RunID cfg' = hc_RunID cfg" "hc_EnableMonitor cfg' = hc_EnableMonitor cfg"
    by (simp_all add: cfg'_def)
  let ?paths = "\<lambda>f. f (path_join [hc_LogDir cfg', ''envoy.log''])
      (path_join [hc_ResultDir cfg', ''writer-state.json'']) (path_join [hc_ResultDir cfg', ''events.csv''])
      (path_join [hc_ResultDir cfg', ''samples.csv''])"
  obtain start la lb listen lc l1 where "on_world (le_now env) l = (start, la)"
    "make_dirs env [hc_LogDir cfg, hc_ResultDir cfg] la = (None, lb)"
    "freeLoopbackAddress env lb = ((listen, None), lc)"
    and run: "?paths (run_children env cfg') listen start lc = (Inr (), l1)"
    and collected: "?paths (collect env cfg') start l1 = Some ((s, None), l')"
    using assms
    by (auto simp: Harness_Run_def Let_def no_summary_def cfg'_def fields [unfolded cfg'_def]
        split: prod.splits if_splits option.splits sum.splits)
  then have "children_ended env cfg l l1"
    unfolding children_ended_def cfg'_def [symmetric] fields by blast
  moreover from collect_summary [OF collected] obtain ws rep events samples where
      "evidence env cfg' l1 ws rep events samples" "describes cfg' ws rep events samples s"
    by blast
  moreover have "describes cfg' = describes cfg"
    by (simp add: cfg'_def executable_irrelevant)
  moreover have "evidence env cfg' = evidence env cfg"
    unfolding evidence_def [abs_def] read_tables_def [abs_def] fields ..
  ultimately show ?thesis by metis
qed

subsection \<open>A concrete experiment\<close>

text \<open>Every call succeeds, the three children end well, and the active file holds the records \<open>qs\<close>. The
  world counts the children waited for: before the third, there are no files.\<close>

definition sample_lab :: "WriterState \<Rightarrow> u64 list \<Rightarrow> nat lab_env" where
  "sample_lab ws qs =
     \<lparr>le_arg0 = ''loglab'', le_now = (\<lambda>w. (0, w)), le_mkdir_all = (\<lambda>p w. (None, w)),
      le_listen = (\<lambda>w. (Inr ''127.0.0.1:9'', w)), le_close_listener = (\<lambda>w. (None, w)),
      le_create = (\<lambda>p w. (None, w)), le_start = (\<lambda>c exe args p w. (None, w)),
      le_terminate = (\<lambda>c w. w), le_kill = (\<lambda>c w. w), le_race = (\<lambda>c t w. (True, w)),
      le_wait = (\<lambda>c w. (None, Suc w)), le_ctx_err = (\<lambda>w. ErrText ''context canceled''),
      le_polls = (\<lambda>url t w. ([\<lparr>po_response = Inr (200, []), po_done = False\<rparr>], w)),
      le_decode_body = (\<lambda>b. Inr ws),
      le_read_file = (\<lambda>w p. if w < 3 then Inl (PathError ''open'' p ENOENT) else Inr []),
      le_json_state = (\<lambda>b. Inr ws), le_glob = (\<lambda>w p. Inr []),
      le_read_log = (\<lambda>w p. if w < 3 then OpenError (PathError ''open'' p ENOENT) else sample_rd qs p),
      le_stat = (\<lambda>w p. False), le_write_json = (\<lambda>p v w. (None, w))\<rparr>"

definition sample_experiment :: HarnessConfig where
  "sample_experiment =
     \<lparr>hc_Executable = ''loglab'', hc_WriterExecutable = [], hc_RunID = ''r'', hc_Strategy = RenameReopen,
      hc_LogDir = ''/log'', hc_ResultDir = ''/res'', hc_MaxFileBytes = 48, hc_Rotations = 1,
      hc_MaxBackups = 0, hc_RecordBytes = 24, hc_BytesPerSecond = 24, hc_BufferBytes = 64,
      hc_FlushInterval = 1000000, hc_MonitorInterval = 1000000, hc_ResidentBytes = 0,
      hc_EnableMonitor = True\<rparr>"

definition sample_start :: "nat lab" where
  "sample_start = \<lparr>lab_world = 0, started = 0, running = []\<rparr>"

definition sample_lab_end :: "nat lab" where
  "sample_lab_end = \<lparr>lab_world = 3, started = 3, running = []\<rparr>"

lemma sample_lab_fields [simp]:
  "le_now (sample_lab ws qs) w = (0, w)" "le_mkdir_all (sample_lab ws qs) p w = (None, w)"
  "le_listen (sample_lab ws qs) w = (Inr ''127.0.0.1:9'', w)"
  "le_close_listener (sample_lab ws qs) w = (None, w)" "le_create (sample_lab ws qs) p w = (None, w)"
  "le_start (sample_lab ws qs) c exe args p w = (None, w)" "le_race (sample_lab ws qs) c t w = (True, w)"
  "le_wait (sample_lab ws qs) c w = (None, Suc w)" "le_terminate (sample_lab ws qs) c w = w"
  "le_polls (sample_lab ws qs) url ns w = ([\<lparr>po_response = Inr (200, []), po_done = False\<rparr>], w)"
  "le_read_file (sample_lab ws qs) 3 p = Inr []" "le_json_state (sample_lab ws qs) b = Inr ws"
  "le_glob (sample_lab ws qs) w p = Inr []" "le_read_log (sample_lab ws qs) 3 = sample_rd qs"
  "le_write_json (sample_lab ws qs) p v w = (None, w)"
  by (simp_all add: sample_lab_def)

lemma sample_experiment_fields [simp]:
  "hc_Executable sample_experiment = ''loglab''" "hc_WriterExecutable sample_experiment = []"
  "hc_RunID sample_experiment = ''r''" "hc_Strategy sample_experiment = RenameReopen"
  "hc_LogDir sample_experiment = ''/log''" "hc_ResultDir sample_experiment = ''/res''"
  "hc_EnableMonitor sample_experiment" "valid_harness_config sample_experiment"
  by (simp_all add: sample_experiment_def valid_harness_config_def)

lemma sample_start_fields [simp]:
  "lab_world sample_start = 0" "started sample_start = 0" "running sample_start = []"
  by (simp_all add: sample_start_def)

lemma read_empty_tables: "ReadEvents (Inr []) = Inr []" "ReadSamples (Inr []) = Inr []"
  by code_simp+

lemma sample_children:
  "run_children (sample_lab ws qs) sample_experiment a st e sa li start sample_start = (Inr (), sample_lab_end)"
  by (simp add: run_children_def writerInvocation_def startChild_def on_world_def waitHTTP_def
      start_monitor_def finish_children_def waitCommand_def reap_def waitReopens_def stopChild_def
      stop_result_def first_child_error_def sample_lab_end_def numeral_3_eq_3 split: prod.split)

lemma sample_lab_run:
  assumes "Analyze (sample_rd qs) ''r'' (ws_Generated ws) [''/log/envoy.log''] = Some (rep, None)"
  shows "\<exists>s. Harness_Run (sample_lab ws qs) sample_experiment sample_start = Some ((s, None), sample_lab_end) \<and>
    describes sample_experiment ws rep [] [] s"
proof -
  have path: "path_join [''/log'', ''envoy.log''] = ''/log/envoy.log''" by code_simp
  let ?J = "\<lambda>start now. judge sample_experiment (add_cgroup (sample_lab ws qs) 3
     (make_summary sample_experiment start now ws rep [] []))"
  have same: "sample_start\<lparr>lab_world := 0\<rparr> = sample_start" by (simp add: sample_start_def)
  have "collect (sample_lab ws qs) sample_experiment ''/log/envoy.log'' st e sa start sample_lab_end =
      Some ((?J start 0, None), sample_lab_end)" for st e sa start
    using assms by (simp add: collect_def read_state_def collect_paths_def write_summary_def
        on_world_def read_tables_def read_empty_tables sample_lab_end_def Let_def)
  then have "Harness_Run (sample_lab ws qs) sample_experiment sample_start = Some ((?J 0 0, None), sample_lab_end)"
    using sample_children [of ws qs]
    by (simp add: Harness_Run_def on_world_def make_dirs_def freeLoopbackAddress_def path same Let_def)
  then show ?thesis using judged_summary by (intro exI conjI)
qed

subsection \<open>Properties\<close>

text \<open>C32: no child survives \<open>Run\<close>. On every path, whichever call fails and whatever the children do,
  every child \<open>Run\<close> has started has been waited for when it returns.\<close>

theorem harness_reaps_children:
  assumes "Harness_Run env cfg l = Some (r, l')"
  shows "running l' = running l \<and> started l \<le> started l'"
  using Harness_Run_table [OF assms] by (simp add: table_def)

theorem harness_reaps_children_witness:
  "\<exists>r l'. Harness_Run (sample_lab (zero_WriterState\<lparr>ws_Generated := 2\<rparr>) [1, 2]) sample_experiment
      sample_start = Some (r, l') \<and> started l' = 3 \<and> running l' = []"
proof -
  have "\<exists>rep. Analyze (sample_rd [1, 2]) ''r'' 2 [''/log/envoy.log''] = Some (rep, None)"
    using Analyze_clean [of "[''/log/envoy.log'']" "sample_rd [1, 2]" 2 "''r''"]
    by (auto simp: sample_facts)
  then obtain r where "Harness_Run (sample_lab (zero_WriterState\<lparr>ws_Generated := 2\<rparr>) [1, 2])
      sample_experiment sample_start = Some (r, sample_lab_end)"
    using sample_lab_run [of "[1, 2]" "zero_WriterState\<lparr>ws_Generated := 2\<rparr>"] by auto
  with harness_reaps_children [OF this] show ?thesis by (auto simp: sample_lab_end_def)
qed

text \<open>C33: what a summary says is so. When \<open>Run\<close> returns a summary and nil, its children have ended: in
  the state \<open>l1\<close> that \<open>run_children\<close> left without error, the writer, the rotator and, when it is
  enabled, the monitor have been started and waited for. The summary's writer state is the one in
  the writer's file then, its integrity report is \<open>Analyze\<close>'s on the log files of that moment
  against the writer's own count, its events and samples are those read right after this report
  was written, its peaks are the maxima of the samples, and \<open>Success\<close> is the acceptance rule: no
  failed reopen and, for the baseline and rename-reopen, nothing missing, duplicated or malformed;
  there is an error text exactly when it is not met.\<close>

theorem harness_summary_faithful:
  assumes "Harness_Run env cfg l = Some ((s, None), l')"
  shows "\<exists>l1 ws rep events samples. children_ended env cfg l l1 \<and>
    running l1 = running l \<and> started l1 = started l + (if hc_EnableMonitor cfg then 3 else 2) \<and>
    evidence env cfg l1 ws rep events samples \<and> describes cfg ws rep events samples s"
  using Harness_Run_summary [OF assms] children_ended_table by blast

theorem harness_summary_faithful_witness:
  "\<exists>ws rep s. children_ended (sample_lab (zero_WriterState\<lparr>ws_Generated := 2\<rparr>) [1, 2]) sample_experiment
       sample_start sample_lab_end \<and>
     evidence (sample_lab (zero_WriterState\<lparr>ws_Generated := 2\<rparr>) [1, 2]) sample_experiment sample_lab_end ws rep [] [] \<and>
     describes sample_experiment ws rep [] [] s"
proof -
  let ?env = "sample_lab (zero_WriterState\<lparr>ws_Generated := 2\<rparr>) [1, 2]"
  have "\<exists>rep. Analyze (sample_rd [1, 2]) ''r'' 2 [''/log/envoy.log''] = Some (rep, None)"
    using Analyze_clean [of "[''/log/envoy.log'']" "sample_rd [1, 2]" 2 "''r''"]
    by (auto simp: sample_facts)
  then obtain s l' where "Harness_Run ?env sample_experiment sample_start = Some ((s, None), l')"
    using sample_lab_run [of "[1, 2]" "zero_WriterState\<lparr>ws_Generated := 2\<rparr>"] by auto
  then obtain l1 ws rep events samples where e: "children_ended ?env sample_experiment sample_start l1"
      "evidence ?env sample_experiment l1 ws rep events samples"
      "describes sample_experiment ws rep events samples s"
    using harness_summary_faithful by blast
  have same: "sample_start\<lparr>lab_world := 0\<rparr> = sample_start" by (simp add: sample_start_def)
  have "children_ended ?env sample_experiment sample_start sample_lab_end"
    by (simp add: children_ended_def on_world_def make_dirs_def freeLoopbackAddress_def same
        sample_children)
  with e(1) have "l1 = sample_lab_end" by (rule children_ended_unique)
  moreover from this have "events = [] \<and> samples = []"
    using e(2) by (auto simp: evidence_def read_tables_def read_empty_tables sample_lab_end_def)
  ultimately show ?thesis using e by auto
qed

end
