(* ===== verification/SweepSearch.thy ===== *)
theory SweepSearch
  imports Report
begin

text \<open>
  \<open>internal/sweep/search.go\<close>: the binary search for the smallest passing memory limit. The
  attempt runner (a function argument of the Go code) is a function on a world \<open>'w\<close>, so that
  it may depend on what happened before; \<open>ctx\<close> gives the error of the context once it is
  done. The closure \<open>test\<close> and its memo table are \<open>test_limit\<close> on a \<open>search_state\<close>; the loop
  is a \<open>partial_function\<close> over any such closure, and that it returns is a theorem.

  The locale \<open>limit_tester\<close> is what the search needs from \<open>test\<close>; \<open>attempt_runner\<close> is what
  \<open>test\<close> needs from the runner (interpreted on the Docker runner in \<open>Docker\<close>), and the second
  contract gives the first.
\<close>

record SearchConfig =
  sc_LowerMiB :: int
  sc_UpperMiB :: int
  sc_StepMiB :: int
  sc_Repetitions :: int
  sc_Strategy :: string

record 'w search_state =
  ss_world :: 'w
  ss_report :: SweepReport
  ss_tested :: "(int, bool) mapping"

type_synonym 'w AttemptRunner = "'w \<Rightarrow> SweepAttempt \<Rightarrow> SweepAttempt \<times> 'w"

definition alignUp :: "int \<Rightarrow> int \<Rightarrow> int" where
  "alignUp value step = wrap64 (go_div (wrap64 (value + step - 1)) step * step)"

definition alignDown :: "int \<Rightarrow> int \<Rightarrow> int" where
  "alignDown value step = wrap64 (go_div value step * step)"

definition count_failure :: "SweepAttempt \<Rightarrow> SweepReport \<Rightarrow> SweepReport" where
  "count_failure attempt r =
     (if sa_FailureKind attempt = ''oom'' then r\<lparr>sr_OOMFailures := sr_OOMFailures r + 1\<rparr>
      else if sa_FailureKind attempt = ''functional''
      then r\<lparr>sr_FunctionalFailures := sr_FunctionalFailures r + 1\<rparr>
      else if sa_FailureKind attempt = ''integrity''
      then r\<lparr>sr_IntegrityFailures := sr_IntegrityFailures r + 1\<rparr>
      else if sa_FailureKind attempt = ''timeout''
      then r\<lparr>sr_TimeoutFailures := sr_TimeoutFailures r + 1\<rparr>
      else r)"

definition add_attempt :: "SweepAttempt \<Rightarrow> SweepReport \<Rightarrow> SweepReport" where
  "add_attempt attempt r =
     count_failure attempt (r\<lparr>sr_Attempts := sr_Attempts r @ [attempt]\<rparr>)"

fun repeat_attempts ::
  "SearchConfig \<Rightarrow> ('w \<Rightarrow> go_error option) \<Rightarrow> 'w AttemptRunner \<Rightarrow> int \<Rightarrow> int list \<Rightarrow> bool \<Rightarrow>
   'w search_state \<Rightarrow> bool result \<times> 'w search_state" where
  "repeat_attempts cfg ctx run limit [] passed st = (Inr passed, st)"
| "repeat_attempts cfg ctx run limit (repetition # reps) passed st =
     (case ctx (ss_world st) of
        Some e \<Rightarrow> (Inl e, st)
      | None \<Rightarrow>
          (let (attempt, w) = run (ss_world st)
                 (zero_SweepAttempt\<lparr>sa_Strategy := sc_Strategy cfg, sa_LimitMiB := limit,
                    sa_Repetition := repetition\<rparr>)
           in repeat_attempts cfg ctx run limit reps (passed \<and> sa_Passed attempt)
                (st\<lparr>ss_world := w, ss_report := add_attempt attempt (ss_report st)\<rparr>)))"

definition test_limit ::
  "SearchConfig \<Rightarrow> ('w \<Rightarrow> go_error option) \<Rightarrow> 'w AttemptRunner \<Rightarrow> int \<Rightarrow>
   'w search_state \<Rightarrow> bool result \<times> 'w search_state" where
  "test_limit cfg ctx run limit st =
     (case Mapping.lookup (ss_tested st) limit of
        Some passed \<Rightarrow> (Inr passed, st)
      | None \<Rightarrow>
          (case repeat_attempts cfg ctx run limit [1 .. sc_Repetitions cfg] True st of
             (Inl e, st) \<Rightarrow> (Inl e, st)
           | (Inr passed, st) \<Rightarrow>
               (Inr passed, st\<lparr>ss_tested := Mapping.update limit passed (ss_tested st)\<rparr>)))"

definition search_mid :: "int \<Rightarrow> int \<Rightarrow> int \<Rightarrow> int" where
  "search_mid step fail pass =
     (let mid = alignDown (go_div (wrap64 (fail + pass)) 2) step
      in if mid \<le> fail then wrap64 (fail + step) else mid)"

partial_function (option) search_loop ::
  "int \<Rightarrow> (int \<Rightarrow> 's \<Rightarrow> bool result \<times> 's) \<Rightarrow> int \<Rightarrow> int \<Rightarrow> 's \<Rightarrow> ((int \<times> int) result \<times> 's) option"
where
  "search_loop step test fail pass st =
     (if step < wrap64 (pass - fail) then
        (case test (search_mid step fail pass) st of
           (Inl e, st') \<Rightarrow> Some (Inl e, st')
         | (Inr midPass, st') \<Rightarrow>
             (if midPass then search_loop step test fail (search_mid step fail pass) st'
              else search_loop step test (search_mid step fail pass) pass st'))
      else Some (Inr (fail, pass), st))"

definition sweep_start :: "SearchConfig \<Rightarrow> SweepReport" where
  "sweep_start cfg = zero_SweepReport\<lparr>sr_SchemaVersion := SchemaVersion,
     sr_Strategy := sc_Strategy cfg, sr_LowerMiB := sc_LowerMiB cfg, sr_UpperMiB := sc_UpperMiB cfg,
     sr_StepMiB := sc_StepMiB cfg, sr_Repetitions := sc_Repetitions cfg\<rparr>"

definition valid_config :: "SearchConfig \<Rightarrow> bool" where
  "valid_config cfg \<longleftrightarrow> \<not> (sc_LowerMiB cfg \<le> 0 \<or> sc_UpperMiB cfg < sc_LowerMiB cfg \<or>
     sc_StepMiB cfg \<le> 0 \<or> sc_Repetitions cfg \<le> 0)"

definition finish_search ::
  "(int \<times> int) result \<times> 'w search_state \<Rightarrow> SweepReport \<times> go_error option \<times> 'w" where
  "finish_search = (\<lambda>(res, st). case res of
     Inl e \<Rightarrow> (ss_report st, Some e, ss_world st)
   | Inr (fail, pass) \<Rightarrow>
       ((ss_report st)\<lparr>sr_MinimumPassMiB := pass, sr_GreatestFailMiB := fail,
           sr_BoundaryResolved := True\<rparr>, None, ss_world st))"

definition Search ::
  "('w \<Rightarrow> go_error option) \<Rightarrow> SearchConfig \<Rightarrow> 'w AttemptRunner \<Rightarrow> 'w \<Rightarrow>
   (SweepReport \<times> go_error option \<times> 'w) option" where
  "Search ctx cfg run w =
     (let result = sweep_start cfg in
      if \<not> valid_config cfg then Some (result, Some (ErrText ''invalid sweep configuration''), w)
      else
        let lower = alignUp (sc_LowerMiB cfg) (sc_StepMiB cfg);
            upper = alignDown (sc_UpperMiB cfg) (sc_StepMiB cfg)
        in if upper < lower then Some (result, Some (ErrText ''empty aligned range''), w)
        else
          (case test_limit cfg ctx run upper
                  \<lparr>ss_world = w, ss_report = result, ss_tested = Mapping.empty\<rparr> of
             (Inl e, st) \<Rightarrow> Some (ss_report st, Some e, ss_world st)
           | (Inr upperPass, st) \<Rightarrow>
               if \<not> upperPass
               then Some ((ss_report st)\<lparr>sr_GreatestFailMiB := upper\<rparr>,
                      Some (ErrText (''upper memory limit '' @ format_int upper @ '' MiB did not pass'')),
                      ss_world st)
               else
                 (case test_limit cfg ctx run lower st of
                    (Inl e, st) \<Rightarrow> Some (ss_report st, Some e, ss_world st)
                  | (Inr lowerPass, st) \<Rightarrow>
                      if lowerPass
                      then Some ((ss_report st)\<lparr>sr_MinimumPassMiB := lower\<rparr>, None, ss_world st)
                      else map_option finish_search
                        (search_loop (sc_StepMiB cfg) (test_limit cfg ctx run) lower upper st))))"

subsection \<open>Aligned arithmetic\<close>

lemma alignUp_eq:
  assumes "0 < v" and "0 < s" and "v + s \<le> 2 ^ 62"
  shows "alignUp v s = (v + s - 1) div s * s"
proof -
  have "go_div (v + s - 1) s = (v + s - 1) div s" using assms by (simp add: go_div_nonneg)
  moreover have "0 \<le> (v + s - 1) div s * s" "(v + s - 1) div s * s \<le> v + s - 1"
    using go_div_bounds [of "v + s - 1" s] assms by (simp_all add: go_div_nonneg)
  moreover have "in_int64 (v + s - 1)" using assms by (simp add: in_int64_def)
  ultimately show ?thesis using assms by (simp add: alignUp_def wrap64_id in_int64_def)
qed

lemma alignDown_eq:
  assumes "0 \<le> v" and "0 < s" and "v < 2 ^ 63"
  shows "alignDown v s = v div s * s"
proof -
  have "0 \<le> v div s * s" "v div s * s \<le> v"
    using go_div_bounds [of v s] assms by (simp_all add: go_div_nonneg)
  then show ?thesis using assms by (simp add: alignDown_def go_div_nonneg wrap64_id in_int64_def)
qed

lemma alignUp_bounds:
  assumes "0 < v" and "0 < s" and "v + s \<le> 2 ^ 62"
  shows "v \<le> alignUp v s" and "alignUp v s < v + s" and "s dvd alignUp v s"
  using go_div_bounds [of "v + s - 1" s] assms by (simp_all add: alignUp_eq go_div_nonneg)

lemma alignDown_bounds:
  assumes "0 \<le> v" and "0 < s" and "v < 2 ^ 63"
  shows "alignDown v s \<le> v" and "v < alignDown v s + s" and "s dvd alignDown v s"
    and "0 \<le> alignDown v s"
  using go_div_bounds [of v s] assms by (simp_all add: alignDown_eq go_div_nonneg)

text \<open>Between two aligned limits more than a step apart the middle is aligned and strictly
  between them; the test \<open>mid <= fail\<close> of the code never holds there.\<close>

lemma search_mid_eq:
  assumes "0 < s" and "0 \<le> f" and "1 < p - f" and "p * s \<le> 2 ^ 62"
  shows "search_mid s (f * s) (p * s) = (f + p) div 2 * s"
    and "alignDown (go_div (wrap64 (f * s + p * s)) 2) s > f * s"
proof -
  have fs: "0 \<le> f * s" "f * s < p * s" using assms by simp_all
  then have w: "wrap64 (f * s + p * s) = (f + p) * s"
    using assms(4) by (simp add: wrap64_id in_int64_def algebra_simps)
  have g: "go_div ((f + p) * s) 2 = (f + p) * s div 2"
    using assms by (simp add: go_div_nonneg)
  have "(f + p) * s div 2 div s = (f + p) * s div (2 * s)"
    using assms(1) by (simp add: zdiv_zmult2_eq)
  also have "\<dots> = (f + p) div 2" using assms(1) by simp
  finally have d: "(f + p) * s div 2 div s = (f + p) div 2" .
  have "(f + p) * s = f * s + p * s" by (simp add: algebra_simps)
  then have "0 \<le> (f + p) * s" "(f + p) * s < 2 ^ 63" using fs assms(4) by simp_all
  then have "0 \<le> (f + p) * s div 2" "(f + p) * s div 2 < 2 ^ 63" by linarith+
  then have a: "alignDown ((f + p) * s div 2) s = (f + p) div 2 * s"
    using assms(1) by (simp add: alignDown_eq d)
  have "f < (f + p) div 2" using assms(3) by linarith
  then have gt: "f * s < (f + p) div 2 * s" using assms(1) by simp
  show "search_mid s (f * s) (p * s) = (f + p) div 2 * s"
    using gt by (simp add: search_mid_def w g a)
  show "alignDown (go_div (wrap64 (f * s + p * s)) 2) s > f * s"
    using gt by (simp only: w g a)
qed

lemma wrap64_gap:
  assumes "0 < s" and "0 \<le> f" and "f \<le> p" and "p * s \<le> 2 ^ 62"
  shows "s < wrap64 (p * s - f * s) \<longleftrightarrow> 1 < p - f"
proof -
  have "0 \<le> f * s" "f * s \<le> p * s" using assms by (simp_all add: mult_right_mono)
  then have "wrap64 (p * s - f * s) = (p - f) * s"
    using assms(4) by (simp add: wrap64_id in_int64_def algebra_simps)
  then show ?thesis using assms(1) by simp
qed

subsection \<open>What the search needs from a test, and what it then finds\<close>

text \<open>\<open>verdict st L b\<close>: in state \<open>st\<close> the outcome of limit \<open>L\<close> is known to be \<open>b\<close>. \<open>cost\<close> counts
  the limits tried.\<close>

locale limit_tester =
  fixes test :: "int \<Rightarrow> 's \<Rightarrow> bool result \<times> 's"
    and inv :: "'s \<Rightarrow> bool" and verdict :: "'s \<Rightarrow> int \<Rightarrow> bool \<Rightarrow> bool" and cost :: "'s \<Rightarrow> nat"
  assumes test_result: "inv st \<Longrightarrow> test L st = (Inr b, st') \<Longrightarrow>
      inv st' \<and> verdict st' L b \<and> cost st' \<le> cost st + 1"
    and test_keeps: "inv st \<Longrightarrow> test L st = (Inr b, st') \<Longrightarrow> verdict st L' b' \<Longrightarrow> verdict st' L' b'"

lemma search_loop_returns:
  assumes "0 < s" and "0 \<le> f" and "f < p" and "p * s \<le> 2 ^ 62"
  shows "\<exists>x. search_loop s test (f * s) (p * s) st = Some x"
  using assms
proof (induction "nat (p - f)" arbitrary: f p st rule: less_induct)
  case less
  show ?case
  proof (cases "1 < p - f")
    case False
    with less.prems show ?thesis
      by (subst search_loop.simps) (simp add: wrap64_gap)
  next
    case True
    let ?m = "(f + p) div 2"
    have m: "f < ?m" "?m < p" using True by linarith+
    have "?m * s \<le> p * s" using m(2) less.prems(1) by simp
    then have ms: "?m * s \<le> 2 ^ 62" using less.prems(4) by linarith
    have L: "\<exists>x. search_loop s test (f * s) (?m * s) st = Some x" for st
      using less.hyps [of ?m f st] m less.prems ms by simp
    have R: "\<exists>x. search_loop s test (?m * s) (p * s) st = Some x" for st
      using less.hyps [of p ?m st] m less.prems by simp
    show ?thesis
      using True less.prems L R
      by (subst search_loop.simps)
        (simp add: wrap64_gap search_mid_eq split: prod.split sum.split)
  qed
qed

lemma ceillog2_halves:
  assumes "2 \<le> n" and "m \<le> (n + 1) div 2"
  shows "Suc (ceillog2 m) \<le> ceillog2 n"
proof -
  have "ceillog2 n = 1 + ceillog2 ((n + 1) div 2)"
    using assms(1) by (subst ceillog2_rec) simp_all
  then show ?thesis using ceillog2_mono [OF assms(2)] by simp
qed

context limit_tester
begin

lemma search_loop_boundary:
  assumes "0 < s" and "0 \<le> f" and "f < p" and "p * s \<le> 2 ^ 62"
    and "inv st" and "verdict st (f * s) False" and "verdict st (p * s) True"
    and "search_loop s test (f * s) (p * s) st = Some (Inr (fl, ps), st')"
  shows "\<exists>g. f \<le> g \<and> g < p \<and> fl = g * s \<and> ps = (g + 1) * s \<and> inv st' \<and>
    verdict st' fl False \<and> verdict st' ps True \<and> cost st' \<le> cost st + ceillog2 (nat (p - f))"
  using assms
proof (induction "nat (p - f)" arbitrary: f p st rule: less_induct)
  case less
  show ?case
  proof (cases "1 < p - f")
    case False
    then have p: "p = f + 1" using less.prems(3) by simp
    with less.prems show ?thesis
      by (intro exI [of _ f]) (auto simp: search_loop.simps [of s test] wrap64_gap)
  next
    case True
    let ?m = "(f + p) div 2"
    have m: "f < ?m" "?m < p" using True by linarith+
    have "?m * s \<le> p * s" using m(2) less.prems(1) by simp
    then have ms: "?m * s \<le> 2 ^ 62" using less.prems(4) by linarith
    have loop: "search_loop s test (f * s) (p * s) st =
        (case test (?m * s) st of
           (Inl e, st') \<Rightarrow> Some (Inl e, st')
         | (Inr b, st') \<Rightarrow> (if b then search_loop s test (f * s) (?m * s) st'
              else search_loop s test (?m * s) (p * s) st'))"
      using True less.prems
      by (subst search_loop.simps)
        (simp add: wrap64_gap search_mid_eq split: prod.split sum.split)
    with less.prems(8) obtain b st1 where t: "test (?m * s) st = (Inr b, st1)"
      by (auto split: prod.splits sum.splits)
    note r = test_result [OF less.prems(5) t] and k = test_keeps [OF less.prems(5) t]
    have half: "Suc (ceillog2 (nat (?m - f))) \<le> ceillog2 (nat (p - f))"
        "Suc (ceillog2 (nat (p - ?m))) \<le> ceillog2 (nat (p - f))"
      using True by (intro ceillog2_halves; linarith)+
    show ?thesis
    proof (cases b)
      case True
      with loop t less.prems(8) have
        "search_loop s test (f * s) (?m * s) st1 = Some (Inr (fl, ps), st')" by simp
      moreover have "nat (?m - f) < nat (p - f)" using m by simp
      moreover have "verdict st1 (f * s) False" "verdict st1 (?m * s) True" "inv st1"
        using r k less.prems(6) True by simp_all
      ultimately obtain g where "f \<le> g" "g < ?m" "fl = g * s" "ps = (g + 1) * s" "inv st'"
          "verdict st' fl False" "verdict st' ps True"
          "cost st' \<le> cost st1 + ceillog2 (nat (?m - f))"
        using less.hyps [of ?m f st1] less.prems(1,2) m(1) ms by blast
      then show ?thesis using m(2) r half(1) by (intro exI [of _ g]) linarith
    next
      case False
      with loop t less.prems(8) have
        "search_loop s test (?m * s) (p * s) st1 = Some (Inr (fl, ps), st')" by simp
      moreover have "nat (p - ?m) < nat (p - f)" using m by simp
      moreover have "verdict st1 (?m * s) False" "verdict st1 (p * s) True" "inv st1" "0 \<le> ?m"
        using r k less.prems(2,7) m False by simp_all
      ultimately obtain g where "?m \<le> g" "g < p" "fl = g * s" "ps = (g + 1) * s" "inv st'"
          "verdict st' fl False" "verdict st' ps True"
          "cost st' \<le> cost st1 + ceillog2 (nat (p - ?m))"
        using less.hyps [of p ?m st1] less.prems(1,4) m(2) by blast
      then show ?thesis using m(1) r half(2) by (intro exI [of _ g]) linarith
    qed
  qed
qed

end

subsection \<open>What a test needs from the attempt runner\<close>

locale attempt_runner =
  fixes run :: "'w AttemptRunner"
  assumes run_keeps: "run w a = (a', w') \<Longrightarrow>
      sa_Strategy a' = sa_Strategy a \<and> sa_LimitMiB a' = sa_LimitMiB a \<and>
      sa_Repetition a' = sa_Repetition a"

definition attempts_at :: "int \<Rightarrow> SweepAttempt list \<Rightarrow> SweepAttempt list" where
  "attempts_at L as = filter (\<lambda>a. sa_LimitMiB a = L) as"

text \<open>A limit has been tried in full: one attempt per repetition, in order; \<open>b\<close> says whether all
  of them passed.\<close>

definition tried :: "SearchConfig \<Rightarrow> SweepAttempt list \<Rightarrow> int \<Rightarrow> bool \<Rightarrow> bool" where
  "tried cfg as L b \<longleftrightarrow>
     map sa_Repetition (attempts_at L as) = [1 .. sc_Repetitions cfg] \<and>
     (b \<longleftrightarrow> list_all sa_Passed (attempts_at L as))"

definition kind_count :: "string \<Rightarrow> SweepAttempt list \<Rightarrow> int" where
  "kind_count k as = int (length (filter (\<lambda>a. sa_FailureKind a = k) as))"

text \<open>The report after the attempts \<open>as\<close>: all fields but the attempts and the four failure
  counters are those of the start.\<close>

definition report_after :: "SearchConfig \<Rightarrow> SweepAttempt list \<Rightarrow> SweepReport" where
  "report_after cfg as = (sweep_start cfg)\<lparr>sr_OOMFailures := kind_count ''oom'' as,
     sr_FunctionalFailures := kind_count ''functional'' as,
     sr_IntegrityFailures := kind_count ''integrity'' as,
     sr_TimeoutFailures := kind_count ''timeout'' as, sr_Attempts := as\<rparr>"

lemma report_after_Nil: "report_after cfg [] = sweep_start cfg"
  by (simp add: report_after_def kind_count_def sweep_start_def zero_SweepReport_def)

lemma add_attempt_after: "add_attempt a (report_after cfg as) = report_after cfg (as @ [a])"
  by (simp add: add_attempt_def count_failure_def report_after_def kind_count_def)

lemma report_after_fields [simp]:
  "sr_Attempts (report_after cfg as) = as"
  "sr_Repetitions (report_after cfg as) = sc_Repetitions cfg"
  "sr_Strategy (report_after cfg as) = sc_Strategy cfg"
  "sr_OOMFailures (report_after cfg as) = kind_count ''oom'' as"
  "sr_FunctionalFailures (report_after cfg as) = kind_count ''functional'' as"
  "sr_IntegrityFailures (report_after cfg as) = kind_count ''integrity'' as"
  "sr_TimeoutFailures (report_after cfg as) = kind_count ''timeout'' as"
  "sr_MinimumPassMiB (report_after cfg as) = 0" "sr_GreatestFailMiB (report_after cfg as) = 0"
  "\<not> sr_BoundaryResolved (report_after cfg as)"
  by (simp_all add: report_after_def sweep_start_def zero_SweepReport_def)

text \<open>The invariant of the search state: the report is the one of the attempts made, the memo
  table knows exactly the limits tried, and every attempt is of the configured strategy.\<close>

definition memo_ok :: "SearchConfig \<Rightarrow> 'w search_state \<Rightarrow> bool" where
  "memo_ok cfg st \<longleftrightarrow>
     (\<exists>as. ss_report st = report_after cfg as \<and>
        (\<forall>a \<in> set as. sa_Strategy a = sc_Strategy cfg) \<and>
        finite (Mapping.keys (ss_tested st)) \<and>
        length as = nat (sc_Repetitions cfg) * Mapping.size (ss_tested st) \<and>
        (\<forall>L. case Mapping.lookup (ss_tested st) L of
               None \<Rightarrow> attempts_at L as = []
             | Some b \<Rightarrow> tried cfg as L b))"

definition known :: "'w search_state \<Rightarrow> int \<Rightarrow> bool \<Rightarrow> bool" where
  "known st L b \<longleftrightarrow> Mapping.lookup (ss_tested st) L = Some b"

definition limits_tried :: "'w search_state \<Rightarrow> nat" where
  "limits_tried st = Mapping.size (ss_tested st)"

lemma memo_ok_known:
  "memo_ok cfg st \<Longrightarrow> known st L b \<Longrightarrow> tried cfg (sr_Attempts (ss_report st)) L b"
  by (auto simp: memo_ok_def known_def split: option.splits)

lemma memo_ok_start:
  "memo_ok cfg \<lparr>ss_world = w, ss_report = sweep_start cfg, ss_tested = Mapping.empty\<rparr>"
  by (auto simp: memo_ok_def report_after_Nil [symmetric] attempts_at_def Mapping.lookup_empty
      intro!: exI [of _ "[]"])

context attempt_runner
begin

lemma repeat_attempts_spec:
  assumes "ss_report st = report_after cfg as"
    and "repeat_attempts cfg ctx run L reps passed st = (res, st')"
  shows "\<exists>new. ss_report st' = report_after cfg (as @ new) \<and> ss_tested st' = ss_tested st \<and>
    (\<forall>a \<in> set new. sa_LimitMiB a = L \<and> sa_Strategy a = sc_Strategy cfg) \<and>
    (\<forall>b. res = Inr b \<longrightarrow> map sa_Repetition new = reps \<and> (b \<longleftrightarrow> passed \<and> list_all sa_Passed new))"
  using assms
proof (induction reps arbitrary: passed st as)
  case Nil
  then show ?case by (auto intro!: exI [of _ "[]"])
next
  case (Cons k reps)
  show ?case
  proof (cases "ctx (ss_world st)")
    case (Some e)
    with Cons.prems show ?thesis by (auto intro!: exI [of _ "[]"])
  next
    case None
    let ?a = "zero_SweepAttempt\<lparr>sa_Strategy := sc_Strategy cfg, sa_LimitMiB := L, sa_Repetition := k\<rparr>"
    obtain a w where r: "run (ss_world st) ?a = (a, w)" by fastforce
    from run_keeps [OF r] have a: "sa_LimitMiB a = L" "sa_Strategy a = sc_Strategy cfg"
        "sa_Repetition a = k" by simp_all
    let ?st = "st\<lparr>ss_world := w, ss_report := add_attempt a (ss_report st)\<rparr>"
    have "ss_report ?st = report_after cfg (as @ [a])"
      using Cons.prems(1) by (simp add: add_attempt_after)
    moreover have "repeat_attempts cfg ctx run L reps (passed \<and> sa_Passed a) ?st = (res, st')"
      using Cons.prems(2) None r by simp
    ultimately obtain new where "ss_report st' = report_after cfg (as @ a # new)"
        "ss_tested st' = ss_tested st"
        "\<forall>a \<in> set new. sa_LimitMiB a = L \<and> sa_Strategy a = sc_Strategy cfg"
        "\<forall>b. res = Inr b \<longrightarrow> map sa_Repetition new = reps \<and>
          (b \<longleftrightarrow> (passed \<and> sa_Passed a) \<and> list_all sa_Passed new)"
      using Cons.IH by fastforce
    with a show ?thesis by (intro exI [of _ "a # new"]) auto
  qed
qed

lemma test_limit_spec:
  assumes ok: "memo_ok cfg st" and t: "test_limit cfg ctx run L st = (Inr b, st')"
  shows "memo_ok cfg st' \<and> known st' L b \<and> limits_tried st' \<le> limits_tried st + 1"
proof (cases "Mapping.lookup (ss_tested st) L")
  case (Some b')
  with t ok show ?thesis by (simp add: test_limit_def known_def)
next
  case None
  from ok obtain as where as: "ss_report st = report_after cfg as"
      "\<forall>a \<in> set as. sa_Strategy a = sc_Strategy cfg" "finite (Mapping.keys (ss_tested st))"
      "length as = nat (sc_Repetitions cfg) * Mapping.size (ss_tested st)"
    and memo: "\<And>L. case Mapping.lookup (ss_tested st) L of None \<Rightarrow> attempts_at L as = []
        | Some b \<Rightarrow> tried cfg as L b"
    by (auto simp: memo_ok_def)
  from t None obtain st1 where
    r: "repeat_attempts cfg ctx run L [1 .. sc_Repetitions cfg] True st = (Inr b, st1)"
    and st': "st' = st1\<lparr>ss_tested := Mapping.update L b (ss_tested st1)\<rparr>"
    by (auto simp: test_limit_def split: prod.splits sum.splits)
  from repeat_attempts_spec [OF as(1) r] obtain new where
    new: "ss_report st1 = report_after cfg (as @ new)" "ss_tested st1 = ss_tested st"
      "\<forall>a \<in> set new. sa_LimitMiB a = L \<and> sa_Strategy a = sc_Strategy cfg"
      "map sa_Repetition new = [1 .. sc_Repetitions cfg]" "b \<longleftrightarrow> list_all sa_Passed new"
    by auto
  have L: "L \<notin> Mapping.keys (ss_tested st)" using None by (simp add: keys_is_none_rep)
  have size: "Mapping.size (ss_tested st') = Mapping.size (ss_tested st) + 1"
    using L as(3) by (simp add: st' new(2) Mapping.size_def)
  have "length new = nat (sc_Repetitions cfg)"
    using new(4) by (metis length_map length_upto diff_add_cancel)
  then have len: "length (as @ new) = nat (sc_Repetitions cfg) * Mapping.size (ss_tested st')"
    using as(4) size by (simp add: algebra_simps)
  have at_L: "attempts_at L (as @ new) = new"
    using memo [of L] None new(3) by (simp add: attempts_at_def)
  have at_other: "attempts_at L' (as @ new) = attempts_at L' as" if "L' \<noteq> L" for L'
    using that new(3) by (auto simp: attempts_at_def filter_empty_conv)
  have "case Mapping.lookup (ss_tested st') L' of None \<Rightarrow> attempts_at L' (as @ new) = []
      | Some b \<Rightarrow> tried cfg (as @ new) L' b" for L'
    using memo [of L'] at_L at_other new(4,5)
    by (cases "L' = L") (auto simp: st' new(2) lookup_update' tried_def split: option.splits)
  then have "memo_ok cfg st'"
    using as(2,3) new(1,3) len
    by (auto simp: memo_ok_def st' new(2) intro!: exI [of _ "as @ new"])
  then show ?thesis
    by (simp add: known_def limits_tried_def size) (simp add: st' lookup_update)
qed

lemma test_limit_keeps:
  assumes "memo_ok cfg st" and t: "test_limit cfg ctx run L st = (Inr b, st')" and "known st L' b'"
  shows "known st' L' b'"
proof (cases "Mapping.lookup (ss_tested st) L")
  case (Some b')
  with t assms(3) show ?thesis by (simp add: test_limit_def)
next
  case None
  from assms(1) obtain as where as: "ss_report st = report_after cfg as" by (auto simp: memo_ok_def)
  from t None obtain st1 where
    r: "repeat_attempts cfg ctx run L [1 .. sc_Repetitions cfg] True st = (Inr b, st1)"
    and st': "st' = st1\<lparr>ss_tested := Mapping.update L b (ss_tested st1)\<rparr>"
    by (auto simp: test_limit_def split: prod.splits sum.splits)
  from repeat_attempts_spec [OF as r] have "ss_tested st1 = ss_tested st" by auto
  with assms(3) None show ?thesis by (auto simp: known_def st' lookup_update')
qed

end

sublocale attempt_runner \<subseteq> tester:
    limit_tester "test_limit cfg ctx run" "memo_ok cfg" known limits_tried
  for cfg ctx
  by unfold_locales (auto intro: test_limit_keeps dest: test_limit_spec)

subsection \<open>The whole search\<close>

definition in_range :: "SearchConfig \<Rightarrow> bool" where
  "in_range cfg \<longleftrightarrow> sc_UpperMiB cfg + sc_StepMiB cfg \<le> 2 ^ 62"

abbreviation lower_of :: "SearchConfig \<Rightarrow> int" where
  "lower_of cfg \<equiv> alignUp (sc_LowerMiB cfg) (sc_StepMiB cfg)"

abbreviation upper_of :: "SearchConfig \<Rightarrow> int" where
  "upper_of cfg \<equiv> alignDown (sc_UpperMiB cfg) (sc_StepMiB cfg)"

lemma aligned_bounds:
  assumes "valid_config cfg" and "in_range cfg"
  obtains f p where "lower_of cfg = f * sc_StepMiB cfg" "upper_of cfg = p * sc_StepMiB cfg"
    "0 < sc_StepMiB cfg" "0 \<le> f" "p * sc_StepMiB cfg \<le> 2 ^ 62"
    "sc_LowerMiB cfg \<le> lower_of cfg" "lower_of cfg < sc_LowerMiB cfg + sc_StepMiB cfg"
    "upper_of cfg \<le> sc_UpperMiB cfg" "sc_UpperMiB cfg < upper_of cfg + sc_StepMiB cfg"
proof -
  let ?s = "sc_StepMiB cfg"
  have v: "0 < sc_LowerMiB cfg" "sc_LowerMiB cfg \<le> sc_UpperMiB cfg" "0 < ?s"
      "sc_LowerMiB cfg + ?s \<le> 2 ^ 62" "sc_UpperMiB cfg < 2 ^ 63" "0 \<le> sc_UpperMiB cfg"
      "sc_UpperMiB cfg \<le> 2 ^ 62"
    using assms by (auto simp: valid_config_def in_range_def)
  note up = alignUp_bounds [OF v(1,3,4)] and down = alignDown_bounds [OF v(6,3,5)]
  obtain f p where f: "lower_of cfg = f * ?s" and p: "upper_of cfg = p * ?s"
    using up(3) down(3) by (metis dvdE mult.commute)
  have "0 \<le> f * ?s" using up(1) v(1) by (simp flip: f)
  then have "0 \<le> f" using v(3) by (simp add: zero_le_mult_iff)
  with that [OF f p v(3)] up down v(7) show thesis by (simp flip: p)
qed

lemma Search_returns:
  assumes "in_range cfg"
  shows "Search ctx cfg run w \<noteq> None"
proof (cases "valid_config cfg \<and> \<not> upper_of cfg < lower_of cfg")
  case False
  then show ?thesis by (auto simp: Search_def Let_def)
next
  case True
  then obtain f p where b: "lower_of cfg = f * sc_StepMiB cfg" "upper_of cfg = p * sc_StepMiB cfg"
      "0 < sc_StepMiB cfg" "0 \<le> f" "p * sc_StepMiB cfg \<le> 2 ^ 62"
    using aligned_bounds assms by metis
  have loop: "search_loop (sc_StepMiB cfg) (test_limit cfg ctx run) (lower_of cfg) (upper_of cfg) st \<noteq> None" for st
  proof (cases "f < p")
    case True
    with search_loop_returns [OF b(3,4) True b(5)] show ?thesis by (auto simp: b(1,2))
  next
    case False
    with True b have "f = p" by simp
    with b show ?thesis by (subst search_loop.simps) (simp add: wrap64_id in_int64_def)
  qed
  from True show ?thesis
    using loop by (simp add: Search_def Let_def del: not_None_eq split: prod.split sum.split)
qed

text \<open>What a report of a search that ended without error says about its attempts.\<close>

definition accepted :: "SweepReport \<Rightarrow> int \<Rightarrow> bool" where
  "accepted r L \<longleftrightarrow>
     map sa_Repetition (attempts_at L (sr_Attempts r)) = [1 .. sr_Repetitions r] \<and>
     list_all sa_Passed (attempts_at L (sr_Attempts r))"

definition rejected :: "SweepReport \<Rightarrow> int \<Rightarrow> bool" where
  "rejected r L \<longleftrightarrow>
     map sa_Repetition (attempts_at L (sr_Attempts r)) = [1 .. sr_Repetitions r] \<and>
     \<not> list_all sa_Passed (attempts_at L (sr_Attempts r))"

definition boundary_found :: "SearchConfig \<Rightarrow> SweepReport \<Rightarrow> bool" where
  "boundary_found cfg r \<longleftrightarrow>
     sr_Repetitions r = sc_Repetitions cfg \<and> sc_StepMiB cfg dvd sr_MinimumPassMiB r \<and>
     sc_LowerMiB cfg \<le> sr_MinimumPassMiB r \<and> sr_MinimumPassMiB r \<le> sc_UpperMiB cfg \<and>
     accepted r (sr_MinimumPassMiB r) \<and>
     (if sr_BoundaryResolved r
      then rejected r (sr_GreatestFailMiB r) \<and>
        sr_MinimumPassMiB r = sr_GreatestFailMiB r + sc_StepMiB cfg
      else sr_MinimumPassMiB r < sc_LowerMiB cfg + sc_StepMiB cfg)"

definition search_budget :: "SearchConfig \<Rightarrow> nat" where
  "search_budget cfg = nat (sc_Repetitions cfg) *
     (2 + ceillog2 (nat ((sc_UpperMiB cfg - sc_LowerMiB cfg) div sc_StepMiB cfg)))"

definition counters_agree :: "SweepReport \<Rightarrow> bool" where
  "counters_agree r \<longleftrightarrow>
     sr_OOMFailures r = kind_count ''oom'' (sr_Attempts r) \<and>
     sr_FunctionalFailures r = kind_count ''functional'' (sr_Attempts r) \<and>
     sr_IntegrityFailures r = kind_count ''integrity'' (sr_Attempts r) \<and>
     sr_TimeoutFailures r = kind_count ''timeout'' (sr_Attempts r)"

lemma tried_accepted:
  "tried cfg as L True \<Longrightarrow> sr_Attempts r = as \<Longrightarrow> sr_Repetitions r = sc_Repetitions cfg \<Longrightarrow>
   accepted r L"
  "tried cfg as L False \<Longrightarrow> sr_Attempts r = as \<Longrightarrow> sr_Repetitions r = sc_Repetitions cfg \<Longrightarrow>
   rejected r L"
  by (simp_all add: tried_def accepted_def rejected_def)

lemma memo_ok_report:
  assumes "memo_ok cfg st"
  shows "sr_Repetitions (ss_report st) = sc_Repetitions cfg"
    and "\<not> sr_BoundaryResolved (ss_report st)"
    and "length (sr_Attempts (ss_report st)) = nat (sc_Repetitions cfg) * limits_tried st"
  using assms by (auto simp: memo_ok_def limits_tried_def)

lemma Search_success_cases:
  assumes "Search ctx cfg run w = Some (r, None, w')"
  obtains (lower) st0 st where
    "test_limit cfg ctx run (upper_of cfg)
       \<lparr>ss_world = w, ss_report = sweep_start cfg, ss_tested = Mapping.empty\<rparr> = (Inr True, st0)"
    "test_limit cfg ctx run (lower_of cfg) st0 = (Inr True, st)"
    "r = (ss_report st)\<lparr>sr_MinimumPassMiB := lower_of cfg\<rparr>"
    "valid_config cfg" "lower_of cfg \<le> upper_of cfg"
  | (boundary) st0 st1 st fail pass where
    "test_limit cfg ctx run (upper_of cfg)
       \<lparr>ss_world = w, ss_report = sweep_start cfg, ss_tested = Mapping.empty\<rparr> = (Inr True, st0)"
    "test_limit cfg ctx run (lower_of cfg) st0 = (Inr False, st1)"
    "search_loop (sc_StepMiB cfg) (test_limit cfg ctx run) (lower_of cfg) (upper_of cfg) st1 =
       Some (Inr (fail, pass), st)"
    "r = (ss_report st)\<lparr>sr_MinimumPassMiB := pass, sr_GreatestFailMiB := fail,
       sr_BoundaryResolved := True\<rparr>"
    "valid_config cfg" "lower_of cfg \<le> upper_of cfg"
proof -
  from assms have v: "valid_config cfg" "lower_of cfg \<le> upper_of cfg"
    by (auto simp: Search_def Let_def split: if_splits)
  with assms obtain st0 where t0: "test_limit cfg ctx run (upper_of cfg)
       \<lparr>ss_world = w, ss_report = sweep_start cfg, ss_tested = Mapping.empty\<rparr> = (Inr True, st0)"
    by (auto simp: Search_def Let_def split: prod.splits sum.splits if_splits)
  with assms v obtain b st1 where t1: "test_limit cfg ctx run (lower_of cfg) st0 = (Inr b, st1)"
    by (auto simp: Search_def Let_def split: prod.splits sum.splits if_splits)
  show thesis
  proof (cases b)
    case True
    with assms v t0 t1 lower show thesis by (simp add: Search_def Let_def)
  next
    case False
    with assms v t0 t1 obtain x where
      loop: "search_loop (sc_StepMiB cfg) (test_limit cfg ctx run) (lower_of cfg) (upper_of cfg) st1 = Some x"
      and fin: "finish_search x = (r, None, w')"
      by (auto simp: Search_def Let_def)
    obtain fail pass st where x: "x = (Inr (fail, pass), st)"
      using fin by (cases x) (auto simp: finish_search_def split: sum.splits prod.splits)
    from t1 False have "test_limit cfg ctx run (lower_of cfg) st0 = (Inr False, st1)" by simp
    from boundary [OF t0 this loop [unfolded x] _ v] fin show thesis
      by (simp add: x finish_search_def)
  qed
qed

context attempt_runner
begin

lemma boundary_of_success:
  assumes "in_range cfg" and "Search ctx cfg run w = Some (r, None, w')"
  shows "boundary_found cfg r \<and> counters_agree r \<and>
    length (sr_Attempts r) \<le> search_budget cfg"
  using assms(2)
proof (cases rule: Search_success_cases)
  case (lower st0 st)
  have ok: "memo_ok cfg st" "known st (lower_of cfg) True" and cost: "limits_tried st \<le> 2"
    using test_limit_spec [OF memo_ok_start lower(1)] test_limit_spec [OF _ lower(2)]
    by (auto simp: limits_tried_def)
  obtain as where as: "ss_report st = report_after cfg as" using ok(1) by (auto simp: memo_ok_def)
  from aligned_bounds [OF lower(4) assms(1)] obtain f where
    b: "lower_of cfg = f * sc_StepMiB cfg" "sc_LowerMiB cfg \<le> lower_of cfg"
      "lower_of cfg < sc_LowerMiB cfg + sc_StepMiB cfg" "upper_of cfg \<le> sc_UpperMiB cfg"
    by metis
  have "tried cfg as (lower_of cfg) True" using memo_ok_known [OF ok] by (simp add: as)
  then have "accepted r (lower_of cfg)" by (rule tried_accepted) (simp_all add: lower(3) as)
  moreover have "limits_tried st \<le>
      2 + ceillog2 (nat ((sc_UpperMiB cfg - sc_LowerMiB cfg) div sc_StepMiB cfg))"
    using cost by simp
  then have "length as \<le> search_budget cfg"
    using memo_ok_report(3) [OF ok(1)]
    by (simp only: as report_after_fields search_budget_def mult_le_mono2)
  ultimately show ?thesis
    using b lower(5) by (simp add: lower(3) as boundary_found_def counters_agree_def)
next
  case (boundary st0 st1 st fail pass)
  from aligned_bounds [OF boundary(5) assms(1)] obtain f p where
    f: "lower_of cfg = f * sc_StepMiB cfg" and p: "upper_of cfg = p * sc_StepMiB cfg" and
    b: "0 < sc_StepMiB cfg" "0 \<le> f" "p * sc_StepMiB cfg \<le> 2 ^ 62"
      "sc_LowerMiB cfg \<le> lower_of cfg" "upper_of cfg \<le> sc_UpperMiB cfg"
    by metis
  have ok: "memo_ok cfg st1" "known st1 (lower_of cfg) False" "known st1 (upper_of cfg) True"
    and cost: "limits_tried st1 \<le> 2"
    using test_limit_spec [OF memo_ok_start boundary(1)] test_limit_spec [OF _ boundary(2)]
      test_limit_keeps [OF _ boundary(2)]
    by (auto simp: limits_tried_def)
  have "f \<noteq> p" using ok(2,3) f p by (auto simp: known_def)
  moreover have "f \<le> p" using boundary(6) b(1) by (simp add: f p)
  ultimately have "f < p" by simp
  from tester.search_loop_boundary [OF b(1,2) this b(3) ok(1) _ _ boundary(3) [unfolded f p]] ok(2,3)
  obtain g where g: "f \<le> g" "g < p" "fail = g * sc_StepMiB cfg" "pass = (g + 1) * sc_StepMiB cfg"
      "memo_ok cfg st" "known st fail False" "known st pass True"
      "limits_tried st \<le> limits_tried st1 + ceillog2 (nat (p - f))"
    by (auto simp: f p)
  obtain as where as: "ss_report st = report_after cfg as" using g(5) by (auto simp: memo_ok_def)
  have t: "accepted r pass" "rejected r fail"
    using tried_accepted [of cfg as _ r] memo_ok_known [OF g(5,6)] memo_ok_known [OF g(5,7)]
    by (simp_all add: as boundary(4))
  have "(p - f) * sc_StepMiB cfg \<le> sc_UpperMiB cfg - sc_LowerMiB cfg"
    using b(4,5) by (simp add: f p left_diff_distrib)
  then have "p - f \<le> (sc_UpperMiB cfg - sc_LowerMiB cfg) div sc_StepMiB cfg"
    using b(1) by (simp add: zdiv_mono1 [of _ _ "sc_StepMiB cfg", THEN order_trans [rotated]])
  then have "limits_tried st \<le> 2 + ceillog2 (nat ((sc_UpperMiB cfg - sc_LowerMiB cfg) div sc_StepMiB cfg))"
    using g(8) cost by (meson add_mono ceillog2_mono nat_mono order_trans)
  then have len: "length as \<le> search_budget cfg"
    using memo_ok_report(3) [OF g(5)]
    by (simp only: as report_after_fields search_budget_def mult_le_mono2)
  have "f * sc_StepMiB cfg \<le> pass" "pass \<le> p * sc_StepMiB cfg"
    using g(1,2,4) b(1) by simp_all
  with t b len g(3,4) show ?thesis
    by (simp add: boundary(4) as boundary_found_def counters_agree_def algebra_simps f p)
qed

end

subsection \<open>What every search keeps, failed ones included\<close>

lemma search_loop_preserves:
  assumes "search_loop step test fail pass st = Some (res, st')"
    and pres: "\<And>L st r st'. test L st = (r, st') \<Longrightarrow> P st \<Longrightarrow> P st'" and "P st"
  shows "P st'"
proof -
  have "test' = test \<longrightarrow> P st \<longrightarrow> P (snd x)" if "search_loop step' test' fail' pass' st = Some x"
    for step' test' fail' pass' st x
  proof (rule search_loop.raw_induct
      [where P = "\<lambda>_ test' _ _ st x. test' = test \<longrightarrow> P st \<longrightarrow> P (snd x)", OF _ that])
    fix f step' test' fail' pass' st x
    assume IH: "\<And>s t a b st x. f s t a b st = Some x \<Longrightarrow> t = test \<longrightarrow> P st \<longrightarrow> P (snd x)"
      and eq: "(if step' < wrap64 (pass' - fail') then
         (case test' (search_mid step' fail' pass') st of
            (Inl e, st') \<Rightarrow> Some (Inl e, st')
          | (Inr midPass, st') \<Rightarrow>
              (if midPass then f step' test' fail' (search_mid step' fail' pass') st'
               else f step' test' (search_mid step' fail' pass') pass' st'))
       else Some (Inr (fail', pass'), st)) = Some x"
    show "test' = test \<longrightarrow> P st \<longrightarrow> P (snd x)"
    proof (intro impI)
      assume t: "test' = test" and P: "P st"
      obtain r st1 where r: "test (search_mid step' fail' pass') st = (r, st1)" by fastforce
      from pres [OF r P] have "P st1" .
      with eq t P r show "P (snd x)"
        using IH [of step' test' fail' "search_mid step' fail' pass'" st1 x]
          IH [of step' test' "search_mid step' fail' pass'" pass' st1 x]
        by (auto split: if_splits sum.splits)
    qed
  qed
  from this [OF assms(1)] assms(3) show ?thesis by simp
qed

lemma Search_final_state:
  assumes "Search ctx cfg run w = Some (r, e, w')"
    and pres: "\<forall>L st res st'. test_limit cfg ctx run L st = (res, st') \<longrightarrow> P st \<longrightarrow> P st'"
    and start: "P \<lparr>ss_world = w, ss_report = sweep_start cfg, ss_tested = Mapping.empty\<rparr>"
  shows "\<exists>st m g b. P st \<and> ss_world st = w' \<and>
    r = (ss_report st)\<lparr>sr_MinimumPassMiB := m, sr_GreatestFailMiB := g, sr_BoundaryResolved := b\<rparr> \<and>
    (e \<noteq> None \<longrightarrow> m = sr_MinimumPassMiB (ss_report st) \<and> b = sr_BoundaryResolved (ss_report st))"
proof -
  define G where "G = (\<lambda>r (e :: go_error option) w'. \<exists>st m g b. P st \<and> ss_world st = w' \<and>
    r = (ss_report st)\<lparr>sr_MinimumPassMiB := m, sr_GreatestFailMiB := g, sr_BoundaryResolved := b\<rparr> \<and>
    (e \<noteq> None \<longrightarrow> m = sr_MinimumPassMiB (ss_report st) \<and> b = sr_BoundaryResolved (ss_report st)))"
  have GI: "G ((ss_report st)\<lparr>sr_MinimumPassMiB := m, sr_GreatestFailMiB := g, sr_BoundaryResolved := b\<rparr>)
      e (ss_world st)"
    if "P st" "e \<noteq> None \<Longrightarrow> m = sr_MinimumPassMiB (ss_report st) \<and> b = sr_BoundaryResolved (ss_report st)"
    for st m g b and e :: "go_error option"
    using that unfolding G_def by blast
  let ?st = "\<lparr>ss_world = w, ss_report = sweep_start cfg, ss_tested = Mapping.empty\<rparr>"
  have same: "G (ss_report st) e (ss_world st)" if "P st" for st e
    using GI [OF that, of e "sr_MinimumPassMiB (ss_report st)" "sr_BoundaryResolved (ss_report st)"
        "sr_GreatestFailMiB (ss_report st)"] by simp
  have upd: "G ((ss_report st)\<lparr>sr_GreatestFailMiB := g\<rparr>) e (ss_world st)" if "P st" for st e g
    using GI [OF that, of e "sr_MinimumPassMiB (ss_report st)" "sr_BoundaryResolved (ss_report st)" g]
    by simp
  have upd2: "G ((ss_report st)\<lparr>sr_MinimumPassMiB := m\<rparr>) None (ss_world st)" if "P st" for st m
    using GI [OF that, of None m "sr_BoundaryResolved (ss_report st)"
        "sr_GreatestFailMiB (ss_report st)"] by simp
  have fin: "G r e w'" if "P st" "finish_search (res, st) = (r, e, w')" for res st r e w'
    using that same [of st] GI [of st None]
    by (auto simp: finish_search_def split: sum.splits)
  obtain r0 st0 where t0: "test_limit cfg ctx run (upper_of cfg) ?st = (r0, st0)" by fastforce
  obtain r1 st1 where t1: "test_limit cfg ctx run (lower_of cfg) st0 = (r1, st1)" by fastforce
  have P: "P st0" "P st1" using pres t0 t1 start by blast+
  have loop: "P st" if "search_loop (sc_StepMiB cfg) (test_limit cfg ctx run) (lower_of cfg)
      (upper_of cfg) st1 = Some (res, st)" for res st
    using search_loop_preserves [OF that, of P] pres P(2) by blast
  have "G r e w'"
    using assms(1) t0 t1 same [OF start] same [OF P(1)] same [OF P(2)] upd [OF P(1)] upd2 [OF P(2)]
      fin [OF loop]
    by (auto simp: Search_def Let_def split: if_splits sum.splits)
  then show ?thesis unfolding G_def .
qed

abbreviation fresh_attempt :: "SearchConfig \<Rightarrow> int \<Rightarrow> int \<Rightarrow> SweepAttempt" where
  "fresh_attempt cfg limit repetition \<equiv> zero_SweepAttempt\<lparr>sa_Strategy := sc_Strategy cfg,
     sa_LimitMiB := limit, sa_Repetition := repetition\<rparr>"

lemma repeat_attempts_all:
  assumes "repeat_attempts cfg ctx run L reps passed st = (res, st')"
    and "\<And>w L k. Q (fst (run w (fresh_attempt cfg L k)))" and "\<forall>a \<in> set (sr_Attempts (ss_report st)). Q a"
  shows "(\<forall>a \<in> set (sr_Attempts (ss_report st')). Q a) \<and>
    sr_MinimumPassMiB (ss_report st') = sr_MinimumPassMiB (ss_report st) \<and>
    sr_BoundaryResolved (ss_report st') = sr_BoundaryResolved (ss_report st)"
  using assms(1,3)
proof (induction reps arbitrary: passed st)
  case Nil
  then show ?case by simp
next
  case (Cons k reps)
  obtain a w where r: "run (ss_world st) (zero_SweepAttempt\<lparr>sa_Strategy := sc_Strategy cfg,
      sa_LimitMiB := L, sa_Repetition := k\<rparr>) = (a, w)" by fastforce
  then have "Q a" using assms(2) by (metis fst_conv)
  have add: "sr_Attempts (add_attempt a R) = sr_Attempts R @ [a]"
      "sr_MinimumPassMiB (add_attempt a R) = sr_MinimumPassMiB R"
      "sr_BoundaryResolved (add_attempt a R) = sr_BoundaryResolved R" for R
    by (simp_all add: add_attempt_def count_failure_def)
  show ?case
  proof (cases "ctx (ss_world st)")
    case None
    then have "repeat_attempts cfg ctx run L reps (passed \<and> sa_Passed a)
        (st\<lparr>ss_world := w, ss_report := add_attempt a (ss_report st)\<rparr>) = (res, st')"
      using Cons.prems(1) r by simp
    from Cons.IH [OF this] Cons.prems(2) \<open>Q a\<close> show ?thesis by (simp add: add)
  qed (use Cons.prems in auto)
qed

lemma test_limit_all:
  assumes "test_limit cfg ctx run L st = (res, st')" and "\<And>w L k. Q (fst (run w (fresh_attempt cfg L k)))"
    and "\<forall>a \<in> set (sr_Attempts (ss_report st)). Q a"
  shows "(\<forall>a \<in> set (sr_Attempts (ss_report st')). Q a) \<and>
    sr_MinimumPassMiB (ss_report st') = sr_MinimumPassMiB (ss_report st) \<and>
    sr_BoundaryResolved (ss_report st') = sr_BoundaryResolved (ss_report st)"
proof (cases "Mapping.lookup (ss_tested st) L")
  case None
  then obtain st1 r where "repeat_attempts cfg ctx run L [1 .. sc_Repetitions cfg] True st = (r, st1)"
    and "ss_report st' = ss_report st1"
    using assms(1) by (auto simp: test_limit_def split: prod.splits sum.splits)
  with repeat_attempts_all [of cfg ctx run L _ True st r st1 Q] assms(2,3) show ?thesis by auto
qed (use assms in \<open>simp add: test_limit_def\<close>)

lemma Search_attempts_all:
  assumes "Search ctx cfg run w = Some (r, e, w')" and Q: "\<And>w L k. Q (fst (run w (fresh_attempt cfg L k)))"
  shows "(\<forall>a \<in> set (sr_Attempts r). Q a) \<and>
    (e \<noteq> None \<longrightarrow> sr_MinimumPassMiB r = 0 \<and> \<not> sr_BoundaryResolved r)"
proof -
  let ?P = "\<lambda>st. (\<forall>a \<in> set (sr_Attempts (ss_report st)). Q a) \<and>
      sr_MinimumPassMiB (ss_report st) = 0 \<and> \<not> sr_BoundaryResolved (ss_report st)"
  have pres: "\<forall>L st res st'. test_limit cfg ctx run L st = (res, st') \<longrightarrow> ?P st \<longrightarrow> ?P st'"
    using test_limit_all [of cfg ctx run _ _ _ _ Q] Q by simp
  have start: "?P \<lparr>ss_world = w, ss_report = sweep_start cfg, ss_tested = Mapping.empty\<rparr>"
    by (simp add: sweep_start_def zero_SweepReport_def)
  from Search_final_state [where P = ?P, OF assms(1) pres start] show ?thesis
    by (elim exE conjE) simp
qed

subsection \<open>Runners that pass from some limit on\<close>

lemma repeat_attempts_no_ctx:
  "\<exists>b. fst (repeat_attempts cfg (\<lambda>_. None) run L reps passed st) = Inr b"
  by (induction reps arbitrary: passed st) (auto simp: Let_def split: prod.split)

lemma test_limit_no_ctx: "\<exists>b st'. test_limit cfg (\<lambda>_. None) run L st = (Inr b, st')"
proof (cases "Mapping.lookup (ss_tested st) L")
  case None
  obtain res st1 where
    r: "repeat_attempts cfg (\<lambda>_. None) run L [1 .. sc_Repetitions cfg] True st = (res, st1)"
    by fastforce
  with repeat_attempts_no_ctx [of cfg run L "[1 .. sc_Repetitions cfg]" True st] obtain b where
    "res = Inr b" by auto
  with None r show ?thesis by (simp add: test_limit_def)
qed (simp add: test_limit_def)

lemma search_loop_no_error:
  assumes "search_loop step test fail pass st = Some x" and "\<And>L st. \<exists>b st'. test L st = (Inr b, st')"
  shows "\<exists>y. fst x = Inr y"
proof -
  have "test' = test \<longrightarrow> (\<exists>y. fst x = Inr y)" if "search_loop step' test' fail' pass' st = Some x"
    for step' test' fail' pass' st x
  proof (rule search_loop.raw_induct
      [where P = "\<lambda>_ test' _ _ st x. test' = test \<longrightarrow> (\<exists>y. fst x = Inr y)", OF _ that])
    fix f step' test' fail' pass' st x
    assume IH: "\<And>s t a b st x. f s t a b st = Some x \<Longrightarrow> t = test \<longrightarrow> (\<exists>y. fst x = Inr y)"
      and eq: "(if step' < wrap64 (pass' - fail') then
         (case test' (search_mid step' fail' pass') st of
            (Inl e, st') \<Rightarrow> Some (Inl e, st')
          | (Inr midPass, st') \<Rightarrow>
              (if midPass then f step' test' fail' (search_mid step' fail' pass') st'
               else f step' test' (search_mid step' fail' pass') pass' st'))
       else Some (Inr (fail', pass'), st)) = Some x"
    show "test' = test \<longrightarrow> (\<exists>y. fst x = Inr y)"
    proof
      assume t: "test' = test"
      obtain b st1 where r: "test (search_mid step' fail' pass') st = (Inr b, st1)"
        using assms(2) by blast
      with eq t show "\<exists>y. fst x = Inr y"
        using IH [of step' test' fail' "search_mid step' fail' pass'" st1 x]
          IH [of step' test' "search_mid step' fail' pass'" pass' st1 x]
        by (auto split: if_splits)
    qed
  qed
  from this [OF assms(1)] show ?thesis by simp
qed

definition passes_from :: "int \<Rightarrow> SweepAttempt \<Rightarrow> bool" where
  "passes_from T a \<longleftrightarrow> (sa_Passed a \<longleftrightarrow> T \<le> sa_LimitMiB a)"

lemma attempts_at_nonempty:
  "map sa_Repetition (attempts_at L as) = [1 .. n] \<Longrightarrow> 0 < n \<Longrightarrow> attempts_at L as \<noteq> []"
  by auto

lemma tried_threshold:
  assumes "tried cfg as L b" and "0 < sc_Repetitions cfg" and "\<forall>a \<in> set as. passes_from T a"
  shows "b \<longleftrightarrow> T \<le> L"
proof -
  have "attempts_at L as \<noteq> []" using assms(1,2) by (auto simp: tried_def)
  moreover have "sa_Passed a \<longleftrightarrow> T \<le> L" if "a \<in> set (attempts_at L as)" for a
    using that assms(3) by (auto simp: attempts_at_def passes_from_def)
  ultimately show ?thesis
    using assms(1) by (cases "attempts_at L as") (auto simp: tried_def list_all_iff)
qed

lemma report_threshold:
  assumes "0 < sr_Repetitions r" and "\<forall>a \<in> set (sr_Attempts r). passes_from T a"
  shows "accepted r L \<Longrightarrow> T \<le> L" and "rejected r L \<Longrightarrow> L < T"
proof -
  let ?cfg = "\<lparr>sc_LowerMiB = 0, sc_UpperMiB = 0, sc_StepMiB = 0,
      sc_Repetitions = sr_Repetitions r, sc_Strategy = []\<rparr>"
  note t = tried_threshold [of ?cfg "sr_Attempts r" L _ T]
  show "T \<le> L" if "accepted r L" using t [of True] that assms by (simp add: tried_def accepted_def)
  show "L < T" if "rejected r L" using t [of False] that assms by (simp add: tried_def rejected_def)
qed

lemma aligned_simple:
  assumes "valid_config cfg" and "in_range cfg"
  shows "0 < lower_of cfg" and "upper_of cfg \<le> sc_UpperMiB cfg" and "0 < sc_StepMiB cfg"
proof -
  have "0 < sc_LowerMiB cfg" using assms(1) by (simp add: valid_config_def)
  moreover obtain f p where "sc_LowerMiB cfg \<le> lower_of cfg" "upper_of cfg \<le> sc_UpperMiB cfg"
      "0 < sc_StepMiB cfg"
    by (rule aligned_bounds [OF assms])
  ultimately show "0 < lower_of cfg" "upper_of cfg \<le> sc_UpperMiB cfg" "0 < sc_StepMiB cfg"
    by simp_all
qed

lemma alignUp_least:
  assumes "0 < v" and "0 < s" and "v + s \<le> 2 ^ 62" and "s dvd m" and "v \<le> m" and "m < v + s"
  shows "m = alignUp v s"
proof -
  note b = alignUp_bounds [OF assms(1-3)]
  obtain j k where m: "m = s * j" and a: "alignUp v s = s * k" using assms(4) b(3) by (auto elim!: dvdE)
  have "s * j < s * (k + 1)" "s * k < s * (j + 1)"
    using assms(5,6) b(1,2) m a by (simp_all add: algebra_simps)
  then have "j < k + 1" "k < j + 1" using assms(2) by simp_all
  then show ?thesis by (simp add: m a)
qed

context attempt_runner
begin

lemma threshold_result:
  assumes v: "valid_config cfg" "in_range cfg" "lower_of cfg \<le> upper_of cfg"
    and T: "\<And>w a. passes_from T (fst (run w a))"
    and s: "Search (\<lambda>_. None) cfg run w = Some (r, e, w')"
  shows "if upper_of cfg < T then e \<noteq> None \<and> sr_GreatestFailMiB r = upper_of cfg
    else if T \<le> lower_of cfg then e = None \<and> sr_MinimumPassMiB r = lower_of cfg \<and> \<not> sr_BoundaryResolved r
    else e = None \<and> sr_BoundaryResolved r \<and> sr_MinimumPassMiB r = alignUp T (sc_StepMiB cfg) \<and>
      sr_GreatestFailMiB r = alignUp T (sc_StepMiB cfg) - sc_StepMiB cfg"
proof -
  let ?st = "\<lparr>ss_world = w, ss_report = sweep_start cfg, ss_tested = Mapping.empty\<rparr>"
  have reps: "0 < sc_Repetitions cfg" using v(1) by (simp add: valid_config_def)
  obtain b st0 where t0: "test_limit cfg (\<lambda>_. None) run (upper_of cfg) ?st = (Inr b, st0)"
    using test_limit_no_ctx by blast
  have ok: "memo_ok cfg st0" "known st0 (upper_of cfg) b" using test_limit_spec [OF memo_ok_start t0] by simp_all
  have q0: "\<forall>a \<in> set (sr_Attempts (ss_report st0)). passes_from T a"
    using test_limit_all [OF t0, of "passes_from T"] T by (simp add: sweep_start_def zero_SweepReport_def)
  have b: "b \<longleftrightarrow> T \<le> upper_of cfg" using tried_threshold [OF memo_ok_known [OF ok] reps q0] .
  show ?thesis
  proof (cases "upper_of cfg < T")
    case True
    with b s t0 v show ?thesis by (auto simp: Search_def Let_def)
  next
    case False
    obtain c st1 where t1: "test_limit cfg (\<lambda>_. None) run (lower_of cfg) st0 = (Inr c, st1)"
      using test_limit_no_ctx by blast
    have ok1: "memo_ok cfg st1" "known st1 (lower_of cfg) c" using test_limit_spec [OF ok(1) t1] by simp_all
    have q1: "\<forall>a \<in> set (sr_Attempts (ss_report st1)). passes_from T a"
      using test_limit_all [OF t1, of "passes_from T"] T q0 by simp
    have c: "c \<longleftrightarrow> T \<le> lower_of cfg" using tried_threshold [OF memo_ok_known [OF ok1] reps q1] .
    show ?thesis
    proof (cases "T \<le> lower_of cfg")
      case True
      then have "r = (ss_report st1)\<lparr>sr_MinimumPassMiB := lower_of cfg\<rparr>" "e = None"
        using False b c s t0 t1 v by (auto simp: Search_def Let_def)
      with True False memo_ok_report(2) [OF ok1(1)] show ?thesis by simp
    next
      case below: False
      from s t0 t1 b c v False below obtain x where
        loop: "search_loop (sc_StepMiB cfg) (test_limit cfg (\<lambda>_. None) run) (lower_of cfg) (upper_of cfg) st1 = Some x"
        and fin: "finish_search x = (r, e, w')"
        by (auto simp: Search_def Let_def)
      from search_loop_no_error [OF loop test_limit_no_ctx] fin have e: "e = None" and res: "sr_BoundaryResolved r"
        by (cases x; auto simp: finish_search_def)+
      with s boundary_of_success [OF v(2)] have bf: "boundary_found cfg r" by blast
      have Q: "\<forall>a \<in> set (sr_Attempts r). passes_from T a"
        using Search_attempts_all [OF s, of "passes_from T"] T by simp
      note th = report_threshold [OF _ Q]
      have m: "T \<le> sr_MinimumPassMiB r" "sr_MinimumPassMiB r < T + sc_StepMiB cfg"
          "sc_StepMiB cfg dvd sr_MinimumPassMiB r"
        using bf res reps th(1) [of "sr_MinimumPassMiB r"] th(2) [of "sr_GreatestFailMiB r"]
        by (auto simp: boundary_found_def)
      have "0 < T" "T + sc_StepMiB cfg \<le> 2 ^ 62" "0 < sc_StepMiB cfg"
        using False below v(2) aligned_simple [OF v(1,2)] unfolding in_range_def by linarith+
      with m alignUp_least [of T "sc_StepMiB cfg" "sr_MinimumPassMiB r"]
      have "sr_MinimumPassMiB r = alignUp T (sc_StepMiB cfg)" by simp
      with False below e res bf show ?thesis by (simp add: boundary_found_def)
    qed
  qed
qed

end

subsection \<open>Properties\<close>

lemma Search_ends:
  assumes "in_range cfg"
  obtains r e w' where "Search ctx cfg run w = Some (r, e, w')"
  using Search_returns [of cfg ctx run w] assms by (cases "Search ctx cfg run w") auto

text \<open>C11: the search returns: for every runner, context and configuration whose bounds leave room
  for the arithmetic (upper bound plus step at most \<open>2 ^ 62\<close>), valid or not, \<open>Search\<close> ends.\<close>

theorem search_returns:
  assumes "sc_UpperMiB cfg + sc_StepMiB cfg \<le> 2 ^ 62"
  shows "\<exists>r e w'. Search ctx cfg run w = Some (r, e, w')"
  using assms by (metis Search_ends in_range_def)

text \<open>The runner of the witnesses passes from 92 MiB on.\<close>

definition threshold_run :: "unit AttemptRunner" where
  "threshold_run w a = (a\<lparr>sa_Passed := 92 \<le> sa_LimitMiB a\<rparr>, w)"

definition sample_config :: SearchConfig where
  "sample_config = \<lparr>sc_LowerMiB = 64, sc_UpperMiB = 128, sc_StepMiB = 4, sc_Repetitions = 3,
     sc_Strategy = ''rename-reopen''\<rparr>"

lemma threshold_runner: "attempt_runner threshold_run"
  by unfold_locales (auto simp: threshold_run_def)

lemma threshold_run_passes: "passes_from 92 (fst (threshold_run w a))"
  by (simp add: threshold_run_def passes_from_def)

lemma sample_config_ok:
  "valid_config sample_config" "in_range sample_config"
  "lower_of sample_config = 64" "upper_of sample_config = 128" "alignUp 92 4 = 92"
  by (simp_all add: sample_config_def valid_config_def in_range_def alignUp_eq alignDown_eq)

theorem search_returns_witness:
  "\<exists>r e w'. Search (\<lambda>_. None) sample_config threshold_run () = Some (r, e, w')"
  by (rule search_returns) (simp add: sample_config_def)

text \<open>C9: what a search without error has established, whatever the runner does between attempts
  (it need only return the strategy, limit and repetition it was given). The reported minimum
  is aligned, lies between the bounds and passed all of its repetitions; a resolved boundary
  also names a limit exactly one step below at which some repetition failed, and an unresolved
  one is the lowest aligned limit. The failure counters are those of the attempts listed, and
  no more attempts were made than the repetitions times two plus the binary logarithm of the
  number of steps between the bounds.\<close>

theorem search_boundary:
  assumes "attempt_runner run" and "in_range cfg"
    and "Search ctx cfg run w = Some (r, None, w')"
  shows "boundary_found cfg r \<and> counters_agree r \<and> length (sr_Attempts r) \<le> search_budget cfg"
  by (rule attempt_runner.boundary_of_success [OF assms])

theorem search_boundary_witness:
  "\<exists>r w'. Search (\<lambda>_. None) sample_config threshold_run () = Some (r, None, w') \<and>
     accepted r (sr_MinimumPassMiB r) \<and> length (sr_Attempts r) \<le> 18"
proof -
  obtain r e w' where s: "Search (\<lambda>_. None) sample_config threshold_run () = Some (r, e, w')"
    by (rule Search_ends [OF sample_config_ok(2)])
  from attempt_runner.threshold_result [OF threshold_runner sample_config_ok(1,2) _
      threshold_run_passes s] have "e = None" by (simp add: sample_config_ok)
  with s have s': "Search (\<lambda>_. None) sample_config threshold_run () = Some (r, None, w')" by simp
  have "search_budget sample_config = 18"
    by (simp add: search_budget_def sample_config_def ceillog2_rec [of 16] ceillog2_rec [of 8]
        ceillog2_rec [of 4] ceillog2_rec [of 2])
  with search_boundary [OF threshold_runner sample_config_ok(2) s'] s'
  show ?thesis by (auto simp: boundary_found_def)
qed

text \<open>C10: for a runner that passes exactly from some limit \<open>T\<close> on, and a context that is never
  cancelled, the search is exact: it reports the smallest aligned limit from \<open>T\<close> up as minimum
  and the one a step below as greatest failure; it says so without claiming a boundary when
  the lowest aligned limit already passes, and it fails when even the highest does not.\<close>

theorem search_finds_threshold:
  assumes "attempt_runner run" and "valid_config cfg" and "in_range cfg"
    and "lower_of cfg \<le> upper_of cfg"
    and "\<And>w a. sa_Passed (fst (run w a)) \<longleftrightarrow> T \<le> sa_LimitMiB a"
  shows "\<exists>r e w'. Search (\<lambda>_. None) cfg run w = Some (r, e, w') \<and>
    (if upper_of cfg < T then e \<noteq> None \<and> sr_GreatestFailMiB r = upper_of cfg
     else if T \<le> lower_of cfg
     then e = None \<and> sr_MinimumPassMiB r = lower_of cfg \<and> \<not> sr_BoundaryResolved r
     else e = None \<and> sr_BoundaryResolved r \<and>
       sr_MinimumPassMiB r = alignUp T (sc_StepMiB cfg) \<and>
       sr_GreatestFailMiB r = alignUp T (sc_StepMiB cfg) - sc_StepMiB cfg)"
proof -
  obtain r e w' where s: "Search (\<lambda>_. None) cfg run w = Some (r, e, w')"
    by (rule Search_ends [OF assms(3)])
  have "passes_from T (fst (run w a))" for w a
    using attempt_runner.run_keeps [OF assms(1), of w a "fst (run w a)" "snd (run w a)"] assms(5)
    by (simp add: passes_from_def)
  from attempt_runner.threshold_result [OF assms(1-4) this s] s show ?thesis by blast
qed

theorem search_finds_threshold_witness:
  "\<exists>r w'. Search (\<lambda>_. None) sample_config threshold_run () = Some (r, None, w') \<and>
     sr_BoundaryResolved r \<and> sr_MinimumPassMiB r = 92 \<and> sr_GreatestFailMiB r = 88"
  using search_finds_threshold [OF threshold_runner sample_config_ok(1,2), of 92 "()"]
  by (auto simp: sample_config_ok threshold_run_def) (auto simp: sample_config_def alignUp_eq)

text \<open>C12: a search that ends with an error (a bad configuration, an empty range, a cancelled
  context, an upper bound that does not pass) never claims a minimum or a resolved boundary.\<close>

theorem search_error_claims_no_minimum:
  assumes "Search ctx cfg run w = Some (r, Some e, w')"
  shows "sr_MinimumPassMiB r = 0 \<and> \<not> sr_BoundaryResolved r"
  using Search_attempts_all [OF assms, of "\<lambda>_. True"] by simp

theorem search_error_claims_no_minimum_witness:
  "\<exists>r e w'. Search (\<lambda>_. Some (ErrText ''context canceled'')) sample_config threshold_run () =
       Some (r, Some e, w') \<and> sr_MinimumPassMiB r = 0"
proof -
  have "[1 .. sc_Repetitions sample_config] = [1, 2, 3]" by (simp add: sample_config_def upto_rec1)
  then obtain r e w' where "Search (\<lambda>_. Some (ErrText ''context canceled'')) sample_config threshold_run () =
       Some (r, Some e, w')"
    by (simp add: Search_def Let_def sample_config_ok test_limit_def Mapping.lookup_empty)
  with search_error_claims_no_minimum [OF this] show ?thesis by blast
qed

end
