(* ===== verification/Docker.thy ===== *)
theory Docker
  imports SweepSearch Paths
begin

text \<open>
  \<open>internal/sweep/docker.go\<close>: one attempt of the memory sweep is one container run. The
  operating system, the clock, the \<open>docker\<close> command line client and \<open>encoding/json\<close> are the
  fields of a \<open>docker_env\<close>, functions on a world \<open>'w\<close> of any type, about which nothing is
  assumed: the theorems hold whatever the client answers. The code that decides is modelled
  in full: the command lines, the wait loop, the clean-up and the classification.

  The last part interprets \<open>attempt_runner\<close> on \<open>dockerAttempt\<close>, so what \<open>SweepSearch\<close> proves
  from that contract holds of \<open>DockerSearch\<close> without it.
\<close>

record DockerConfig =
  dc_Image :: string
  dc_ResultRoot :: string
  dc_LowerMiB :: int
  dc_UpperMiB :: int
  dc_StepMiB :: int
  dc_Repetitions :: int
  dc_MaxFileBytes :: int
  dc_BytesPerSecond :: int
  dc_ResidentBytes :: int
  dc_Rotations :: int
  dc_MaxBackups :: int
  dc_RecordBytes :: int
  dc_BufferBytes :: int
  dc_FlushInterval :: int
  dc_MonitorInterval :: int
  dc_AttemptTimeout :: int

text \<open>What \<open>cmd.Wait\<close> returns besides nil: an \<open>*exec.ExitError\<close> with its code, or any other
  error. The select statement of the wait loop takes one of three cases each time around.\<close>

datatype wait_error = ExitError int | WaitFailed

datatype wait_event = WaitDone | WaitTick | WaitCancelled

record 'w docker_env =
  os_getwd :: "'w \<Rightarrow> string result"
  os_mkdir_all :: "string \<Rightarrow> 'w \<Rightarrow> go_error option \<times> 'w"
  os_chmod :: "string \<Rightarrow> 'w \<Rightarrow> go_error option \<times> 'w"
  os_read_file :: "string \<Rightarrow> 'w \<Rightarrow> string result"
  json_unmarshal :: "string \<Rightarrow> RunSummary result"
  unix_nano :: "'w \<Rightarrow> int \<times> 'w"
  docker_combined :: "string list \<Rightarrow> 'w \<Rightarrow> (string \<times> go_error option) \<times> 'w"
  docker_quiet :: "string list \<Rightarrow> 'w \<Rightarrow> 'w"
  docker_output :: "string list \<Rightarrow> 'w \<Rightarrow> string result \<times> 'w"
  docker_start :: "int \<Rightarrow> string list \<Rightarrow> 'w \<Rightarrow> go_error option \<times> 'w"
  wait_events :: "'w \<Rightarrow> wait_event list"
  wait_result :: "'w \<Rightarrow> wait_error option \<times> 'w"
  captured_output :: "'w \<Rightarrow> string"
  deadline_exceeded :: "'w \<Rightarrow> bool"

subsection \<open>Classification\<close>

definition dockerWorkload :: "DockerConfig \<Rightarrow> WorkloadConfig" where
  "dockerWorkload cfg =
     \<lparr>wl_MaxFileBytes = dc_MaxFileBytes cfg, wl_Rotations = dc_Rotations cfg,
      wl_MaxBackups = dc_MaxBackups cfg, wl_RecordBytes = dc_RecordBytes cfg,
      wl_BytesPerSecond = dc_BytesPerSecond cfg, wl_BufferBytes = dc_BufferBytes cfg,
      wl_FlushIntervalNS = dc_FlushInterval cfg, wl_MonitorIntervalNS = dc_MonitorInterval cfg,
      wl_ResidentBytes = dc_ResidentBytes cfg\<rparr>"

definition classifyProcessFailure ::
  "SweepAttempt \<Rightarrow> int \<Rightarrow> bool \<Rightarrow> bool \<Rightarrow> string \<Rightarrow> SweepAttempt" where
  "classifyProcessFailure attempt exitCode timedOut oomKilled out =
     (let attempt = attempt\<lparr>sa_ExitCode := exitCode, sa_TimedOut := timedOut,
            sa_OOM := oomKilled \<or> exitCode = 137, sa_Error := out\<rparr>;
          attempt = (if sa_Error attempt = [] then attempt\<lparr>sa_Error := ''docker attempt failed''\<rparr>
                     else attempt)
      in if sa_OOM attempt then attempt\<lparr>sa_FailureKind := ''oom''\<rparr>
         else if timedOut then attempt\<lparr>sa_FailureKind := ''timeout''\<rparr>
         else attempt\<lparr>sa_FailureKind := ''functional''\<rparr>)"

definition functional_ok :: "RunSummary \<Rightarrow> bool" where
  "functional_ok summary \<longleftrightarrow>
     rs_SchemaVersion summary = SchemaVersion \<and>
     ir_SchemaVersion (rs_Integrity summary) = SchemaVersion \<and>
     ws_ReopenFailures (rs_Writer summary) = 0"

definition integrity_ok :: "RunSummary \<Rightarrow> bool" where
  "integrity_ok summary \<longleftrightarrow>
     ir_Missing (rs_Integrity summary) = 0 \<and> ir_Duplicates (rs_Integrity summary) = 0 \<and>
     ir_Malformed (rs_Integrity summary) = 0 \<and> ir_WrongRunID (rs_Integrity summary) = 0 \<and>
     ir_DescendingTransitions (rs_Integrity summary) = 0"

definition classifySummary :: "Strategy \<Rightarrow> SweepAttempt \<Rightarrow> RunSummary \<Rightarrow> SweepAttempt" where
  "classifySummary strategy attempt summary =
     (let attempt = attempt\<lparr>sa_Summary := Some summary,
            sa_FunctionalPassed := functional_ok summary,
            sa_IntegrityPassed := integrity_ok summary\<rparr>;
          attempt = attempt\<lparr>sa_Passed := sa_FunctionalPassed attempt \<and>
            (strategy = CopyTruncate \<or> sa_IntegrityPassed attempt)\<rparr>
      in if \<not> sa_FunctionalPassed attempt
         then attempt\<lparr>sa_FailureKind := ''functional'',
                sa_Error := ''invalid summary schema or writer reopen failure''\<rparr>
         else if \<not> sa_Passed attempt
         then attempt\<lparr>sa_FailureKind := ''integrity'', sa_Error := ''integrity acceptance failed''\<rparr>
         else attempt)"

subsection \<open>The container run\<close>

definition absoluteResultRoot :: "'w docker_env \<Rightarrow> string \<Rightarrow> 'w \<Rightarrow> string result" where
  "absoluteResultRoot env path w = path_abs (os_getwd env w) path"

definition prepareResultDir :: "'w docker_env \<Rightarrow> string \<Rightarrow> 'w \<Rightarrow> go_error option \<times> 'w" where
  "prepareResultDir env path w =
     (case os_mkdir_all env path w of
        (Some e, w) \<Rightarrow> (Some e, w)
      | (None, w) \<Rightarrow> os_chmod env path w)"

definition containerOOMKilled :: "'w docker_env \<Rightarrow> string \<Rightarrow> 'w \<Rightarrow> bool \<times> 'w" where
  "containerOOMKilled env name w =
     (case docker_output env [''inspect'', ''--format'', ''{{.State.OOMKilled}}'', name] w of
        (Inl e, w) \<Rightarrow> (False, w)
      | (Inr out, w) \<Rightarrow> (trim_space out = ''true'', w))"

definition remove_container :: "'w docker_env \<Rightarrow> string \<Rightarrow> 'w \<Rightarrow> 'w" where
  "remove_container env container w = docker_quiet env [''rm'', ''-f'', container] w"

definition remove_volume :: "'w docker_env \<Rightarrow> string \<Rightarrow> 'w \<Rightarrow> 'w" where
  "remove_volume env volume w = docker_quiet env [''volume'', ''rm'', ''-f'', volume] w"

text \<open>
  The wait loop, over the cases its select statement takes. Each ends in \<open>cmd.Wait\<close>'s
  result. The attempt's context has a deadline, so after finitely many ticks the cancelled
  case is taken: it stands at the end of every list.
\<close>

fun wait_loop ::
  "'w docker_env \<Rightarrow> string \<Rightarrow> wait_event list \<Rightarrow> 'w \<Rightarrow> (wait_error option \<times> bool) \<times> 'w" where
  "wait_loop env container (WaitDone # evs) w =
     (case wait_result env w of (err, w) \<Rightarrow> ((err, False), w))"
| "wait_loop env container (WaitTick # evs) w =
     (case containerOOMKilled env container w of
        (True, w) \<Rightarrow>
          (case wait_result env (remove_container env container w) of
             (err, w) \<Rightarrow> ((err, True), w))
      | (False, w) \<Rightarrow> wait_loop env container evs w)"
| "wait_loop env container evs w =
     (case wait_result env (remove_container env container w) of
        (err, w) \<Rightarrow> ((err, False), w))"

definition docker_args ::
  "DockerConfig \<Rightarrow> Strategy \<Rightarrow> SweepAttempt \<Rightarrow> string \<Rightarrow> string \<Rightarrow> string \<Rightarrow> string list" where
  "docker_args cfg strategy attempt runDir volume container =
     (let limit = format_int (sa_LimitMiB attempt); repetition = format_int (sa_Repetition attempt) in
      [''run'', ''--name'', container, ''--memory='' @ limit @ ''m'', ''--memory-swap='' @ limit @ ''m'',
       ''--mount'', ''source='' @ volume @ '',target=/var/log/loglab'',
       ''--mount'', ''type=bind,source='' @ runDir @ '',target=/results'', dc_Image cfg,
       ''run'', ''--run-id'', strategy @ ''-'' @ limit @ ''-'' @ repetition, ''--strategy'', strategy,
       ''--log-dir'', ''/var/log/loglab'', ''--result-dir'', ''/results'',
       ''--max-file-bytes'', format_int (dc_MaxFileBytes cfg),
       ''--rotations'', format_int (dc_Rotations cfg),
       ''--max-backups'', format_int (dc_MaxBackups cfg),
       ''--record-bytes'', format_int (dc_RecordBytes cfg),
       ''--bytes-per-second'', format_int (dc_BytesPerSecond cfg),
       ''--buffer-bytes'', format_int (dc_BufferBytes cfg),
       ''--flush-interval'', duration_string (dc_FlushInterval cfg),
       ''--monitor-interval'', duration_string (dc_MonitorInterval cfg),
       ''--resident-bytes'', format_int (dc_ResidentBytes cfg)])"

text \<open>The deadline of the context \<open>docker_start\<close> runs the client in, in nanoseconds.\<close>

definition attempt_timeout :: "DockerConfig \<Rightarrow> int" where
  "attempt_timeout cfg = (if dc_AttemptTimeout cfg \<le> 0 then 90 * 10 ^ 9 else dc_AttemptTimeout cfg)"

definition exit_code_of :: "wait_error \<Rightarrow> int" where
  "exit_code_of err = (case err of ExitError code \<Rightarrow> code | WaitFailed \<Rightarrow> - 1)"

definition read_summary ::
  "'w docker_env \<Rightarrow> Strategy \<Rightarrow> string \<Rightarrow> SweepAttempt \<Rightarrow> 'w \<Rightarrow> SweepAttempt" where
  "read_summary env strategy runDir attempt w =
     (case os_read_file env (path_join [runDir, ''summary.json'']) w of
        Inl readErr \<Rightarrow>
          attempt\<lparr>sa_Error := ''read summary: '' @ error_text readErr @ ''; output: '' @
              captured_output env w,
            sa_FailureKind := ''functional''\<rparr>
      | Inr b \<Rightarrow>
          (case json_unmarshal env b of
             Inl e \<Rightarrow> attempt\<lparr>sa_Error := ''parse summary: '' @ error_text e,
                        sa_FailureKind := ''functional''\<rparr>
           | Inr summary \<Rightarrow> classifySummary strategy attempt summary))"

definition run_container ::
  "'w docker_env \<Rightarrow> DockerConfig \<Rightarrow> Strategy \<Rightarrow> string \<Rightarrow> string \<Rightarrow> string \<Rightarrow> SweepAttempt \<Rightarrow>
   'w \<Rightarrow> SweepAttempt \<times> 'w" where
  "run_container env cfg strategy runDir volume container attempt w =
     (case docker_start env (attempt_timeout cfg)
             (docker_args cfg strategy attempt runDir volume container) w of
        (Some e, w) \<Rightarrow> (classifyProcessFailure attempt (- 1) False False (error_text e), w)
      | (None, w) \<Rightarrow>
          (case wait_loop env container (wait_events env w) w of
             ((Some err, oomKilled), w) \<Rightarrow>
               (classifyProcessFailure attempt (exit_code_of err) (deadline_exceeded env w)
                  oomKilled (trim_space (captured_output env w)), w)
           | ((None, oomKilled), w) \<Rightarrow>
               (read_summary env strategy runDir (attempt\<lparr>sa_ExitCode := 0\<rparr>) w, w)))"

text \<open>\<open>attempt_dir\<close>, \<open>attempt_name\<close>: the names built from the attempt and the clock.\<close>

definition attempt_dir :: "Strategy \<Rightarrow> SweepAttempt \<Rightarrow> int \<Rightarrow> string" where
  "attempt_dir strategy attempt nano =
     strategy @ ''-'' @ format_int (sa_LimitMiB attempt) @ ''m-r'' @
     format_int (sa_Repetition attempt) @ ''-'' @ format_int nano"

definition attempt_name :: "string \<Rightarrow> Strategy \<Rightarrow> SweepAttempt \<Rightarrow> int \<Rightarrow> string" where
  "attempt_name prefix strategy attempt nano =
     prefix @ strategy @ ''-'' @ format_int (sa_LimitMiB attempt) @ ''-'' @
     format_int (sa_Repetition attempt) @ ''-'' @ format_int nano"

definition dockerAttempt :: "'w docker_env \<Rightarrow> DockerConfig \<Rightarrow> Strategy \<Rightarrow> 'w AttemptRunner" where
  "dockerAttempt env cfg strategy w attempt =
     (case absoluteResultRoot env (dc_ResultRoot cfg) w of
        Inl e \<Rightarrow> (attempt\<lparr>sa_Error := ''resolve result root: '' @ error_text e,
                    sa_FailureKind := ''functional''\<rparr>, w)
      | Inr resultRoot \<Rightarrow>
          (let (t1, w) = unix_nano env w;
               runDir = path_join [resultRoot, attempt_dir strategy attempt t1]
           in case prepareResultDir env runDir w of
                (Some e, w) \<Rightarrow> (attempt\<lparr>sa_Error := error_text e\<rparr>, w)
              | (None, w) \<Rightarrow>
                  (let (t2, w) = unix_nano env w;
                       volume = attempt_name ''loglab-sweep-'' strategy attempt t2;
                       (t3, w) = unix_nano env w;
                       container = attempt_name ''loglab-sweep-run-'' strategy attempt t3
                   in case docker_combined env [''volume'', ''create'', volume] w of
                        ((out, Some e), w) \<Rightarrow>
                          (attempt\<lparr>sa_Error := ''create volume: '' @ error_text e @ '': '' @
                             trim_space out\<rparr>, w)
                      | ((out, None), w) \<Rightarrow>
                          (case run_container env cfg strategy runDir volume container attempt w of
                             (attempt, w) \<Rightarrow>
                               (attempt, remove_volume env volume (remove_container env container w))))))"

definition search_config :: "DockerConfig \<Rightarrow> Strategy \<Rightarrow> SearchConfig" where
  "search_config cfg strategy =
     \<lparr>sc_LowerMiB = dc_LowerMiB cfg, sc_UpperMiB = dc_UpperMiB cfg, sc_StepMiB = dc_StepMiB cfg,
      sc_Repetitions = dc_Repetitions cfg, sc_Strategy = strategy\<rparr>"

definition DockerSearch ::
  "'w docker_env \<Rightarrow> ('w \<Rightarrow> go_error option) \<Rightarrow> DockerConfig \<Rightarrow> Strategy \<Rightarrow> 'w \<Rightarrow>
   (SweepReport \<times> go_error option \<times> 'w) option" where
  "DockerSearch env ctx cfg strategy w =
     map_option
       (\<lambda>(result, err, w). (result\<lparr>sr_AttemptTimeoutNS := dc_AttemptTimeout cfg,
          sr_Workload := dockerWorkload cfg\<rparr>, err, w))
       (Search ctx (search_config cfg strategy) (dockerAttempt env cfg strategy) w)"

subsection \<open>What an attempt reports\<close>

lemma classifyProcessFailure_fields [simp]:
  "sa_Strategy (classifyProcessFailure a code timedOut oom out) = sa_Strategy a"
  "sa_LimitMiB (classifyProcessFailure a code timedOut oom out) = sa_LimitMiB a"
  "sa_Repetition (classifyProcessFailure a code timedOut oom out) = sa_Repetition a"
  "sa_Passed (classifyProcessFailure a code timedOut oom out) = sa_Passed a"
  "sa_Summary (classifyProcessFailure a code timedOut oom out) = sa_Summary a"
  "sa_ExitCode (classifyProcessFailure a code timedOut oom out) = code"
  "sa_OOM (classifyProcessFailure a code timedOut oom out) = (oom \<or> code = 137)"
  "sa_TimedOut (classifyProcessFailure a code timedOut oom out) = timedOut"
  "sa_FailureKind (classifyProcessFailure a code timedOut oom out) =
     (if oom \<or> code = 137 then ''oom'' else if timedOut then ''timeout'' else ''functional'')"
  "sa_Error (classifyProcessFailure a code timedOut oom out) \<noteq> []"
  by (simp_all add: classifyProcessFailure_def Let_def)

lemma classifySummary_fields [simp]:
  "sa_Strategy (classifySummary strategy a s) = sa_Strategy a"
  "sa_LimitMiB (classifySummary strategy a s) = sa_LimitMiB a"
  "sa_Repetition (classifySummary strategy a s) = sa_Repetition a"
  "sa_ExitCode (classifySummary strategy a s) = sa_ExitCode a"
  "sa_OOM (classifySummary strategy a s) = sa_OOM a"
  "sa_TimedOut (classifySummary strategy a s) = sa_TimedOut a"
  "sa_Summary (classifySummary strategy a s) = Some s"
  "sa_Passed (classifySummary strategy a s) \<longleftrightarrow>
     functional_ok s \<and> (strategy = CopyTruncate \<or> integrity_ok s)"
  "sa_FailureKind (classifySummary strategy a s) =
     (if \<not> functional_ok s then ''functional''
      else if strategy = CopyTruncate \<or> integrity_ok s then sa_FailureKind a else ''integrity'')"
  by (simp_all add: classifySummary_def Let_def)

lemma run_container_keeps:
  assumes "run_container env cfg strategy runDir volume container a w = (a', w')"
  shows "sa_Strategy a' = sa_Strategy a \<and> sa_LimitMiB a' = sa_LimitMiB a \<and>
    sa_Repetition a' = sa_Repetition a"
  using assms
  by (auto simp: run_container_def read_summary_def split: prod.splits option.splits sum.splits)

lemma dockerAttempt_keeps:
  assumes "dockerAttempt env cfg strategy w a = (a', w')"
  shows "sa_Strategy a' = sa_Strategy a \<and> sa_LimitMiB a' = sa_LimitMiB a \<and>
    sa_Repetition a' = sa_Repetition a"
  using assms
  by (auto simp: dockerAttempt_def Let_def dest!: run_container_keeps
      split: prod.splits option.splits sum.splits)

interpretation docker: attempt_runner "dockerAttempt env cfg strategy" for env cfg strategy
  by unfold_locales (rule dockerAttempt_keeps)

text \<open>What an attempt may report: it passed exactly when it carries a summary that meets the
  strategy's criteria, a summary only comes from a process that ended well, and the failure
  kind names the reason that takes precedence.\<close>

definition acceptable :: "Strategy \<Rightarrow> RunSummary \<Rightarrow> bool" where
  "acceptable strategy s \<longleftrightarrow> functional_ok s \<and> (strategy = CopyTruncate \<or> integrity_ok s)"

definition verdict_ok :: "Strategy \<Rightarrow> SweepAttempt \<Rightarrow> bool" where
  "verdict_ok strategy a \<longleftrightarrow>
     (sa_Passed a \<longleftrightarrow> (\<exists>s. sa_Summary a = Some s \<and> acceptable strategy s)) \<and>
     (case sa_Summary a of
        Some s \<Rightarrow> sa_ExitCode a = 0 \<and> \<not> sa_OOM a \<and> \<not> sa_TimedOut a \<and>
          sa_FailureKind a = (if \<not> functional_ok s then ''functional''
            else if acceptable strategy s then [] else ''integrity'')
      | None \<Rightarrow>
          (if sa_OOM a then sa_FailureKind a = ''oom''
           else if sa_TimedOut a then sa_FailureKind a = ''timeout''
           else sa_FailureKind a = ''functional'' \<or> sa_FailureKind a = []) \<and>
          (sa_ExitCode a = 137 \<longrightarrow> sa_OOM a))"

definition fresh :: "SweepAttempt \<Rightarrow> bool" where
  "fresh a \<longleftrightarrow> \<not> sa_Passed a \<and> sa_Summary a = None \<and> \<not> sa_OOM a \<and> \<not> sa_TimedOut a \<and>
     sa_FailureKind a = [] \<and> sa_ExitCode a = 0"

lemma fresh_fresh_attempt [simp]: "fresh (fresh_attempt cfg L k)"
  by (simp add: fresh_def zero_SweepAttempt_def)

lemma verdict_process_failure:
  "fresh a \<Longrightarrow> verdict_ok strategy (classifyProcessFailure a code timedOut oom out)"
  by (simp add: verdict_ok_def fresh_def)

lemma verdict_summary:
  "fresh a \<Longrightarrow> verdict_ok strategy (read_summary env strategy runDir (a\<lparr>sa_ExitCode := 0\<rparr>) w)"
  by (auto simp: verdict_ok_def fresh_def read_summary_def acceptable_def
      split: sum.split option.split)

lemma verdict_run_container:
  assumes "fresh a"
  shows "verdict_ok strategy (fst (run_container env cfg strategy runDir volume container a w))"
  using assms
  by (auto simp: run_container_def verdict_process_failure verdict_summary
      split: prod.split option.split)

lemma verdict_dockerAttempt:
  assumes "fresh a"
  shows "verdict_ok strategy (fst (dockerAttempt env cfg strategy w a))"
proof -
  have marked: "verdict_ok strategy (a\<lparr>sa_Error := e, sa_FailureKind := k\<rparr>)"
    if "k = [] \<or> k = ''functional''" for e k
    using assms that by (auto simp: verdict_ok_def fresh_def)
  have plain: "verdict_ok strategy (a\<lparr>sa_Error := e\<rparr>)" for e
    using assms by (auto simp: verdict_ok_def fresh_def)
  show ?thesis
    using verdict_run_container [OF assms, of strategy env cfg]
    by (auto simp: dockerAttempt_def Let_def marked plain split: prod.split sum.split option.split)
      (metis fst_conv)+
qed

text \<open>The two ways an attempt can end before its container is started and leave no failure kind.\<close>

definition unclassified :: "'w docker_env \<Rightarrow> DockerConfig \<Rightarrow> Strategy \<Rightarrow> 'w \<Rightarrow> SweepAttempt \<Rightarrow> bool" where
  "unclassified env cfg strategy w a =
     (case absoluteResultRoot env (dc_ResultRoot cfg) w of
        Inl e \<Rightarrow> False
      | Inr rdir \<Rightarrow>
          (let (t1, w) = unix_nano env w;
               (err, w) = prepareResultDir env (path_join [rdir, attempt_dir strategy a t1]) w
           in err \<noteq> None \<or>
              (let (t2, w) = unix_nano env w; (t3, w) = unix_nano env w
               in snd (fst (docker_combined env
                    [''volume'', ''create'', attempt_name ''loglab-sweep-'' strategy a t2] w)) \<noteq> None)))"

lemma run_container_kind:
  assumes "fresh a"
  shows "sa_FailureKind (fst (run_container env cfg strategy runDir volume container a w)) = [] \<Longrightarrow>
    sa_Passed (fst (run_container env cfg strategy runDir volume container a w))"
  using assms
  by (auto simp: run_container_def read_summary_def fresh_def
      split: prod.splits option.splits sum.splits if_splits)

lemma dockerAttempt_kind:
  assumes "fresh a"
  shows "sa_FailureKind (fst (dockerAttempt env cfg strategy w a)) = [] \<and>
      \<not> sa_Passed (fst (dockerAttempt env cfg strategy w a)) \<longleftrightarrow>
    unclassified env cfg strategy w a"
proof (cases "absoluteResultRoot env (dc_ResultRoot cfg) w")
  case (Inl e)
  then show ?thesis by (simp add: dockerAttempt_def unclassified_def)
next
  case (Inr rdir)
  obtain t1 w1 where 1: "unix_nano env w = (t1, w1)" by fastforce
  obtain err w2 where 2: "prepareResultDir env (path_join [rdir, attempt_dir strategy a t1]) w1 = (err, w2)"
    by fastforce
  obtain t2 w3 where 3: "unix_nano env w2 = (t2, w3)" by fastforce
  obtain t3 w4 where 4: "unix_nano env w3 = (t3, w4)" by fastforce
  obtain out e w5 where 5: "docker_combined env
      [''volume'', ''create'', attempt_name ''loglab-sweep-'' strategy a t2] w4 = ((out, e), w5)"
    by (metis prod_cases3 prod.collapse)
  show ?thesis
  proof (cases "err = None \<and> e = None")
    case True
    obtain a' w6 where 6: "run_container env cfg strategy (path_join [rdir, attempt_dir strategy a t1])
        (attempt_name ''loglab-sweep-'' strategy a t2)
        (attempt_name ''loglab-sweep-run-'' strategy a t3) a w5 = (a', w6)" by fastforce
    with run_container_kind [OF assms] have "sa_FailureKind a' = [] \<Longrightarrow> sa_Passed a'"
      by (metis fst_conv)
    with True show ?thesis
      by (auto simp: dockerAttempt_def unclassified_def Inr 1 2 3 4 5 6)
  next
    case False
    with assms show ?thesis
      by (auto simp: dockerAttempt_def unclassified_def fresh_def Inr 1 2 3 4 5
          split: option.split)
  qed
qed

lemma Search_fresh_all:
  assumes "Search ctx cfg (dockerAttempt env dcfg strategy) w = Some (r, e, w')"
  shows "\<forall>a \<in> set (sr_Attempts r). verdict_ok strategy a"
proof -
  have "verdict_ok strategy (fst (dockerAttempt env dcfg strategy w (fresh_attempt cfg L k)))" for w L k
    by (rule verdict_dockerAttempt) simp
  from Search_attempts_all [where Q = "verdict_ok strategy", OF assms this] show ?thesis by blast
qed

lemma DockerSearch_boundary:
  assumes "dc_UpperMiB cfg + dc_StepMiB cfg \<le> 2 ^ 62"
    and "DockerSearch env ctx cfg strategy w = Some (r, None, w')"
  shows "boundary_found (search_config cfg strategy) r \<and> counters_agree r \<and>
    (\<forall>a \<in> set (sr_Attempts r). verdict_ok strategy a) \<and>
    sr_Workload r = dockerWorkload cfg \<and> sr_AttemptTimeoutNS r = dc_AttemptTimeout cfg \<and>
    valid_config (search_config cfg strategy)"
proof -
  let ?upd = "\<lambda>r. r\<lparr>sr_AttemptTimeoutNS := dc_AttemptTimeout cfg, sr_Workload := dockerWorkload cfg\<rparr>"
  obtain r0 where s: "Search ctx (search_config cfg strategy) (dockerAttempt env cfg strategy) w =
      Some (r0, None, w')" and r: "r = ?upd r0"
    using assms(2) by (auto simp: DockerSearch_def)
  have "in_range (search_config cfg strategy)"
    using assms(1) by (simp add: in_range_def search_config_def)
  moreover have "valid_config (search_config cfg strategy)"
    using s by (cases rule: Search_success_cases) simp_all
  ultimately show ?thesis
    using docker.boundary_of_success [OF _ s] Search_fresh_all [OF s]
    by (auto simp: r boundary_found_def accepted_def rejected_def counters_agree_def
        split: if_splits)
qed

subsection \<open>How a container ended\<close>

text \<open>What the client and the operating system answer during an attempt, written as relations over
  their answers alone. \<open>launched\<close>: the attempt gets as far as starting the client, with the result
  \<open>st\<close>. \<open>waited\<close>: what ends the wait is \<open>cmd.Wait\<close>'s result \<open>err\<close>, and \<open>oom\<close> tells whether a poll was
  answered with \<open>true\<close> before that.\<close>

inductive launched :: "'w docker_env \<Rightarrow> DockerConfig \<Rightarrow> Strategy \<Rightarrow> SweepAttempt \<Rightarrow> 'w \<Rightarrow> string \<Rightarrow>
    string \<Rightarrow> go_error option \<Rightarrow> 'w \<Rightarrow> bool" for env cfg strategy a w where
  launched: "path_abs (os_getwd env w) (dc_ResultRoot cfg) = Inr rdir \<Longrightarrow> unix_nano env w = (t1, w1) \<Longrightarrow>
    runDir = path_join [rdir, attempt_dir strategy a t1] \<Longrightarrow>
    os_mkdir_all env runDir w1 = (None, w2) \<Longrightarrow> os_chmod env runDir w2 = (None, w3) \<Longrightarrow>
    unix_nano env w3 = (t2, w4) \<Longrightarrow> unix_nano env w4 = (t3, w5) \<Longrightarrow>
    volume = attempt_name ''loglab-sweep-'' strategy a t2 \<Longrightarrow>
    container = attempt_name ''loglab-sweep-run-'' strategy a t3 \<Longrightarrow>
    docker_combined env [''volume'', ''create'', volume] w5 = ((out, None), w6) \<Longrightarrow>
    docker_start env (attempt_timeout cfg) (docker_args cfg strategy a runDir volume container) w6 =
      (st, w7) \<Longrightarrow>
    launched env cfg strategy a w runDir container st w7"

inductive waited :: "'w docker_env \<Rightarrow> string \<Rightarrow> wait_event list \<Rightarrow> 'w \<Rightarrow> wait_error option \<Rightarrow> bool \<Rightarrow>
    'w \<Rightarrow> bool" for env container where
  exited: "wait_result env w = (err, w') \<Longrightarrow> waited env container (WaitDone # evs) w err False w'"
| polled: "docker_output env [''inspect'', ''--format'', ''{{.State.OOMKilled}}'', container] w = (answer, w1) \<Longrightarrow>
    (\<And>out. answer = Inr out \<Longrightarrow> trim_space out \<noteq> ''true'') \<Longrightarrow>
    waited env container evs w1 err oom w' \<Longrightarrow> waited env container (WaitTick # evs) w err oom w'"
| killed: "docker_output env [''inspect'', ''--format'', ''{{.State.OOMKilled}}'', container] w = (Inr out, w1) \<Longrightarrow>
    trim_space out = ''true'' \<Longrightarrow>
    wait_result env (docker_quiet env [''rm'', ''-f'', container] w1) = (err, w') \<Longrightarrow>
    waited env container (WaitTick # evs) w err True w'"
| cancelled: "evs = [] \<or> hd evs = WaitCancelled \<Longrightarrow>
    wait_result env (docker_quiet env [''rm'', ''-f'', container] w) = (err, w') \<Longrightarrow>
    waited env container evs w err False w'"

inductive_cases waited_tickE: "waited env container (WaitTick # evs) w err oom w'"

lemma containerOOMKilled_cases:
  assumes "containerOOMKilled env name w = (b, w1)"
  obtains answer where
    "docker_output env [''inspect'', ''--format'', ''{{.State.OOMKilled}}'', name] w = (answer, w1)"
    "b \<longleftrightarrow> (\<exists>out. answer = Inr out \<and> trim_space out = ''true'')"
proof -
  obtain answer w2 where
    "docker_output env [''inspect'', ''--format'', ''{{.State.OOMKilled}}'', name] w = (answer, w2)"
    by fastforce
  with assms that show ?thesis by (cases answer) (auto simp: containerOOMKilled_def)
qed

lemma wait_loop_waited:
  "wait_loop env container evs w = ((err, oom), w') \<Longrightarrow> waited env container evs w err oom w'"
proof (induction env container evs w rule: wait_loop.induct)
  case (2 env container evs w)
  obtain b w1 where k: "containerOOMKilled env container w = (b, w1)" by fastforce
  obtain answer where a:
    "docker_output env [''inspect'', ''--format'', ''{{.State.OOMKilled}}'', container] w = (answer, w1)"
    and b: "b \<longleftrightarrow> (\<exists>out. answer = Inr out \<and> trim_space out = ''true'')"
    using containerOOMKilled_cases [OF k] by metis
  show ?case
  proof (cases b)
    case True
    with 2(2) k have "wait_result env (remove_container env container w1) = (err, w')" "oom = True"
      by (auto split: prod.splits)
    with True a b show ?thesis by (auto simp: remove_container_def intro: waited.killed)
  next
    case False
    with 2(2) k have "wait_loop env container evs w1 = ((err, oom), w')" by simp
    from 2(1) [OF k [symmetric] _ this] False have "waited env container evs w1 err oom w'" by simp
    with False a b show ?thesis by (auto intro: waited.polled)
  qed
qed (auto simp: remove_container_def intro: waited.exited waited.cancelled split: prod.splits)

lemma launched_attempt:
  assumes "launched env cfg strategy a w runDir container st w1"
  shows "\<exists>volume w0. docker_start env (attempt_timeout cfg)
      (docker_args cfg strategy a runDir volume container) w0 = (st, w1) \<and>
    fst (dockerAttempt env cfg strategy w a) = fst (run_container env cfg strategy runDir volume container a w0)"
  using assms
proof cases
  case (launched rdir t1 w1 w2 w3 t2 w4 t3 w5 volume out w6)
  then show ?thesis
    by (intro exI [of _ volume] exI [of _ w6])
      (simp add: dockerAttempt_def absoluteResultRoot_def prepareResultDir_def Let_def split: prod.split)
qed

subsection \<open>Properties\<close>

text \<open>A client for the witnesses: containers limited to 64 MiB are killed, the others write a
  summary that passes. Its world is the \<open>--memory\<close> flag of the last container.\<close>

definition good_summary :: RunSummary where
  "good_summary = zero_RunSummary\<lparr>rs_SchemaVersion := 1,
     rs_Integrity := zero_IntegrityReport\<lparr>ir_SchemaVersion := 1\<rparr>\<rparr>"

definition sample_env :: "string docker_env" where
  "sample_env = \<lparr>os_getwd = (\<lambda>w. Inr ''/lab''), os_mkdir_all = (\<lambda>p w. (None, w)),
     os_chmod = (\<lambda>p w. (None, w)), os_read_file = (\<lambda>p w. Inr []),
     json_unmarshal = (\<lambda>b. Inr good_summary), unix_nano = (\<lambda>w. (7, w)),
     docker_combined = (\<lambda>args w. (([], None), w)), docker_quiet = (\<lambda>args w. w),
     docker_output = (\<lambda>args w. (Inl (ErrText []), w)), docker_start = (\<lambda>t args w. (None, args ! 3)),
     wait_events = (\<lambda>w. [WaitTick, WaitDone]),
     wait_result = (\<lambda>w. (if w = ''--memory=64m'' then Some (ExitError 137) else None, w)),
     captured_output = (\<lambda>w. []), deadline_exceeded = (\<lambda>w. False)\<rparr>"

definition sample_docker :: DockerConfig where
  "sample_docker = \<lparr>dc_Image = ''lab'', dc_ResultRoot = ''results'', dc_LowerMiB = 64,
     dc_UpperMiB = 72, dc_StepMiB = 4, dc_Repetitions = 1, dc_MaxFileBytes = 0,
     dc_BytesPerSecond = 0, dc_ResidentBytes = 0, dc_Rotations = 0, dc_MaxBackups = 0,
     dc_RecordBytes = 0, dc_BufferBytes = 0, dc_FlushInterval = 0, dc_MonitorInterval = 0,
     dc_AttemptTimeout = 0\<rparr>"

lemmas sample_defs = sample_env_def sample_docker_def dockerAttempt_def absoluteResultRoot_def
  prepareResultDir_def path_abs_def is_abs_def has_prefix_def run_container_def docker_args_def
  exit_code_of_def containerOOMKilled_def remove_container_def remove_volume_def read_summary_def
  classifyProcessFailure_def classifySummary_def good_summary_def functional_ok_def integrity_ok_def
  zero_RunSummary_def zero_IntegrityReport_def zero_WriterState_def SchemaVersion_def
  format_int_def dec.simps digit_char_literals

lemma sample_attempt:
  "dockerAttempt sample_env sample_docker s w (fresh_attempt c 64 k) =
     ((fresh_attempt c 64 k)\<lparr>sa_ExitCode := 137, sa_OOM := True,
        sa_Error := ''docker attempt failed'', sa_FailureKind := ''oom''\<rparr>, ''--memory=64m'')"
  "dockerAttempt sample_env sample_docker s w (fresh_attempt c 68 k) =
     ((fresh_attempt c 68 k)\<lparr>sa_Summary := Some good_summary, sa_FunctionalPassed := True,
        sa_IntegrityPassed := True, sa_Passed := True\<rparr>, ''--memory=68m'')"
  "dockerAttempt sample_env sample_docker s w (fresh_attempt c 72 k) =
     ((fresh_attempt c 72 k)\<lparr>sa_Summary := Some good_summary, sa_FunctionalPassed := True,
        sa_IntegrityPassed := True, sa_Passed := True\<rparr>, ''--memory=72m'')"
  by (simp_all add: sample_defs Let_def trim_space_def zero_SweepAttempt_def)

lemma zero_SweepAttempt_fields [simp]:
  "sa_FailureKind zero_SweepAttempt = []" "\<not> sa_Passed zero_SweepAttempt"
  by (simp_all add: zero_SweepAttempt_def)

lemma sample_config_fields [simp]:
  "search_config sample_docker s = \<lparr>sc_LowerMiB = 64, sc_UpperMiB = 72, sc_StepMiB = 4,
     sc_Repetitions = 1, sc_Strategy = s\<rparr>"
  by (simp add: search_config_def sample_docker_def)

lemma sample_search:
  "\<exists>r w'. DockerSearch sample_env (\<lambda>_. None) sample_docker s w = Some (r, None, w') \<and>
     sr_MinimumPassMiB r = 68 \<and> sr_GreatestFailMiB r = 64 \<and> sr_OOMFailures r = 1 \<and> sr_BoundaryResolved r"
proof -
  have eq: "alignUp 64 4 = 64" "alignDown 72 4 = 72" "search_mid 4 64 72 = 68"
      "wrap64 (72 - 64) = 8" "wrap64 (68 - 64) = 4" "wrap64 8 = 8" "wrap64 4 = 4"
    by (simp_all add: alignUp_eq alignDown_eq search_mid_def go_div_def wrap64_def)
  show ?thesis
    using sample_attempt [where s = s and k = 1 and c = "search_config sample_docker s"]
    by (simp add: DockerSearch_def Search_def valid_config_def eq test_limit_def Let_def
        search_loop.simps [of 4 _ 64 72] search_loop.simps [of 4 _ 64 68] finish_search_def
        add_attempt_def count_failure_def sweep_start_def zero_SweepReport_def
        Mapping.lookup_empty lookup_update')
qed

text \<open>C8: an attempt whose container was started reports what the client answered. When \<open>cmd.Start\<close>
  fails or \<open>cmd.Wait\<close> returns an error, it has not passed and carries no summary; the exit code is
  that of the error (or -1), \<open>TimedOut\<close> is whether the deadline had passed then, and \<open>OOM\<close> whether a
  poll of the container was answered with \<open>true\<close> or the exit code is 137; the failure kind is
  "oom", else "timeout", else "functional", in this order. When the container exits with 0, it is
  judged by the decoded \<open>summary.json\<close>: an unreadable or undecodable one is a functional failure;
  functional acceptance is both schema versions being 1 and no reopen failure; integrity
  acceptance is that none of missing, duplicate, malformed, wrong-run-ID and descending records
  is counted; both are needed to pass, except that copytruncate needs no integrity acceptance.\<close>

theorem docker_attempt_verdict:
  assumes "fresh a" and "launched env cfg strategy a w runDir container st w1"
    and "b = fst (dockerAttempt env cfg strategy w a)"
  shows "case st of
      Some e \<Rightarrow> \<not> sa_Passed b \<and> sa_Summary b = None \<and> sa_ExitCode b = - 1 \<and> \<not> sa_TimedOut b \<and>
        \<not> sa_OOM b \<and> sa_FailureKind b = ''functional''
    | None \<Rightarrow> (\<exists>err oom w2. waited env container (wait_events env w1) w1 err oom w2 \<and>
        (case err of
           Some e \<Rightarrow> \<not> sa_Passed b \<and> sa_Summary b = None \<and>
             sa_ExitCode b = (case e of ExitError code \<Rightarrow> code | WaitFailed \<Rightarrow> - 1) \<and>
             sa_TimedOut b = deadline_exceeded env w2 \<and> sa_OOM b = (oom \<or> e = ExitError 137) \<and>
             sa_FailureKind b = (if oom \<or> e = ExitError 137 then ''oom''
               else if deadline_exceeded env w2 then ''timeout'' else ''functional'')
         | None \<Rightarrow> sa_ExitCode b = 0 \<and> \<not> sa_TimedOut b \<and> \<not> sa_OOM b \<and>
             (case os_read_file env (path_join [runDir, ''summary.json'']) w2 of
                Inl e \<Rightarrow> \<not> sa_Passed b \<and> sa_Summary b = None \<and> sa_FailureKind b = ''functional''
              | Inr bytes \<Rightarrow>
                  (case json_unmarshal env bytes of
                     Inl e \<Rightarrow> \<not> sa_Passed b \<and> sa_Summary b = None \<and> sa_FailureKind b = ''functional''
                   | Inr s \<Rightarrow> sa_Summary b = Some s \<and>
                       sa_FunctionalPassed b = (rs_SchemaVersion s = 1 \<and>
                         ir_SchemaVersion (rs_Integrity s) = 1 \<and> ws_ReopenFailures (rs_Writer s) = 0) \<and>
                       sa_IntegrityPassed b = (ir_Missing (rs_Integrity s) = 0 \<and>
                         ir_Duplicates (rs_Integrity s) = 0 \<and> ir_Malformed (rs_Integrity s) = 0 \<and>
                         ir_WrongRunID (rs_Integrity s) = 0 \<and>
                         ir_DescendingTransitions (rs_Integrity s) = 0) \<and>
                       sa_Passed b = (sa_FunctionalPassed b \<and>
                         (strategy = CopyTruncate \<or> sa_IntegrityPassed b)) \<and>
                       sa_FailureKind b = (if \<not> sa_FunctionalPassed b then ''functional''
                         else if \<not> sa_Passed b then ''integrity'' else [])))))"
proof -
  obtain volume w0 where start: "docker_start env (attempt_timeout cfg)
      (docker_args cfg strategy a runDir volume container) w0 = (st, w1)"
    and b: "b = fst (run_container env cfg strategy runDir volume container a w0)"
    using launched_attempt [OF assms(2)] assms(3) by metis
  have a: "\<not> sa_Passed a" "sa_Summary a = None" "\<not> sa_OOM a" "\<not> sa_TimedOut a" "sa_FailureKind a = []"
    using assms(1) by (simp_all add: fresh_def)
  show ?thesis
  proof (cases st)
    case (Some e)
    with a show ?thesis by (simp add: b run_container_def start classifyProcessFailure_def Let_def)
  next
    case None
    obtain err oom w2 where l: "wait_loop env container (wait_events env w1) w1 = ((err, oom), w2)"
      by (metis prod.collapse)
    note waited = wait_loop_waited [OF l]
    show ?thesis
    proof (cases err)
      case (Some e)
      then have "b = classifyProcessFailure a (exit_code_of e) (deadline_exceeded env w2) oom
          (trim_space (captured_output env w2))"
        by (simp add: b run_container_def start None l)
      with a show ?thesis unfolding None option.case
        by (intro exI [of _ err] exI [of _ oom] exI [of _ w2] conjI [OF waited])
          (simp add: Some exit_code_of_def classifyProcessFailure_def Let_def split: wait_error.split)
    next
      case ok: None
      then have "b = read_summary env strategy runDir (a\<lparr>sa_ExitCode := 0\<rparr>) w2"
        by (simp add: b run_container_def start None l)
      with a show ?thesis unfolding None option.case
        by (intro exI [of _ err] exI [of _ oom] exI [of _ w2] conjI [OF waited])
          (auto simp: ok read_summary_def classifySummary_def functional_ok_def integrity_ok_def
            SchemaVersion_def Let_def split: sum.split)
    qed
  qed
qed

text \<open>The witness' container is reported as killed by a poll and exits with 1.\<close>

definition killed_env :: "string docker_env" where
  "killed_env = sample_env\<lparr>docker_output := (\<lambda>args w. (Inr (''true'' @ [NL]), w)),
     wait_result := (\<lambda>w. (Some (ExitError 1), w))\<rparr>"

lemma killed_waited:
  "waited killed_env container [WaitTick, WaitDone] w err oom w' \<Longrightarrow> oom \<and> err = Some (ExitError 1)"
proof (erule waited_tickE)
  have t: "trim_space (''true'' @ [NL]) = ''true''" by code_simp
  show "oom \<and> err = Some (ExitError 1)"
    if "docker_output killed_env args w = (answer, w1)" "\<And>out. answer = Inr out \<Longrightarrow> trim_space out \<noteq> ''true''"
    for args answer w1
    using that t by (simp add: killed_env_def)
qed (simp_all add: killed_env_def)

theorem docker_attempt_verdict_witness:
  "sa_FailureKind (fst (dockerAttempt killed_env sample_docker RenameReopen []
     (fresh_attempt sample_config 64 1))) = ''oom'' \<and>
   sa_ExitCode (fst (dockerAttempt killed_env sample_docker RenameReopen []
     (fresh_attempt sample_config 64 1))) = 1"
proof -
  let ?a = "fresh_attempt sample_config 64 1"
  let ?runDir = "path_join [''/lab/results'', attempt_dir RenameReopen ?a 7]"
  let ?volume = "attempt_name ''loglab-sweep-'' RenameReopen ?a 7"
  let ?container = "attempt_name ''loglab-sweep-run-'' RenameReopen ?a 7"
  have root: "path_abs (os_getwd killed_env []) (dc_ResultRoot sample_docker) = Inr ''/lab/results''"
    by code_simp
  have "launched killed_env sample_docker RenameReopen ?a [] ?runDir ?container None
      (docker_args sample_docker RenameReopen ?a ?runDir ?volume ?container ! 3)"
    by (rule launched.launched [OF root _ refl]) (simp_all add: killed_env_def sample_env_def)
  note verdict = docker_attempt_verdict [OF fresh_fresh_attempt this refl]
  have "wait_events killed_env v = [WaitTick, WaitDone]" for v by (simp add: killed_env_def sample_env_def)
  note verdict = verdict [unfolded this option.case]
  then show ?thesis using killed_waited by fastforce
qed

text \<open>C30: the failures no counter of the report counts. An attempt that did not pass has an empty
  failure kind exactly when its result directory could not be prepared or \<open>docker volume
  create\<close> failed; every other failure has one of the four kinds.\<close>

theorem docker_unclassified_failures:
  assumes "fresh a"
  shows "\<not> sa_Passed (fst (dockerAttempt env cfg strategy w a)) \<and>
      sa_FailureKind (fst (dockerAttempt env cfg strategy w a)) \<notin>
        {''oom'', ''timeout'', ''functional'', ''integrity''} \<longleftrightarrow>
    unclassified env cfg strategy w a"
proof -
  let ?a = "fst (dockerAttempt env cfg strategy w a)"
  have "sa_FailureKind ?a \<in> {[], ''oom'', ''timeout'', ''functional'', ''integrity''}"
    using verdict_dockerAttempt [OF assms, of strategy env cfg w]
    by (auto simp: verdict_ok_def split: option.splits if_splits)
  then have "sa_FailureKind ?a \<notin> {''oom'', ''timeout'', ''functional'', ''integrity''} \<longleftrightarrow>
      sa_FailureKind ?a = []" by auto
  with dockerAttempt_kind [OF assms, of env cfg strategy w] show ?thesis by blast
qed

theorem docker_unclassified_failures_witness:
  "sa_FailureKind (fst (dockerAttempt
       (sample_env\<lparr>docker_combined := \<lambda>args w. (([], Some (ErrText ''exit status 1'')), w)\<rparr>)
       sample_docker RenameReopen [] (fresh_attempt sample_config 64 1))) \<notin>
     {''oom'', ''timeout'', ''functional'', ''integrity''}"
  using docker_unclassified_failures [of "fresh_attempt sample_config 64 1"
      "sample_env\<lparr>docker_combined := \<lambda>args w. (([], Some (ErrText ''exit status 1'')), w)\<rparr>"
      sample_docker RenameReopen "[]"]
  by (simp add: unclassified_def absoluteResultRoot_def prepareResultDir_def path_abs_def
      is_abs_def has_prefix_def sample_env_def sample_docker_def)

text \<open>C7: the memory sweep over Docker, with no assumption on what the Docker client, the clock or
  the file system do. A sweep that ends without error has found a boundary (as in
  \<open>search_boundary\<close>), each attempt in its report is honest, the counters agree with the
  attempts, and the report names the workload and timeout it was run with.\<close>

theorem docker_search_boundary:
  assumes "dc_UpperMiB cfg + dc_StepMiB cfg \<le> 2 ^ 62"
    and "DockerSearch env ctx cfg strategy w = Some (r, None, w')"
  shows "boundary_found (search_config cfg strategy) r \<and> counters_agree r \<and>
    (\<forall>a \<in> set (sr_Attempts r). verdict_ok strategy a) \<and>
    sr_Workload r = dockerWorkload cfg \<and> sr_AttemptTimeoutNS r = dc_AttemptTimeout cfg"
  using DockerSearch_boundary [OF assms] by blast

theorem docker_search_boundary_witness:
  "\<exists>r w. DockerSearch sample_env (\<lambda>_. None) sample_docker ''rename-reopen'' [] = Some (r, None, w) \<and>
     sr_MinimumPassMiB r = 68 \<and> accepted r 68 \<and> rejected r 64"
proof -
  obtain r w where s: "DockerSearch sample_env (\<lambda>_. None) sample_docker ''rename-reopen'' [] =
      Some (r, None, w)" and m: "sr_MinimumPassMiB r = 68" "sr_GreatestFailMiB r = 64"
    using sample_search by blast
  have "dc_UpperMiB sample_docker + dc_StepMiB sample_docker \<le> 2 ^ 62"
    by (simp add: sample_docker_def)
  from docker_search_boundary [OF this s] s m show ?thesis
    by (auto simp: boundary_found_def split: if_splits)
qed

end
