(* ===== verification/Cli.thy ===== *)
theory Cli
  imports Flags Harness Docker
begin

text \<open>
  \<open>cmd/loglab/main.go\<close>: the flags of the five subcommands, what each does with them, and the exit
  status. The subcommands run the components: \<open>writerCommand\<close> ends in the writer machine's first
  state, \<open>rotateCommand\<close> in \<open>rotator.Run\<close>, \<open>monitorCommand\<close> in \<open>monitor.Run\<close>, \<open>runCommand\<close> in
  \<open>harness.Run\<close> and \<open>memorySweepCommand\<close> in one \<open>DockerSearch\<close> per strategy. Signals are the
  cancellation of the context in those models. Flag defaults are those of the source; flag usage
  texts are left out.
\<close>

abbreviation ms :: int where "ms \<equiv> 10 ^ 6"
abbreviation MiB :: int where "MiB \<equiv> 1024 * 1024"

subsection \<open>The writer command\<close>

definition writer_defaults :: WriterConfig where
  "writer_defaults = \<lparr>wc_RunID = [], wc_Path = [], wc_ListenAddress = ''127.0.0.1:18080'',
     wc_StatePath = [], wc_RecordBytes = 512, wc_BufferBytes = 64 * 1024, wc_BytesPerSecond = 8 * MiB,
     wc_FlushInterval = 100 * ms, wc_ResidentBytes = 32 * MiB\<rparr>"

definition writer_flags :: "(string \<times> WriterConfig flag) list" where
  "writer_flags =
     [(''run-id'', StringVar (\<lambda>v c. c\<lparr>wc_RunID := v\<rparr>)),
      (''path'', StringVar (\<lambda>v c. c\<lparr>wc_Path := v\<rparr>)),
      (''listen'', StringVar (\<lambda>v c. c\<lparr>wc_ListenAddress := v\<rparr>)),
      (''state'', StringVar (\<lambda>v c. c\<lparr>wc_StatePath := v\<rparr>)),
      (''record-bytes'', IntVar (\<lambda>v c. c\<lparr>wc_RecordBytes := v\<rparr>)),
      (''buffer-bytes'', IntVar (\<lambda>v c. c\<lparr>wc_BufferBytes := v\<rparr>)),
      (''bytes-per-second'', IntVar (\<lambda>v c. c\<lparr>wc_BytesPerSecond := v\<rparr>)),
      (''flush-interval'', DurationVar (\<lambda>v c. c\<lparr>wc_FlushInterval := v\<rparr>)),
      (''resident-bytes'', IntVar (\<lambda>v c. c\<lparr>wc_ResidentBytes := v\<rparr>))]"

definition writerCommand :: "go_error option \<Rightarrow> string list \<Rightarrow> Writer result" where
  "writerCommand listen_error args =
     (case parse_flags writer_flags args writer_defaults of
        Inl e \<Rightarrow> Inl e
      | Inr cfg \<Rightarrow> new_writer listen_error cfg)"

subsection \<open>The rotate command\<close>

record rotate_options =
  ro_cfg :: RotatorConfig
  ro_strategy :: string
  ro_startUnixNano :: int

definition rotate_defaults :: rotate_options where
  "rotate_defaults = \<lparr>ro_cfg = \<lparr>rc_Strategy = [], rc_ActivePath = [], rc_ReopenURL = [], rc_EventPath = [],
     rc_MaxFileBytes = 32 * MiB, rc_Rotations = 4, rc_MaxBackups = 0, rc_PollInterval = 20 * ms,
     rc_StartTime = None\<rparr>, ro_strategy = [], ro_startUnixNano = 0\<rparr>"

definition rotate_flags :: "(string \<times> rotate_options flag) list" where
  "rotate_flags =
     [(''strategy'', StringVar (\<lambda>v c. c\<lparr>ro_strategy := v\<rparr>)),
      (''active'', StringVar (\<lambda>v c. c\<lparr>ro_cfg := (ro_cfg c)\<lparr>rc_ActivePath := v\<rparr>\<rparr>)),
      (''reopen-url'', StringVar (\<lambda>v c. c\<lparr>ro_cfg := (ro_cfg c)\<lparr>rc_ReopenURL := v\<rparr>\<rparr>)),
      (''events'', StringVar (\<lambda>v c. c\<lparr>ro_cfg := (ro_cfg c)\<lparr>rc_EventPath := v\<rparr>\<rparr>)),
      (''max-file-bytes'', IntVar (\<lambda>v c. c\<lparr>ro_cfg := (ro_cfg c)\<lparr>rc_MaxFileBytes := v\<rparr>\<rparr>)),
      (''rotations'', IntVar (\<lambda>v c. c\<lparr>ro_cfg := (ro_cfg c)\<lparr>rc_Rotations := v\<rparr>\<rparr>)),
      (''max-backups'', IntVar (\<lambda>v c. c\<lparr>ro_cfg := (ro_cfg c)\<lparr>rc_MaxBackups := v\<rparr>\<rparr>)),
      (''poll-interval'', DurationVar (\<lambda>v c. c\<lparr>ro_cfg := (ro_cfg c)\<lparr>rc_PollInterval := v\<rparr>\<rparr>)),
      (''start-unix-nano'', IntVar (\<lambda>v c. c\<lparr>ro_startUnixNano := v\<rparr>))]"

definition unix_start :: "int \<Rightarrow> int option" where
  "unix_start nano = (if nano \<noteq> 0 then Some nano else None)"

definition rotate_config :: "rotate_options \<Rightarrow> RotatorConfig" where
  "rotate_config opts = (ro_cfg opts)\<lparr>rc_Strategy := ro_strategy opts, rc_StartTime := unix_start (ro_startUnixNano opts)\<rparr>"

definition rotateCommand :: "string list \<Rightarrow> unit io" where
  "rotateCommand args =
     (case parse_flags rotate_flags args rotate_defaults of
        Inl e \<Rightarrow> fail_io e
      | Inr opts \<Rightarrow> Run (rotate_config opts))"

subsection \<open>The monitor command\<close>

record monitor_options =
  mp_cfg :: MonitorConfig
  mp_startUnixNano :: int

definition monitor_defaults :: monitor_options where
  "monitor_defaults = \<lparr>mp_cfg = \<lparr>mc_RunID = [], mc_Strategy = [], mc_ActivePath = [], mc_SamplesPath = [],
     mc_Interval = 100 * ms, mc_StartTime = None\<rparr>, mp_startUnixNano = 0\<rparr>"

definition monitor_flags :: "(string \<times> monitor_options flag) list" where
  "monitor_flags =
     [(''run-id'', StringVar (\<lambda>v c. c\<lparr>mp_cfg := (mp_cfg c)\<lparr>mc_RunID := v\<rparr>\<rparr>)),
      (''strategy'', StringVar (\<lambda>v c. c\<lparr>mp_cfg := (mp_cfg c)\<lparr>mc_Strategy := v\<rparr>\<rparr>)),
      (''active'', StringVar (\<lambda>v c. c\<lparr>mp_cfg := (mp_cfg c)\<lparr>mc_ActivePath := v\<rparr>\<rparr>)),
      (''samples'', StringVar (\<lambda>v c. c\<lparr>mp_cfg := (mp_cfg c)\<lparr>mc_SamplesPath := v\<rparr>\<rparr>)),
      (''interval'', DurationVar (\<lambda>v c. c\<lparr>mp_cfg := (mp_cfg c)\<lparr>mc_Interval := v\<rparr>\<rparr>)),
      (''start-unix-nano'', IntVar (\<lambda>v c. c\<lparr>mp_startUnixNano := v\<rparr>))]"

definition monitor_config :: "monitor_options \<Rightarrow> MonitorConfig" where
  "monitor_config opts = (mp_cfg opts)\<lparr>mc_StartTime := unix_start (mp_startUnixNano opts)\<rparr>"

definition monitorCommand ::
  "(string \<Rightarrow> bool) \<Rightarrow> int \<Rightarrow> unit result \<Rightarrow> unit result \<Rightarrow> monitor_round list \<Rightarrow> string list \<Rightarrow>
   go_error option option \<times> samples_file option" where
  "monitorCommand stat now mkdir create rounds args =
     (case parse_flags monitor_flags args monitor_defaults of
        Inl e \<Rightarrow> (Some (Some e), None)
      | Inr opts \<Rightarrow> Monitor_Run (monitor_config opts) stat now mkdir create rounds)"

subsection \<open>The run command\<close>

record run_options =
  ru_cfg :: HarnessConfig
  ru_strategy :: string

text \<open>Two defaults come from outside: the clock (nanoseconds) and \<open>LOGLAB_WRITER_EXECUTABLE\<close>.\<close>

definition run_defaults :: "int \<Rightarrow> string \<Rightarrow> run_options" where
  "run_defaults nano writer_executable =
     \<lparr>ru_cfg = \<lparr>hc_Executable = [], hc_WriterExecutable = writer_executable,
        hc_RunID = ''run-'' @ format_int nano, hc_Strategy = [], hc_LogDir = ''/var/log/loglab'',
        hc_ResultDir = ''/results'', hc_MaxFileBytes = 32 * MiB, hc_Rotations = 4, hc_MaxBackups = 0,
        hc_RecordBytes = 512, hc_BytesPerSecond = 8 * MiB, hc_BufferBytes = 64 * 1024,
        hc_FlushInterval = 100 * ms, hc_MonitorInterval = 100 * ms, hc_ResidentBytes = 32 * MiB,
        hc_EnableMonitor = True\<rparr>, ru_strategy = ''copytruncate''\<rparr>"

definition run_flags :: "(string \<times> run_options flag) list" where
  "run_flags =
     [(''run-id'', StringVar (\<lambda>v c. c\<lparr>ru_cfg := (ru_cfg c)\<lparr>hc_RunID := v\<rparr>\<rparr>)),
      (''strategy'', StringVar (\<lambda>v c. c\<lparr>ru_strategy := v\<rparr>)),
      (''log-dir'', StringVar (\<lambda>v c. c\<lparr>ru_cfg := (ru_cfg c)\<lparr>hc_LogDir := v\<rparr>\<rparr>)),
      (''result-dir'', StringVar (\<lambda>v c. c\<lparr>ru_cfg := (ru_cfg c)\<lparr>hc_ResultDir := v\<rparr>\<rparr>)),
      (''writer-executable'', StringVar (\<lambda>v c. c\<lparr>ru_cfg := (ru_cfg c)\<lparr>hc_WriterExecutable := v\<rparr>\<rparr>)),
      (''max-file-bytes'', IntVar (\<lambda>v c. c\<lparr>ru_cfg := (ru_cfg c)\<lparr>hc_MaxFileBytes := v\<rparr>\<rparr>)),
      (''rotations'', IntVar (\<lambda>v c. c\<lparr>ru_cfg := (ru_cfg c)\<lparr>hc_Rotations := v\<rparr>\<rparr>)),
      (''max-backups'', IntVar (\<lambda>v c. c\<lparr>ru_cfg := (ru_cfg c)\<lparr>hc_MaxBackups := v\<rparr>\<rparr>)),
      (''record-bytes'', IntVar (\<lambda>v c. c\<lparr>ru_cfg := (ru_cfg c)\<lparr>hc_RecordBytes := v\<rparr>\<rparr>)),
      (''bytes-per-second'', IntVar (\<lambda>v c. c\<lparr>ru_cfg := (ru_cfg c)\<lparr>hc_BytesPerSecond := v\<rparr>\<rparr>)),
      (''buffer-bytes'', IntVar (\<lambda>v c. c\<lparr>ru_cfg := (ru_cfg c)\<lparr>hc_BufferBytes := v\<rparr>\<rparr>)),
      (''flush-interval'', DurationVar (\<lambda>v c. c\<lparr>ru_cfg := (ru_cfg c)\<lparr>hc_FlushInterval := v\<rparr>\<rparr>)),
      (''monitor-interval'', DurationVar (\<lambda>v c. c\<lparr>ru_cfg := (ru_cfg c)\<lparr>hc_MonitorInterval := v\<rparr>\<rparr>)),
      (''resident-bytes'', IntVar (\<lambda>v c. c\<lparr>ru_cfg := (ru_cfg c)\<lparr>hc_ResidentBytes := v\<rparr>\<rparr>)),
      (''monitor'', BoolVar (\<lambda>v c. c\<lparr>ru_cfg := (ru_cfg c)\<lparr>hc_EnableMonitor := v\<rparr>\<rparr>))]"

definition run_config :: "run_options \<Rightarrow> HarnessConfig" where
  "run_config opts = (ru_cfg opts)\<lparr>hc_Strategy := ru_strategy opts\<rparr>"

definition runCommand ::
  "'w lab_env \<Rightarrow> (RunSummary \<Rightarrow> 'w \<Rightarrow> go_error option \<times> 'w) \<Rightarrow> string result \<Rightarrow> run_options \<Rightarrow>
   string list \<Rightarrow> 'w lab \<Rightarrow> (go_error option \<times> 'w lab) option" where
  "runCommand env print executable defaults args l =
     (case parse_flags run_flags args defaults of
        Inl e \<Rightarrow> Some (Some e, l)
      | Inr opts \<Rightarrow>
          (case executable of
             Inl e \<Rightarrow> Some (Some e, l)
           | Inr exe \<Rightarrow>
               (case Harness_Run env ((run_config opts)\<lparr>hc_Executable := exe\<rparr>) l of
                  None \<Rightarrow> None
                | Some ((summary, Some e), l) \<Rightarrow> Some (Some e, l)
                | Some ((summary, None), l) \<Rightarrow>
                    (case on_world (print summary) l of
                       (Some e, l) \<Rightarrow> Some (Some e, l)
                     | (None, l) \<Rightarrow>
                         Some (if rs_Success summary then None else Some (ErrText ''run acceptance failed''), l)))))"

subsection \<open>The memory sweep command\<close>

record sweep_options =
  so_cfg :: DockerConfig
  so_strategy :: string
  so_output :: string

definition sweep_defaults :: sweep_options where
  "sweep_defaults = \<lparr>so_cfg = \<lparr>dc_Image = ''logrotate-cache-lab:dev'', dc_ResultRoot = ''results/sweep-attempts'',
     dc_LowerMiB = 16, dc_UpperMiB = 512, dc_StepMiB = 4, dc_Repetitions = 3, dc_MaxFileBytes = 32 * MiB,
     dc_BytesPerSecond = 8 * MiB, dc_ResidentBytes = 32 * MiB, dc_Rotations = 4, dc_MaxBackups = 0,
     dc_RecordBytes = 512, dc_BufferBytes = 64 * 1024, dc_FlushInterval = 100 * ms,
     dc_MonitorInterval = 100 * ms, dc_AttemptTimeout = 90 * 1000 * ms\<rparr>,
     so_strategy = ''both'', so_output = ''results/memory-sweep.json''\<rparr>"

definition sweep_flags :: "(string \<times> sweep_options flag) list" where
  "sweep_flags =
     [(''image'', StringVar (\<lambda>v c. c\<lparr>so_cfg := (so_cfg c)\<lparr>dc_Image := v\<rparr>\<rparr>)),
      (''result-root'', StringVar (\<lambda>v c. c\<lparr>so_cfg := (so_cfg c)\<lparr>dc_ResultRoot := v\<rparr>\<rparr>)),
      (''output'', StringVar (\<lambda>v c. c\<lparr>so_output := v\<rparr>)),
      (''strategy'', StringVar (\<lambda>v c. c\<lparr>so_strategy := v\<rparr>)),
      (''lower-mib'', IntVar (\<lambda>v c. c\<lparr>so_cfg := (so_cfg c)\<lparr>dc_LowerMiB := v\<rparr>\<rparr>)),
      (''upper-mib'', IntVar (\<lambda>v c. c\<lparr>so_cfg := (so_cfg c)\<lparr>dc_UpperMiB := v\<rparr>\<rparr>)),
      (''step-mib'', IntVar (\<lambda>v c. c\<lparr>so_cfg := (so_cfg c)\<lparr>dc_StepMiB := v\<rparr>\<rparr>)),
      (''repetitions'', IntVar (\<lambda>v c. c\<lparr>so_cfg := (so_cfg c)\<lparr>dc_Repetitions := v\<rparr>\<rparr>)),
      (''max-file-bytes'', IntVar (\<lambda>v c. c\<lparr>so_cfg := (so_cfg c)\<lparr>dc_MaxFileBytes := v\<rparr>\<rparr>)),
      (''rotations'', IntVar (\<lambda>v c. c\<lparr>so_cfg := (so_cfg c)\<lparr>dc_Rotations := v\<rparr>\<rparr>)),
      (''max-backups'', IntVar (\<lambda>v c. c\<lparr>so_cfg := (so_cfg c)\<lparr>dc_MaxBackups := v\<rparr>\<rparr>)),
      (''record-bytes'', IntVar (\<lambda>v c. c\<lparr>so_cfg := (so_cfg c)\<lparr>dc_RecordBytes := v\<rparr>\<rparr>)),
      (''bytes-per-second'', IntVar (\<lambda>v c. c\<lparr>so_cfg := (so_cfg c)\<lparr>dc_BytesPerSecond := v\<rparr>\<rparr>)),
      (''buffer-bytes'', IntVar (\<lambda>v c. c\<lparr>so_cfg := (so_cfg c)\<lparr>dc_BufferBytes := v\<rparr>\<rparr>)),
      (''flush-interval'', DurationVar (\<lambda>v c. c\<lparr>so_cfg := (so_cfg c)\<lparr>dc_FlushInterval := v\<rparr>\<rparr>)),
      (''monitor-interval'', DurationVar (\<lambda>v c. c\<lparr>so_cfg := (so_cfg c)\<lparr>dc_MonitorInterval := v\<rparr>\<rparr>)),
      (''attempt-timeout'', DurationVar (\<lambda>v c. c\<lparr>so_cfg := (so_cfg c)\<lparr>dc_AttemptTimeout := v\<rparr>\<rparr>)),
      (''resident-bytes'', IntVar (\<lambda>v c. c\<lparr>so_cfg := (so_cfg c)\<lparr>dc_ResidentBytes := v\<rparr>\<rparr>))]"

definition sweep_strategies :: "string \<Rightarrow> Strategy list result" where
  "sweep_strategies strategy =
     (if strategy = ''both'' then Inr [Baseline, CopyTruncate, RenameReopen]
      else if strategy \<in> {Baseline, CopyTruncate, RenameReopen} then Inr [strategy]
      else Inl (ErrText (''unknown strategy '' @ quoted strategy)))"

definition pad_right :: "nat \<Rightarrow> string \<Rightarrow> string" where
  "pad_right n s = s @ replicate (n - length s) SP"

definition signed_int :: "int \<Rightarrow> string" where
  "signed_int x = (if x < 0 then format_int x else CHR ''+'' # format_int x)"

definition sweep_line :: "Strategy \<Rightarrow> SweepReport \<Rightarrow> string" where
  "sweep_line selected r =
     pad_right 14 selected @ '' minimum'' @ (if sr_BoundaryResolved r then ''='' else ''<='') @
     format_int (sr_MinimumPassMiB r) @ ''MiB greatest-fail='' @ format_int (sr_GreatestFailMiB r) @
     ''MiB attempts='' @ dec (length (sr_Attempts r)) @ [NL]"

text \<open>The searches one after the other; the reports gathered so far, the lines printed, the error
  of the search that failed. \<open>None\<close>: a search does not return.\<close>

fun run_sweeps ::
  "(Strategy \<Rightarrow> 'w \<Rightarrow> (SweepReport \<times> go_error option \<times> 'w) option) \<Rightarrow> Strategy list \<Rightarrow>
   SweepReport list \<Rightarrow> string \<Rightarrow> 'w \<Rightarrow> (SweepReport list \<times> string \<times> go_error option \<times> 'w) option" where
  "run_sweeps search [] reports out w = Some (reports, out, None, w)"
| "run_sweeps search (selected # strategies) reports out w =
     (case search selected w of
        None \<Rightarrow> None
      | Some (r, Some e, w) \<Rightarrow> Some (reports @ [r], out, Some e, w)
      | Some (r, None, w) \<Rightarrow> run_sweeps search strategies (reports @ [r]) (out @ sweep_line selected r) w)"

definition compare_baseline :: "SweepReport \<Rightarrow> SweepReport \<Rightarrow> SweepReport \<times> string" where
  "compare_baseline b r =
     (if sr_Strategy r = Baseline then (r, [])
      else
        (let r = r\<lparr>sr_BaselineMinimumMiB := sr_MinimumPassMiB b\<rparr>
         in if sr_BoundaryResolved b \<and> sr_BoundaryResolved r
            then (let r = r\<lparr>sr_DeltaMinimumMiB := wrap64 (sr_MinimumPassMiB r - sr_MinimumPassMiB b),
                        sr_DeltaResolved := True\<rparr>
                  in (r, pad_right 14 (sr_Strategy r) @ '' baseline='' @ format_int (sr_MinimumPassMiB b) @
                     ''MiB delta='' @ signed_int (sr_DeltaMinimumMiB r) @ ''MiB'' @ [NL]))
            else (r, pad_right 14 (sr_Strategy r) @ '' baseline/delta unresolved: lower bound passed'' @ [NL])))"

definition add_deltas :: "SweepReport list \<Rightarrow> SweepReport list \<times> string" where
  "add_deltas reports =
     (case List.find (\<lambda>r. sr_Strategy r = Baseline) reports of
        None \<Rightarrow> (reports, [])
      | Some b \<Rightarrow> (map (fst \<circ> compare_baseline b) reports, concat (map (snd \<circ> compare_baseline b) reports)))"

record combined_report =
  cr_SchemaVersion :: int
  cr_Reports :: "SweepReport list"

definition combined :: "SweepReport list \<Rightarrow> combined_report" where
  "combined reports = \<lparr>cr_SchemaVersion = SchemaVersion, cr_Reports = reports\<rparr>"

text \<open>\<open>search\<close> is \<open>DockerSearch env ctx\<close>, \<open>write\<close> is \<open>WriteJSONAtomic\<close> of the combined report.\<close>

definition memorySweepCommand ::
  "'w docker_env \<Rightarrow> ('w \<Rightarrow> go_error option) \<Rightarrow> (string \<Rightarrow> 'w \<Rightarrow> go_error option \<times> 'w) \<Rightarrow>
   (string \<Rightarrow> combined_report \<Rightarrow> 'w \<Rightarrow> go_error option \<times> 'w) \<Rightarrow> string list \<Rightarrow> 'w \<Rightarrow>
   (go_error option \<times> combined_report \<times> string \<times> 'w) option" where
  "memorySweepCommand env ctx mkdir write args w =
     (case parse_flags sweep_flags args sweep_defaults of
        Inl e \<Rightarrow> Some (Some e, combined [], [], w)
      | Inr opts \<Rightarrow>
          (case mkdir (dc_ResultRoot (so_cfg opts)) w of
             (Some e, w) \<Rightarrow> Some (Some e, combined [], [], w)
           | (None, w) \<Rightarrow>
          (case sweep_strategies (so_strategy opts) of
             Inl e \<Rightarrow> Some (Some e, combined [], [], w)
           | Inr strategies \<Rightarrow>
          (case run_sweeps (DockerSearch env ctx (so_cfg opts)) strategies [] [] w of
             None \<Rightarrow> None
           | Some (reports, out, Some e, w) \<Rightarrow>
               Some (Some e, combined reports, out, snd (write (so_output opts) (combined reports) w))
           | Some (reports, out, None, w) \<Rightarrow>
               (let (reports, lines) = add_deltas reports
                in case write (so_output opts) (combined reports) w of
                     (Some e, w) \<Rightarrow> Some (Some e, combined reports, out @ lines, w)
                   | (None, w) \<Rightarrow>
                       Some (None, combined reports, out @ lines @ ''report: '' @
                         (case path_abs (os_getwd env w) (so_output opts) of Inl _ \<Rightarrow> [] | Inr p \<Rightarrow> p) @ [NL], w))))))"

subsection \<open>Dispatch\<close>

datatype command = WriterCmd | RotateCmd | MonitorCmd | RunCmd | SweepCmd

text \<open>The command \<open>main\<close> picks, and the exit status and standard error it ends in.\<close>

definition select_command :: "string list \<Rightarrow> (command \<times> string list) result" where
  "select_command os_args =
     (if length os_args < 2 then Inl (ErrText ''usage: loglab <writer|rotate|monitor|run> [flags]'')
      else
        (let args = drop 2 os_args; name = os_args ! 1
         in if name = ''writer'' then Inr (WriterCmd, args)
            else if name = ''rotate'' then Inr (RotateCmd, args)
            else if name = ''monitor'' then Inr (MonitorCmd, args)
            else if name = ''run'' then Inr (RunCmd, args)
            else if name = ''memory-sweep'' then Inr (SweepCmd, args)
            else Inl (ErrText (''unknown command '' @ quoted name))))"

definition exit_status :: "go_error option \<Rightarrow> int \<times> string" where
  "exit_status err = (case err of None \<Rightarrow> (0, []) | Some e \<Rightarrow> (1, error_text e @ [NL]))"

definition main :: "(command \<Rightarrow> string list \<Rightarrow> go_error option) \<Rightarrow> string list \<Rightarrow> int \<times> string" where
  "main run os_args =
     (case select_command os_args of
        Inl e \<Rightarrow> exit_status (Some e)
      | Inr (cmd, args) \<Rightarrow> exit_status (run cmd args))"

subsection \<open>The command lines the program builds\<close>

definition sized :: "HarnessConfig \<Rightarrow> bool" where
  "sized cfg \<longleftrightarrow> list_all in_int64 [hc_MaxFileBytes cfg, hc_Rotations cfg, hc_MaxBackups cfg, hc_RecordBytes cfg,
     hc_BytesPerSecond cfg, hc_BufferBytes cfg, hc_FlushInterval cfg, hc_MonitorInterval cfg, hc_ResidentBytes cfg]"

lemmas flag_steps = string_step int_step duration_step

lemma writer_args_parsed:
  assumes "sized cfg"
  shows "parse_flags writer_flags (writer_args cfg active listen statePath) writer_defaults =
    Inr \<lparr>wc_RunID = hc_RunID cfg, wc_Path = active, wc_ListenAddress = listen, wc_StatePath = statePath,
      wc_RecordBytes = hc_RecordBytes cfg, wc_BufferBytes = hc_BufferBytes cfg,
      wc_BytesPerSecond = hc_BytesPerSecond cfg, wc_FlushInterval = hc_FlushInterval cfg,
      wc_ResidentBytes = hc_ResidentBytes cfg\<rparr>"
  using assms
  by (simp add: sized_def writer_args_def flag_steps flag_name_def writer_flags_def writer_defaults_def)

lemma monitor_args_parsed:
  assumes "sized cfg" and "in_int64 start" and "start \<noteq> 0"
  shows "map_sum id monitor_config (parse_flags monitor_flags (tl (monitor_args cfg active samplesPath start))
      monitor_defaults) =
    Inr \<lparr>mc_RunID = hc_RunID cfg, mc_Strategy = hc_Strategy cfg, mc_ActivePath = active,
      mc_SamplesPath = samplesPath, mc_Interval = hc_MonitorInterval cfg, mc_StartTime = Some start\<rparr>"
  using assms
  by (simp add: sized_def monitor_args_def flag_steps flag_name_def monitor_flags_def monitor_defaults_def
      monitor_config_def unix_start_def)

lemma rotate_args_parsed:
  assumes "sized cfg" and "in_int64 start" and "start \<noteq> 0"
  shows "map_sum id rotate_config (parse_flags rotate_flags (tl (rotate_args cfg active listen eventPath start))
      rotate_defaults) =
    Inr \<lparr>rc_Strategy = hc_Strategy cfg, rc_ActivePath = active, rc_ReopenURL = ''http://'' @ listen,
      rc_EventPath = eventPath, rc_MaxFileBytes = hc_MaxFileBytes cfg, rc_Rotations = hc_Rotations cfg,
      rc_MaxBackups = hc_MaxBackups cfg, rc_PollInterval = 20 * ms, rc_StartTime = Some start\<rparr>"
  using assms
  by (simp add: sized_def rotate_args_def flag_steps flag_name_def rotate_flags_def rotate_defaults_def
      rotate_config_def unix_start_def)

definition sized_docker :: "DockerConfig \<Rightarrow> bool" where
  "sized_docker cfg \<longleftrightarrow> list_all in_int64 [dc_MaxFileBytes cfg, dc_Rotations cfg, dc_MaxBackups cfg,
     dc_RecordBytes cfg, dc_BytesPerSecond cfg, dc_BufferBytes cfg, dc_FlushInterval cfg,
     dc_MonitorInterval cfg, dc_ResidentBytes cfg]"

definition container_args :: "DockerConfig \<Rightarrow> Strategy \<Rightarrow> SweepAttempt \<Rightarrow> string list" where
  "container_args cfg strategy attempt = drop 11 (docker_args cfg strategy attempt [] [] [])"

lemma docker_args_split:
  "docker_args cfg strategy a runDir volume container =
     take 9 (docker_args cfg strategy a runDir volume container) @
     [dc_Image cfg, ''run''] @ container_args cfg strategy a"
  by (simp add: docker_args_def container_args_def Let_def numeral_eq_Suc)

definition container_config :: "DockerConfig \<Rightarrow> Strategy \<Rightarrow> SweepAttempt \<Rightarrow> string \<Rightarrow> HarnessConfig" where
  "container_config cfg strategy a writer_executable =
     \<lparr>hc_Executable = [], hc_WriterExecutable = writer_executable,
      hc_RunID = strategy @ ''-'' @ format_int (sa_LimitMiB a) @ ''-'' @ format_int (sa_Repetition a),
      hc_Strategy = strategy, hc_LogDir = ''/var/log/loglab'', hc_ResultDir = ''/results'',
      hc_MaxFileBytes = dc_MaxFileBytes cfg, hc_Rotations = dc_Rotations cfg,
      hc_MaxBackups = dc_MaxBackups cfg, hc_RecordBytes = dc_RecordBytes cfg,
      hc_BytesPerSecond = dc_BytesPerSecond cfg, hc_BufferBytes = dc_BufferBytes cfg,
      hc_FlushInterval = dc_FlushInterval cfg, hc_MonitorInterval = dc_MonitorInterval cfg,
      hc_ResidentBytes = dc_ResidentBytes cfg, hc_EnableMonitor = True\<rparr>"

lemma container_args_parsed:
  assumes "sized_docker cfg"
  shows "map_sum id run_config (parse_flags run_flags (container_args cfg strategy a) (run_defaults nano exe)) =
    Inr (container_config cfg strategy a exe)"
proof -
  have "container_args cfg strategy a =
      [''--run-id'', strategy @ ''-'' @ format_int (sa_LimitMiB a) @ ''-'' @ format_int (sa_Repetition a),
       ''--strategy'', strategy, ''--log-dir'', ''/var/log/loglab'', ''--result-dir'', ''/results'',
       ''--max-file-bytes'', format_int (dc_MaxFileBytes cfg), ''--rotations'', format_int (dc_Rotations cfg),
       ''--max-backups'', format_int (dc_MaxBackups cfg), ''--record-bytes'', format_int (dc_RecordBytes cfg),
       ''--bytes-per-second'', format_int (dc_BytesPerSecond cfg),
       ''--buffer-bytes'', format_int (dc_BufferBytes cfg),
       ''--flush-interval'', duration_string (dc_FlushInterval cfg),
       ''--monitor-interval'', duration_string (dc_MonitorInterval cfg),
       ''--resident-bytes'', format_int (dc_ResidentBytes cfg)]"
    by (simp add: docker_args_def container_args_def Let_def numeral_eq_Suc)
  then show ?thesis
    using assms
    by (simp add: sized_docker_def flag_steps flag_name_def run_flags_def run_defaults_def
        run_config_def container_config_def)
qed

subsection \<open>The combined report\<close>

text \<open>The fields of a report that the sweep command fills in and a search leaves at zero.\<close>

definition comparison :: "SweepReport \<Rightarrow> string \<times> int \<times> int \<times> bool" where
  "comparison r = (sr_Strategy r, sr_BaselineMinimumMiB r, sr_DeltaMinimumMiB r, sr_DeltaResolved r)"

lemma comparison_add: "comparison (add_attempt a r) = comparison r"
  by (simp add: comparison_def add_attempt_def count_failure_def)

lemma repeat_attempts_comparison:
  "repeat_attempts cfg ctx run L reps passed st = (res, st') \<Longrightarrow>
   comparison (ss_report st') = comparison (ss_report st)"
proof (induction reps arbitrary: passed st)
  case (Cons k reps)
  obtain a w where r: "run (ss_world st) (zero_SweepAttempt\<lparr>sa_Strategy := sc_Strategy cfg,
      sa_LimitMiB := L, sa_Repetition := k\<rparr>) = (a, w)" by fastforce
  show ?case
  proof (cases "ctx (ss_world st)")
    case None
    then have "repeat_attempts cfg ctx run L reps (passed \<and> sa_Passed a)
        (st\<lparr>ss_world := w, ss_report := add_attempt a (ss_report st)\<rparr>) = (res, st')"
      using Cons.prems r by simp
    from Cons.IH [OF this] show ?thesis by (simp add: comparison_add)
  qed (use Cons.prems in auto)
qed simp

lemma test_limit_comparison:
  "test_limit cfg ctx run L st = (res, st') \<Longrightarrow> comparison (ss_report st') = comparison (ss_report st)"
  by (auto simp: test_limit_def dest: repeat_attempts_comparison split: option.splits prod.splits sum.splits)

lemma DockerSearch_comparison:
  assumes "DockerSearch env ctx cfg s w = Some (r, e, w')"
  shows "comparison r = (s, 0, 0, False)"
proof -
  let ?c = "search_config cfg s" and ?P = "\<lambda>st. comparison (ss_report st) = (s, 0, 0, False)"
  obtain r0 where r0: "Search ctx ?c (dockerAttempt env cfg s) w = Some (r0, e, w')"
    and same: "comparison r = comparison r0"
    using assms by (auto simp: DockerSearch_def comparison_def)
  have pres: "\<forall>L st res st'. test_limit ?c ctx (dockerAttempt env cfg s) L st = (res, st') \<longrightarrow> ?P st \<longrightarrow> ?P st'"
    using test_limit_comparison by metis
  have start: "?P \<lparr>ss_world = w, ss_report = sweep_start ?c, ss_tested = Mapping.empty\<rparr>"
    by (simp add: comparison_def sweep_start_def zero_SweepReport_def search_config_def)
  from Search_final_state [where P = ?P, OF r0 pres start] show ?thesis
    unfolding same by (elim exE conjE) (simp add: comparison_def)
qed

lemma run_sweeps_results:
  "run_sweeps search ss reports out w = Some (rs, out', None, w') \<Longrightarrow>
   \<exists>rs'. rs = reports @ rs' \<and> list_all2 (\<lambda>s r. \<exists>w1 w2. search s w1 = Some (r, None, w2)) ss rs'"
proof (induction ss arbitrary: reports out w)
  case (Cons s ss)
  then obtain r w1 where r: "search s w = Some (r, None, w1)"
      "run_sweeps search ss (reports @ [r]) (out @ sweep_line s r) w1 = Some (rs, out', None, w')"
    by (auto split: option.splits prod.splits)
  from Cons.IH [OF r(2)] obtain rs' where "rs = reports @ r # rs'"
      "list_all2 (\<lambda>s r. \<exists>w1 w2. search s w1 = Some (r, None, w2)) ss rs'" by auto
  with r(1) show ?case by auto
qed simp

text \<open>\<open>compared b r\<close>: what the command says of a strategy's report \<open>r\<close> beside the baseline's \<open>b\<close>.\<close>

definition compared :: "SweepReport \<Rightarrow> SweepReport \<Rightarrow> bool" where
  "compared b r \<longleftrightarrow> sr_BaselineMinimumMiB r = sr_MinimumPassMiB b \<and>
     (sr_DeltaResolved r \<longleftrightarrow> sr_BoundaryResolved b \<and> sr_BoundaryResolved r) \<and>
     sr_DeltaMinimumMiB r = (if sr_DeltaResolved r then sr_MinimumPassMiB r - sr_MinimumPassMiB b else 0)"

lemma compare_baseline_fields:
  "sr_Strategy (fst (compare_baseline b r)) = sr_Strategy r"
  "boundary_found c (fst (compare_baseline b r)) = boundary_found c r"
  "sr_MinimumPassMiB (fst (compare_baseline b r)) = sr_MinimumPassMiB r"
  "sr_BoundaryResolved (fst (compare_baseline b r)) = sr_BoundaryResolved r"
  by (simp_all add: compare_baseline_def Let_def boundary_found_def accepted_def rejected_def)

lemma compare_baseline_compared:
  assumes "comparison r = (s, 0, 0, False)" and "s \<noteq> Baseline"
    and "in_int64 (sr_MinimumPassMiB r - sr_MinimumPassMiB b)"
  shows "compared b (fst (compare_baseline b r))"
  using assms by (simp add: compare_baseline_def comparison_def compared_def Let_def wrap64_id)

subsection \<open>Properties\<close>

text \<open>C34: the children run with the experiment's parameters. Whatever the strings contain and for
  all values of the size and duration parameters, the command lines \<open>Run\<close> builds are read back by
  the subcommands' own flag parsing as exactly the configuration the experiment states: no flag is
  misnamed, missing or out of place, and every number and duration survives its formatting.\<close>

theorem child_command_lines:
  assumes "sized cfg" and "in_int64 start" and "start \<noteq> 0"
  shows "writerCommand listen_error (writer_args cfg active listen statePath) =
      new_writer listen_error \<lparr>wc_RunID = hc_RunID cfg, wc_Path = active, wc_ListenAddress = listen,
        wc_StatePath = statePath, wc_RecordBytes = hc_RecordBytes cfg, wc_BufferBytes = hc_BufferBytes cfg,
        wc_BytesPerSecond = hc_BytesPerSecond cfg, wc_FlushInterval = hc_FlushInterval cfg,
        wc_ResidentBytes = hc_ResidentBytes cfg\<rparr> \<and>
    rotateCommand (tl (rotate_args cfg active listen eventPath start)) =
      Run \<lparr>rc_Strategy = hc_Strategy cfg, rc_ActivePath = active, rc_ReopenURL = ''http://'' @ listen,
        rc_EventPath = eventPath, rc_MaxFileBytes = hc_MaxFileBytes cfg, rc_Rotations = hc_Rotations cfg,
        rc_MaxBackups = hc_MaxBackups cfg, rc_PollInterval = 20 * ms, rc_StartTime = Some start\<rparr> \<and>
    monitorCommand stat now mkdir create rounds (tl (monitor_args cfg active samplesPath start)) =
      Monitor_Run \<lparr>mc_RunID = hc_RunID cfg, mc_Strategy = hc_Strategy cfg, mc_ActivePath = active,
        mc_SamplesPath = samplesPath, mc_Interval = hc_MonitorInterval cfg, mc_StartTime = Some start\<rparr>
        stat now mkdir create rounds"
  using writer_args_parsed [OF assms(1), of active listen statePath]
    rotate_args_parsed [OF assms, of active listen eventPath]
    monitor_args_parsed [OF assms, of active samplesPath]
  by (auto simp: writerCommand_def rotateCommand_def monitorCommand_def split: sum.splits)

theorem child_command_lines_witness:
  "rotateCommand (tl (rotate_args sample_experiment ''/log/envoy.log'' ''127.0.0.1:9'' ''/res/events.csv'' 5)) =
    Run \<lparr>rc_Strategy = RenameReopen, rc_ActivePath = ''/log/envoy.log'', rc_ReopenURL = ''http://127.0.0.1:9'',
      rc_EventPath = ''/res/events.csv'', rc_MaxFileBytes = 48, rc_Rotations = 1, rc_MaxBackups = 0,
      rc_PollInterval = 20000000, rc_StartTime = Some 5\<rparr>"
proof -
  have "sized sample_experiment" "in_int64 5"
    by (simp_all add: sized_def sample_experiment_def in_int64_def)
  from child_command_lines [OF this, THEN conjunct2, THEN conjunct1,
      of "''/log/envoy.log''" "''127.0.0.1:9''" "''/res/events.csv''"]
  show ?thesis by (simp add: sample_experiment_def)
qed

text \<open>C35: the container runs the workload the sweep report states. The command \<open>dockerAttempt\<close>
  starts is the image's \<open>run\<close> subcommand with arguments that \<open>runCommand\<close> reads as the strategy, the
  attempt's run ID, the mounted directories and exactly the workload of \<open>dockerWorkload\<close>, which is
  also what the harness writes into its summary.\<close>

theorem container_command_line:
  assumes "sized_docker cfg"
  shows "\<exists>docker_options opts. docker_args cfg strategy a runDir volume container =
      docker_options @ [dc_Image cfg, ''run''] @ container_args cfg strategy a \<and>
    parse_flags run_flags (container_args cfg strategy a) (run_defaults nano exe) = Inr opts \<and>
    run_config opts = container_config cfg strategy a exe \<and>
    harness_workload (run_config opts) = dockerWorkload cfg"
proof -
  obtain opts where "parse_flags run_flags (container_args cfg strategy a) (run_defaults nano exe) = Inr opts"
      "run_config opts = container_config cfg strategy a exe"
    using container_args_parsed [OF assms, of strategy a nano exe]
    by (cases "parse_flags run_flags (container_args cfg strategy a) (run_defaults nano exe)") auto
  moreover have "harness_workload (container_config cfg strategy a exe) = dockerWorkload cfg"
    by (simp add: harness_workload_def container_config_def dockerWorkload_def)
  ultimately show ?thesis using docker_args_split by metis
qed

theorem container_command_line_witness:
  "\<exists>opts. parse_flags run_flags (container_args (so_cfg sweep_defaults) Baseline zero_SweepAttempt)
      (run_defaults 0 []) = Inr opts \<and> hc_Strategy (run_config opts) = Baseline \<and>
    hc_FlushInterval (run_config opts) = 100000000"
proof -
  have "sized_docker (so_cfg sweep_defaults)"
    by (simp add: sized_docker_def sweep_defaults_def in_int64_def)
  from container_command_line [OF this, of Baseline zero_SweepAttempt "[]" "[]" "[]" 0 "[]"]
  show ?thesis by (auto simp: container_config_def sweep_defaults_def)
qed

text \<open>C36: the combined report compares what it says it compares. When the sweep command returns
  nil, its report holds one report per strategy in the order asked for, each with a boundary
  found. In a sweep over all three, each of the other two names the baseline's minimum beside its
  own, the delta is marked resolved exactly when both boundaries are, and is then the exact
  difference of the two minima; in a sweep over one strategy no delta is claimed.\<close>

theorem sweep_report_deltas:
  assumes "memorySweepCommand env ctx mkdir write args w = Some (None, report, out, w')"
    and "parse_flags sweep_flags args sweep_defaults = Inr opts"
    and "dc_UpperMiB (so_cfg opts) + dc_StepMiB (so_cfg opts) \<le> 2 ^ 62"
  shows "sweep_strategies (so_strategy opts) = Inr (map sr_Strategy (cr_Reports report)) \<and>
    (\<forall>r \<in> set (cr_Reports report).
       boundary_found (search_config (so_cfg opts) (sr_Strategy r)) r \<and>
       (if so_strategy opts = ''both'' \<and> sr_Strategy r \<noteq> Baseline
        then compared (hd (cr_Reports report)) r \<and> sr_Strategy (hd (cr_Reports report)) = Baseline
        else \<not> sr_DeltaResolved r))"
proof -
  let ?cfg = "so_cfg opts"
  obtain strategies rs lines w1 w2 where s: "sweep_strategies (so_strategy opts) = Inr strategies"
    and run: "run_sweeps (DockerSearch env ctx ?cfg) strategies [] [] w1 = Some (rs, lines, None, w2)"
    and rep: "cr_Reports report = fst (add_deltas rs)"
    using assms(1,2) by (auto simp: memorySweepCommand_def combined_def Let_def
        split: option.splits prod.splits sum.splits)
  from run_sweeps_results [OF run]
  have each: "list_all2 (\<lambda>s r. \<exists>w1 w2. DockerSearch env ctx ?cfg s w1 = Some (r, None, w2)) strategies rs"
    by simp
  define good where "good = (\<lambda>s r. comparison r = (s, 0, 0, False) \<and>
      boundary_found (search_config ?cfg s) r \<and> valid_config (search_config ?cfg s))"
  have "good s r" if "DockerSearch env ctx ?cfg s w1 = Some (r, None, w2)" for s r w1 w2
    using DockerSearch_comparison [OF that] DockerSearch_boundary [OF assms(3) that] by (simp add: good_def)
  then have good: "list_all2 good strategies rs"
    using each by (auto elim!: list_all2_mono)
  have range: "in_int64 (sr_MinimumPassMiB r - sr_MinimumPassMiB b)" if "good s r" "good s' b" for s r s' b
    using that assms(3)
    by (auto simp: good_def boundary_found_def valid_config_def search_config_def in_int64_def)
  have strat: "sr_Strategy r = s" "\<not> sr_DeltaResolved r" if "good s r" for s r
    using that by (simp_all add: good_def comparison_def)
  have keep: "boundary_found (search_config ?cfg (sr_Strategy (fst (compare_baseline b r)))) (fst (compare_baseline b r))"
    if "good s r" for s r b
    using that strat [OF that] by (simp add: compare_baseline_fields good_def)
  have cmp: "compared (fst (compare_baseline b b)) (fst (compare_baseline b r))"
    if "good s r" "good Baseline b" "s \<noteq> Baseline" for s r b
  proof -
    have "fst (compare_baseline b b) = b" using strat [OF that(2)] by (simp add: compare_baseline_def)
    with compare_baseline_compared [of r s b] range [OF that(1,2)] that show ?thesis
      by (simp add: good_def)
  qed
  have self: "fst (compare_baseline b b) = b" if "sr_Strategy b = Baseline" for b
    using that by (simp add: compare_baseline_def)
  show ?thesis
  proof (cases "so_strategy opts = ''both''")
    case True
    then have "strategies = [Baseline, CopyTruncate, RenameReopen]" using s by (simp add: sweep_strategies_def)
    with good obtain b c d where rs: "rs = [b, c, d]" and g: "good Baseline b" "good CopyTruncate c" "good RenameReopen d"
      by (auto simp: list_all2_Cons1)
    have "cr_Reports report = [b, fst (compare_baseline b c), fst (compare_baseline b d)]"
      by (simp add: rep add_deltas_def rs strat [OF g(1)] self)
    then show ?thesis
      using True \<open>strategies = _\<close> s g cmp [OF g(2,1)] cmp [OF g(3,1)] keep [OF g(2)] keep [OF g(3)] strat [OF g(1)]
        strat [OF g(2)] strat [OF g(3)]
      by (simp add: compare_baseline_fields self good_def)
  next
    case False
    then obtain k where k: "strategies = [k]" "so_strategy opts = k" using s by (auto simp: sweep_strategies_def split: if_splits)
    with good obtain r where rs: "rs = [r]" and g: "good k r" by (auto simp: list_all2_Cons1)
    have "cr_Reports report = [r]"
      by (cases "k = Baseline") (simp_all add: rep add_deltas_def rs strat [OF g] self)
    with False k s g strat [OF g] show ?thesis by (simp add: good_def)
  qed
qed

text \<open>The flags of a sweep with the parameters of \<open>sample_docker\<close>.\<close>

definition sample_sweep_args :: "string list" where
  "sample_sweep_args =
     [''--image'', ''lab'', ''--result-root'', ''results'', ''--lower-mib'', format_int 64,
      ''--upper-mib'', format_int 72, ''--repetitions'', format_int 1, ''--max-file-bytes'', format_int 0,
      ''--rotations'', format_int 0, ''--record-bytes'', format_int 0, ''--bytes-per-second'', format_int 0,
      ''--buffer-bytes'', format_int 0, ''--flush-interval'', duration_string 0,
      ''--monitor-interval'', duration_string 0, ''--attempt-timeout'', duration_string 0,
      ''--resident-bytes'', format_int 0]"

lemma sample_sweep_parsed:
  "parse_flags sweep_flags sample_sweep_args sweep_defaults =
    Inr \<lparr>so_cfg = sample_docker, so_strategy = ''both'', so_output = ''results/memory-sweep.json''\<rparr>"
proof -
  have "in_int64 64" "in_int64 72" "in_int64 1" "in_int64 0" by (simp_all add: in_int64_def)
  then show ?thesis
    by (simp add: sample_sweep_args_def flag_steps flag_name_def sweep_flags_def sweep_defaults_def
        sample_docker_def)
qed

theorem sweep_report_deltas_witness:
  "\<exists>report out w. memorySweepCommand sample_env (\<lambda>_. None) (\<lambda>p w. (None, w)) (\<lambda>p r w. (None, w))
      sample_sweep_args [] = Some (None, report, out, w) \<and>
    map sr_Strategy (cr_Reports report) = [Baseline, CopyTruncate, RenameReopen] \<and>
    compared (hd (cr_Reports report)) (cr_Reports report ! 1)"
proof -
  note find = sample_search
  obtain b w1 where b: "DockerSearch sample_env (\<lambda>_. None) sample_docker Baseline [] = Some (b, None, w1)"
    using find by blast
  obtain c w2 where c: "DockerSearch sample_env (\<lambda>_. None) sample_docker CopyTruncate w1 = Some (c, None, w2)"
    using find by blast
  obtain d w3 where d: "DockerSearch sample_env (\<lambda>_. None) sample_docker RenameReopen w2 = Some (d, None, w3)"
    using find by blast
  obtain report out where run: "memorySweepCommand sample_env (\<lambda>_. None) (\<lambda>p w. (None, w)) (\<lambda>p r w. (None, w))
      sample_sweep_args [] = Some (None, report, out, w3)"
    by (cases "add_deltas [b, c, d]")
      (simp add: memorySweepCommand_def sample_sweep_parsed sweep_strategies_def b c d)
  have "dc_UpperMiB sample_docker + dc_StepMiB sample_docker \<le> 2 ^ 62" by (simp add: sample_docker_def)
  with sweep_report_deltas [OF run sample_sweep_parsed]
  have r: "map sr_Strategy (cr_Reports report) = [Baseline, CopyTruncate, RenameReopen]"
    and each: "\<forall>r \<in> set (cr_Reports report). sr_Strategy r \<noteq> Baseline \<longrightarrow> compared (hd (cr_Reports report)) r"
    by (simp_all add: sweep_strategies_def)
  obtain x y z where xyz: "cr_Reports report = [x, y, z]" "sr_Strategy y = CopyTruncate" using r by auto
  with each have "compared x y" by simp
  with run r xyz show ?thesis by auto
qed

end
