(* ===== verification/Rotation.thy ===== *)
theory Rotation
  imports Rotator
begin

text \<open>
  What a rotation does to the log while the writer goes on writing. The locale \<open>log_keeper\<close> is the
  contract between the rotator's programs and an invariant \<open>I\<close> of the log (over the list of its
  files): the writer keeps it, and so does everything that happens to other files. What follows
  inside it: every program that only touches the event log keeps it, whatever the schedule. The
  invariants of \<open>LogStream\<close> interpret the locale.
\<close>

subsection \<open>Programs that leave the log alone\<close>

locale log_keeper =
  fixes I :: "string list \<Rightarrow> Writer \<Rightarrow> fs \<Rightarrow> bool"
  assumes keep_steps: "I ps wr fs \<Longrightarrow> writer_steps evs (wr, fs) = (wr', fs') \<Longrightarrow>
      I ps wr' fs' \<and> others_kept ps fs fs'"
    and keep_other: "I ps wr fs \<Longrightarrow> p \<notin> set ps \<Longrightarrow> find_ino fs p = Some f \<Longrightarrow> I ps wr (fs_append f s fs)"
    and keep_create: "I ps wr fs \<Longrightarrow> p \<notin> set ps \<Longrightarrow> find_ino fs p = None \<Longrightarrow> I ps wr (snd (fs_create p fs))"
    and keep_flag: "I ps wr fs \<Longrightarrow> I ps (wr\<lparr>w_reopen := b\<rparr>) fs"
    and keep_wf: "I ps wr fs \<Longrightarrow> fs_wf fs"
begin

abbreviation IW :: "string list \<Rightarrow> world \<Rightarrow> bool" where
  "IW ps w \<equiv> I ps (writer w) (files w)"

text \<open>\<open>safe ps qs m\<close>: the program \<open>m\<close> keeps the invariant over \<open>ps\<close>, and no file outside \<open>qs\<close> changes.\<close>

definition safe :: "string list \<Rightarrow> string list \<Rightarrow> (world \<Rightarrow> 'a \<times> world) \<Rightarrow> bool" where
  "safe ps qs m \<longleftrightarrow> (\<forall>w r w'. IW ps w \<longrightarrow> m w = (r, w') \<longrightarrow>
     IW ps w' \<and> others_kept qs (files w) (files w'))"

lemma safeD:
  assumes "safe ps qs m" and "IW ps w" and "m w = (r, w')"
  shows "IW ps w'" and "others_kept qs (files w) (files w')"
  using assms by (auto simp: safe_def)

lemma slot_keeps:
  assumes "take_slot w = (s, w')" and "IW ps w"
  shows "IW ps w'" and "others_kept ps (files w) (files w')"
proof -
  have "IW ps w' \<and> others_kept ps (files w) (files w')"
  proof (cases "sched w")
    case Nil
    with assms show ?thesis by (simp add: take_slot_def)
  next
    case (Cons s' ss)
    obtain wr fs where st: "writer_steps (sl_events s') (writer w, files w) = (wr, fs)" by fastforce
    with Cons assms keep_steps [OF assms(2) st] show ?thesis
      by (auto simp: take_slot_def run_events_def)
  qed
  then show "IW ps w'" "others_kept ps (files w) (files w')" by simp_all
qed

lemma safe_mono: "safe ps qs m \<Longrightarrow> set qs \<subseteq> set qs' \<Longrightarrow> safe ps qs' m"
  unfolding safe_def using others_kept_mono by blast

lemma safe_try:
  assumes "safe ps qs m" and "\<And>x. safe ps qs (k x)"
  shows "safe ps qs (try_io m wrap k)"
proof -
  have "IW ps w' \<and> others_kept qs (files w) (files w')"
    if w: "IW ps w" and t: "try_io m wrap k w = (r, w')" for w r w'
  proof -
    obtain r1 w1 where m: "m w = (r1, w1)" by fastforce
    note 1 = safeD [OF assms(1) w m]
    show ?thesis
    proof (cases r1)
      case (Inl e)
      with 1 t m show ?thesis by (simp add: try_io_def)
    next
      case (Inr x)
      with t m have "k x w1 = (r, w')" by (simp add: try_io_def)
      from safeD [OF assms(2) 1(1) this] 1 others_kept_trans show ?thesis by blast
    qed
  qed
  then show ?thesis by (simp add: safe_def)
qed

lemma safe_return [simp]: "safe ps qs (return_io x)" "safe ps qs (fail_io e)"
  by (simp_all add: safe_def return_io_def fail_io_def)

text \<open>A call that does not change the file system.\<close>

lemma safe_readonly:
  assumes "\<And>fs. snd (f fs) = fs"
  shows "safe ps ps (syscall mk f)"
proof -
  have "IW ps w' \<and> others_kept ps (files w) (files w')"
    if w: "IW ps w" and t: "syscall mk f w = (r, w')" for w r w'
  proof -
    obtain s w1 where s: "take_slot w = (s, w1)" by fastforce
    have "w' = w1 \<or> w' = w1\<lparr>files := snd (f (files w1))\<rparr>"
      using t by (auto simp: syscall_def s split: option.splits prod.splits sum.splits)
    then have "writer w' = writer w1" "files w' = files w1" using assms by auto
    with slot_keeps [OF s w] show ?thesis by simp
  qed
  then show ?thesis by (simp add: safe_def)
qed

lemma safe_calls:
  "safe ps ps (sys_stat p)" "safe ps ps (sys_open p)" "safe ps ps (sys_quiet op p)"
  "safe ps ps (sys_on_path op p)"
  by (auto simp: sys_stat_def sys_open_def sys_quiet_def sys_on_path_def
      fs_stat_def fs_open_def intro!: safe_readonly split: option.split)

lemma safe_fstat: "safe ps ps (sys_fstat i)"
  unfolding safe_def sys_fstat_def using slot_keeps by (auto split: prod.splits option.splits)

lemma safe_now: "safe ps ps sys_now"
  unfolding safe_def sys_now_def using slot_keeps by (auto split: prod.splits)

lemma safe_post: "safe ps ps http_post"
proof -
  have post: "IW ps (snd (post_to_writer w)) \<and> files (snd (post_to_writer w)) = files w"
    if "IW ps w" for w
    using that keep_flag by (auto simp: post_to_writer_def handle_reopen_def)
  have "IW ps w' \<and> others_kept ps (files w) (files w')"
    if w: "IW ps w" and t: "http_post w = (r, w')" for w r w'
  proof -
    obtain s w1 where s: "take_slot w = (s, w1)" by fastforce
    have "w' = w1 \<or> w' = snd (post_to_writer w1)"
      using t by (cases "sl_http s") (auto simp: http_post_def s)
    with slot_keeps [OF s w] post [of w1] show ?thesis by auto
  qed
  then show ?thesis by (simp add: safe_def)
qed

subsection \<open>The event log\<close>

lemma others_append_at:
  assumes "fs_wf fs" and "find_ino fs p = Some f"
  shows "others_kept (p # ps) fs (fs_append f s fs)"
proof -
  have "f \<noteq> j" if "q \<noteq> p" "find_ino fs q = Some j" for q j
    using find_ino_inj [OF assms(1) assms(2), of q] that by auto
  then show ?thesis by (auto simp: others_kept_def)
qed

lemma others_kept_Cons: "others_kept ps fs fs' \<Longrightarrow> others_kept (p # ps) fs fs'"
  by (rule others_kept_mono) auto

lemma write_keeps:
  assumes w: "IW ps w" and p: "p \<notin> set ps" and f: "find_ino (files w) p = Some f"
    and t: "sys_write f d w = (r, w')"
  shows "IW ps w'" and "others_kept (p # ps) (files w) (files w')"
proof -
  obtain s w1 where s: "take_slot w = (s, w1)" by fastforce
  note k = slot_keeps [OF s w]
  have f1: "find_ino (files w1) p = Some f" using k(2) p f by (simp add: others_kept_def)
  obtain d' where w': "w' = w1\<lparr>files := fs_append f d' (files w1)\<rparr>"
    using t by (auto simp: sys_write_def s split: option.splits)
  from keep_other [OF k(1) p f1] show "IW ps w'" by (simp add: w')
  from others_kept_trans [OF others_kept_Cons [OF k(2)] others_append_at [OF keep_wf [OF k(1)] f1]]
  show "others_kept (p # ps) (files w) (files w')" by (simp add: w')
qed

lemma write_event_keeps:
  assumes w: "IW ps w" and p: "p \<notin> set ps" and f: "find_ino (files w) p = Some f"
    and t: "write_event ev f w = (r, w')"
  shows "IW ps w' \<and> others_kept (p # ps) (files w) (files w')"
proof -
  obtain n w1 where 1: "sys_fstat f w = (n, w1)" by fastforce
  note k = safeD [OF safe_fstat w 1]
  have f1: "find_ino (files w1) p = Some f" using k(2) p f by (simp add: others_kept_def)
  obtain d where "sys_write f d w1 = (r, w')"
    using t by (auto simp: write_event_def 1 split: sum.splits nat.splits)
  from write_keeps [OF k(1) p f1 this] others_kept_Cons [OF k(2)] show ?thesis
    using others_kept_trans by blast
qed

lemma others_create_at:
  assumes "fs_wf fs" and "find_ino fs p = None"
  shows "others_kept (p # ps) fs (snd (fs_create p fs))"
  by (rule others_create [OF assms(1)]) simp

lemma open_append_keeps:
  assumes w: "IW ps w" and p: "p \<notin> set ps" and t: "sys_open_append p w = (r, w')"
  shows "IW ps w' \<and> others_kept (p # ps) (files w) (files w') \<and>
    (\<forall>f. r = Inr f \<longrightarrow> find_ino (files w') p = Some f)"
proof -
  obtain s w1 where s: "take_slot w = (s, w1)" by fastforce
  note k = slot_keeps [OF s w]
  note o1 = others_kept_Cons [OF k(2), of p]
  show ?thesis
  proof (cases "sl_fault s")
    case (Some e)
    with t s k o1 show ?thesis by (auto simp: sys_open_append_def syscall_def)
  next
    case None
    show ?thesis
    proof (cases "find_ino (files w1) p")
      case (Some f)
      with None t s k o1 show ?thesis
        by (auto simp: sys_open_append_def syscall_def fs_open_create_def)
    next
      case create: None
      obtain i fs where c: "fs_create p (files w1) = (i, fs)" by fastforce
      then have fs: "fs = snd (fs_create p (files w1))" and i: "i = next_ino (files w1)"
        by (simp, auto simp: fs_create_def)
      have "w' = w1\<lparr>files := fs\<rparr>" "r = Inr i"
        using None t s c create
        by (auto simp: sys_open_append_def syscall_def fs_open_create_def)
      with keep_create [OF k(1) p create] others_create_at [OF keep_wf [OF k(1)] create, of ps] o1
      show ?thesis using others_kept_trans by (auto simp: fs i)
    qed
  qed
qed

lemma open_excl_keeps:
  assumes w: "IW ps w" and p: "p \<notin> set ps" and t: "sys_open_excl p w = (r, w')"
  shows "IW ps w' \<and> others_kept (p # ps) (files w) (files w') \<and>
    (\<forall>f. r = Inr f \<longrightarrow> find_ino (files w') p = Some f \<and> contents (files w') f = [])"
proof -
  obtain s w1 where s: "take_slot w = (s, w1)" by fastforce
  note k = slot_keeps [OF s w]
  note o1 = others_kept_Cons [OF k(2), of p]
  show ?thesis
  proof (cases "sl_fault s = None \<and> find_ino (files w1) p = None")
    case True
    obtain i fs where c: "fs_create p (files w1) = (i, fs)" by fastforce
    then have fs: "fs = snd (fs_create p (files w1))" and i: "i = next_ino (files w1)"
      by (simp, auto simp: fs_create_def)
    have "w' = w1\<lparr>files := fs\<rparr>" "r = Inr i"
      using True t s c by (auto simp: sys_open_excl_def syscall_def fs_open_excl_def)
    with keep_create [OF k(1) p] others_create_at [OF keep_wf [OF k(1)], of p ps] True o1
    show ?thesis using others_kept_trans by (auto simp: fs i)
  next
    case False
    with t s have "w' = w1" "\<not> is_ok r"
      by (auto simp: sys_open_excl_def syscall_def fs_open_excl_def split: option.splits)
    with k o1 show ?thesis by auto
  qed
qed

lemma safe_read: "safe ps ps (sys_read i pos)"
  unfolding safe_def sys_read_def using slot_keeps by (auto split: prod.splits option.splits)

lemma safe_tick: "safe ps ps select_tick"
  unfolding safe_def select_tick_def using slot_keeps by (auto split: prod.splits)

lemma safe_appendEvent:
  assumes "rc_EventPath cfg \<notin> set ps"
  shows "safe ps (rc_EventPath cfg # ps) (appendEvent cfg ev)"
proof -
  let ?p = "rc_EventPath cfg"
  have "IW ps w' \<and> others_kept (?p # ps) (files w) (files w')"
    if w: "IW ps w" and t: "appendEvent cfg ev w = (r, w')" for w r w'
  proof (cases "?p = []")
    case True
    with t w show ?thesis by (simp add: appendEvent_def)
  next
    case False
    obtain st w1 where 1: "start_time (rc_StartTime cfg) w = (st, w1)" by fastforce
    have k1: "IW ps w1 \<and> others_kept (?p # ps) (files w) (files w1)"
      using 1 w safeD [OF safe_now w] others_kept_Cons
      by (auto simp: start_time_def split: option.splits prod.splits)
    obtain n w2 where 2: "sys_now w1 = (n, w2)" by fastforce
    obtain r3 w3 where 3: "sys_quiet ''mkdir'' (path_dir ?p) w2 = (r3, w3)" by fastforce
    obtain r4 w4 where 4: "sys_open_append ?p w3 = (r4, w4)" by fastforce
    from k1 have "IW ps w1" by simp
    note k2 = safeD [OF safe_now this 2]
    note k3 = safeD [OF safe_calls(3) k2(1) 3]
    note k4 = open_append_keeps [OF k3(1) assms 4]
    have o3: "others_kept (?p # ps) (files w) (files w3)"
      using k1 others_kept_Cons [OF k2(2)] others_kept_Cons [OF k3(2)] others_kept_trans by blast
    show ?thesis
    proof (cases r3)
      case (Inl e)
      with t False 1 2 3 have "w' = w3" by (simp add: appendEvent_def try_io_def)
      with k3(1) o3 show ?thesis by simp
    next
      case (Inr u)
      show ?thesis
      proof (cases r4)
        case (Inl e)
        with \<open>r3 = Inr u\<close> t False 1 2 3 4 have "w' = w4" by (simp add: appendEvent_def try_io_def)
        with k4 o3 others_kept_trans show ?thesis by blast
      next
        case (Inr f)
        with \<open>r3 = Inr u\<close> t False 1 2 3 4 have "write_event (stamp_event st n ev) f w4 = (r, w')"
          by (simp add: appendEvent_def try_io_def)
        from write_event_keeps [OF _ assms _ this] k4 Inr o3 others_kept_trans
        show ?thesis by blast
      qed
    qed
  qed
  then show ?thesis by (simp add: safe_def)
qed

end

subsection \<open>Rename and reopen\<close>

definition log_names :: "string \<Rightarrow> nat \<Rightarrow> string list" where
  "log_names active n = map (\<lambda>k. BackupPath active (int k)) [1 ..< Suc n] @ [active]"

lemma log_names_Suc:
  "log_names active (Suc n) =
   butlast (log_names active n) @ [BackupPath active (int (Suc n)), active]"
  by (simp add: log_names_def)

lemma log_names_snoc: "log_names active n = butlast (log_names active n) @ [active]"
  by (simp add: log_names_def)

lemma last_log_names [simp]: "last (log_names active n) = active" "log_names active n \<noteq> []"
  by (simp_all add: log_names_def)

lemma fmt_06d_inj: "fmt_06d (int j) = fmt_06d (int k) \<Longrightarrow> j = k"
proof -
  assume "fmt_06d (int j) = fmt_06d (int k)"
  then have "digits_val (fmt_06d (int j)) = digits_val (fmt_06d (int k))" by simp
  then show ?thesis by (simp add: fmt_06d_def)
qed

lemma BackupPath_inj: "BackupPath a (int j) = BackupPath a (int k) \<Longrightarrow> j = k"
  by (auto simp: BackupPath_def dest: fmt_06d_inj)

lemma BackupPath_neq [simp]: "BackupPath a k \<noteq> a" "a \<noteq> BackupPath a k"
  by (simp_all add: BackupPath_def)

lemma distinct_log_names: "distinct (log_names active n)"
  by (auto simp: log_names_def distinct_map inj_on_def dest: BackupPath_inj)

lemma BackupPath_new: "n < k \<Longrightarrow> BackupPath active (int k) \<notin> set (log_names active n)"
  by (auto simp: log_names_def dest!: BackupPath_inj)

lemma backup_name_BackupPath: "backup_name active (BackupPath active (int k))"
proof -
  have "list_all is_digit (fmt_06d (int k))" by (simp add: fmt_06d_def)
  then have "CHR ''/'' \<notin> set (fmt_06d (int k))" by (simp add: digits_no_char)
  then show ?thesis
    using take_all_iff by (simp add: backup_name_def BackupPath_def has_prefix_def trim_prefix_def)
qed

text \<open>The event log is neither the active file nor named like a backup.\<close>

definition separate_events :: "RotatorConfig \<Rightarrow> bool" where
  "separate_events cfg \<longleftrightarrow> rc_EventPath cfg \<noteq> rc_ActivePath cfg \<and>
     \<not> backup_name (rc_ActivePath cfg) (rc_EventPath cfg)"

definition no_other_backups :: "string \<Rightarrow> nat \<Rightarrow> fs \<Rightarrow> bool" where
  "no_other_backups active n fs \<longleftrightarrow>
     (\<forall>p. backup_name active p \<longrightarrow> p \<notin> set (log_names active n) \<longrightarrow> find_ino fs p = None)"

lemma no_other_backupsD: "no_other_backups active n fs \<Longrightarrow> n < k \<Longrightarrow> find_ino fs (BackupPath active (int k)) = None"
  using backup_name_BackupPath BackupPath_new by (simp add: no_other_backups_def)

lemma separate_notin: "separate_events cfg \<Longrightarrow> rc_EventPath cfg \<notin> set (log_names (rc_ActivePath cfg) n)"
  using backup_name_BackupPath by (auto simp: separate_events_def log_names_def)

lemma no_other_backups_kept:
  assumes "no_other_backups (rc_ActivePath cfg) n fs" and "separate_events cfg"
    and "others_kept (rc_EventPath cfg # log_names (rc_ActivePath cfg) m) fs fs'"
    and "set (log_names (rc_ActivePath cfg) n) \<subseteq> set (log_names (rc_ActivePath cfg) m)"
  shows "no_other_backups (rc_ActivePath cfg) m fs'"
  unfolding no_other_backups_def
proof (intro allI impI)
  fix p
  assume p: "backup_name (rc_ActivePath cfg) p" "p \<notin> set (log_names (rc_ActivePath cfg) m)"
  with assms(2) have "p \<noteq> rc_EventPath cfg" by (auto simp: separate_events_def)
  with p assms(3) have "find_ino fs' p = find_ino fs p" by (simp add: others_kept_def)
  with p assms(1,4) show "find_ino fs' p = None" by (auto simp: no_other_backups_def)
qed

lemma log_names_mono: "n \<le> m \<Longrightarrow> set (log_names active n) \<subseteq> set (log_names active m)"
  by (auto simp: log_names_def)

text \<open>Invariants that survive a rename of the active file and the creation of its replacement.\<close>

locale rename_keeper = log_keeper +
  assumes keep_create_last: "I ps wr fs \<Longrightarrow> ps \<noteq> [] \<Longrightarrow> find_ino fs (last ps) = None \<Longrightarrow>
      I ps wr (snd (fs_create (last ps) fs))"
    and keep_rename: "I (qs @ [a]) wr fs \<Longrightarrow> find_ino fs a = Some i \<Longrightarrow> find_ino fs b = None \<Longrightarrow>
      b \<notin> set (qs @ [a]) \<Longrightarrow> I (qs @ [b, a]) wr (snd (fs_rename a b fs))"
    and keep_add: "I (qs @ [a]) wr fs \<Longrightarrow> find_ino fs b = None \<Longrightarrow> b \<notin> set (qs @ [a]) \<Longrightarrow>
      I (qs @ [b, a]) wr fs"
begin

lemma safe_open_excl_last:
  assumes "ps \<noteq> []"
  shows "safe ps ps (sys_open_excl (last ps))"
proof -
  have "IW ps w' \<and> others_kept ps (files w) (files w')"
    if w: "IW ps w" and t: "sys_open_excl (last ps) w = (r, w')" for w r w'
  proof -
    obtain s w1 where s: "take_slot w = (s, w1)" by fastforce
    note k = slot_keeps [OF s w]
    show ?thesis
    proof (cases "sl_fault s = None \<and> find_ino (files w1) (last ps) = None")
      case True
      obtain i fs where c: "fs_create (last ps) (files w1) = (i, fs)" by fastforce
      then have fs: "fs = snd (fs_create (last ps) (files w1))" by simp
      from True c t s have "w' = w1\<lparr>files := fs\<rparr>"
        by (auto simp: sys_open_excl_def syscall_def fs_open_excl_def)
      with keep_create_last [OF k(1) assms] True
        others_kept_trans [OF k(2) others_create [OF keep_wf [OF k(1)], of "last ps"]] assms
      show ?thesis by (simp add: fs)
    next
      case False
      with t s have "w' = w1"
        by (auto simp: sys_open_excl_def syscall_def fs_open_excl_def split: option.splits)
      with k show ?thesis by simp
    qed
  qed
  then show ?thesis by (simp add: safe_def)
qed

lemma others_rename:
  assumes "find_ino fs a = Some i" and "a \<noteq> b" and "a \<in> set ps" and "b \<in> set ps"
  shows "others_kept ps fs (snd (fs_rename a b fs))"
  using find_ino_rename [OF assms(1,2)] assms
  by (auto simp: others_kept_def) (simp add: fs_rename_def)

lemma rename_keeps:
  assumes w: "IW (qs @ [a]) w" and b: "find_ino (files w) b = None" "b \<notin> set (qs @ [a])"
    and t: "sys_rename a b w = (r, w')"
  shows "IW (qs @ [b, a]) w'" and "others_kept (qs @ [b, a]) (files w) (files w')"
proof -
  obtain s w1 where s: "take_slot w = (s, w1)" by fastforce
  note k = slot_keeps [OF s w]
  have b1: "find_ino (files w1) b = None" using k(2) b by (simp add: others_kept_def)
  have o1: "others_kept (qs @ [b, a]) (files w) (files w1)"
    by (rule others_kept_mono [OF k(2)]) auto
  have "IW (qs @ [b, a]) w' \<and> others_kept (qs @ [b, a]) (files w) (files w')"
  proof (cases "sl_fault s = None \<and> find_ino (files w1) a \<noteq> None")
    case True
    then obtain i where i: "find_ino (files w1) a = Some i" by auto
    with True t s b have "w' = w1\<lparr>files := snd (fs_rename a b (files w1))\<rparr>"
      by (auto simp: sys_rename_def syscall_def fs_rename_def)
    moreover have "others_kept (qs @ [b, a]) (files w) (snd (fs_rename a b (files w1)))"
      by (rule others_kept_trans [OF o1 others_rename [OF i]]) (use b(2) in auto)
    ultimately show ?thesis using keep_rename [OF k(1) i b1 b(2)] by simp
  next
    case False
    with t s have "w' = w1"
      by (auto simp: sys_rename_def syscall_def fs_rename_def split: option.splits)
    with keep_add [OF k(1) b1 b(2)] o1 show ?thesis by simp
  qed
  then show "IW (qs @ [b, a]) w'" "others_kept (qs @ [b, a]) (files w) (files w')" by simp_all
qed

lemma safe_new_request: "safe ps ps (new_request url)"
  by (auto simp: safe_def new_request_def split: option.splits)

lemma safe_replace_active:
  assumes "rc_EventPath cfg \<notin> set ps" and "last ps = rc_ActivePath cfg" and "ps \<noteq> []"
  shows "safe ps (rc_EventPath cfg # ps) (replace_active cfg ordinal)"
proof -
  have sub: "set ps \<subseteq> set (rc_EventPath cfg # ps)" by auto
  show ?thesis
    unfolding replace_active_def request_reopen_def Let_def
    using safe_mono [OF safe_open_excl_last [OF assms(3)] sub] assms(2)
    by (auto intro!: safe_try safe_appendEvent [OF assms(1)] safe_mono [OF safe_calls(3) sub]
        safe_mono [OF safe_calls(4) sub] safe_mono [OF safe_post sub] safe_mono [OF safe_new_request sub])
qed

lemma rotateRenameReopen_keeps:
  assumes w: "IW (qs @ [rc_ActivePath cfg]) w"
    and b: "find_ino (files w) (BackupPath (rc_ActivePath cfg) ordinal) = None"
      "BackupPath (rc_ActivePath cfg) ordinal \<notin> set qs"
    and ev: "rc_EventPath cfg \<notin> set (qs @ [BackupPath (rc_ActivePath cfg) ordinal, rc_ActivePath cfg])"
    and t: "rotateRenameReopen cfg ordinal info_size w = (r, w')"
  shows "IW (qs @ [BackupPath (rc_ActivePath cfg) ordinal, rc_ActivePath cfg]) w'"
    and "others_kept (rc_EventPath cfg # qs @ [BackupPath (rc_ActivePath cfg) ordinal, rc_ActivePath cfg])
      (files w) (files w')"
proof -
  let ?a = "rc_ActivePath cfg"
  let ?b = "BackupPath ?a ordinal"
  let ?ps = "qs @ [?b, ?a]"
  let ?qs = "rc_EventPath cfg # ?ps"
  let ?m = "try_io (appendEvent cfg (event ordinal ''rename'' (int info_size) [])) id
    (\<lambda>_. replace_active cfg ordinal)"
  obtain r1 w1 where 1: "sys_rename ?a ?b w = (r1, w1)" by fastforce
  have "?b \<notin> set (qs @ [?a])" using b(2) by simp
  note k = rename_keeps [OF w b(1) this 1]
  have m: "safe ?ps ?qs ?m"
    by (intro safe_try safe_appendEvent [OF ev] safe_replace_active [OF ev]) simp_all
  have "IW ?ps w' \<and> others_kept ?qs (files w) (files w')"
  proof (cases r1)
    case (Inl e)
    with t 1 have "w' = w1" by (simp add: rotateRenameReopen_def try_io_def Let_def)
    with k others_kept_Cons show ?thesis by simp
  next
    case (Inr u)
    with t 1 have "?m w1 = (r, w')"
      by (simp add: rotateRenameReopen_def try_io_def [of "sys_rename ?a ?b"] Let_def)
    from safeD [OF m k(1) this] others_kept_Cons [OF k(2)] others_kept_trans show ?thesis by blast
  qed
  then show "IW ?ps w'" "others_kept ?qs (files w) (files w')" by simp_all
qed

text \<open>\<open>rotated cfg n w\<close>: the log consists of the active file and the backups \<open>1..n\<close>, as far as they
  exist, and there is no other file with a backup's name.\<close>

definition rotated :: "RotatorConfig \<Rightarrow> nat \<Rightarrow> world \<Rightarrow> bool" where
  "rotated cfg n w \<longleftrightarrow> IW (log_names (rc_ActivePath cfg) n) w \<and>
     no_other_backups (rc_ActivePath cfg) n (files w)"

lemma rotated_poll: "rotated (cfg\<lparr>rc_PollInterval := i\<rparr>) n w = rotated cfg n w"
  by (simp add: rotated_def)

lemma rotated_safe:
  assumes "safe (log_names (rc_ActivePath cfg) n) (rc_EventPath cfg # log_names (rc_ActivePath cfg) n) m"
    and "separate_events cfg" and "rotated cfg n w" and "m w = (r, w')"
  shows "rotated cfg n w'"
  using safeD [OF assms(1) _ assms(4)] assms(3) no_other_backups_kept [OF _ assms(2), of n]
  by (auto simp: rotated_def)

lemma rotated_append:
  "separate_events cfg \<Longrightarrow> rotated cfg n w \<Longrightarrow> appendEvent cfg ev w = (r, w') \<Longrightarrow> rotated cfg n w'"
  by (rule rotated_safe [OF safe_appendEvent]) (auto dest: separate_notin)

lemma rotated_stat: "separate_events cfg \<Longrightarrow> rotated cfg n w \<Longrightarrow> sys_stat p w = (r, w') \<Longrightarrow> rotated cfg n w'"
  by (rule rotated_safe [OF safe_mono [OF safe_calls(1)]]) auto

lemma rotated_tick: "separate_events cfg \<Longrightarrow> rotated cfg n w \<Longrightarrow> select_tick w = (b, w') \<Longrightarrow> rotated cfg n w'"
  by (rule rotated_safe [OF safe_mono [OF safe_tick]]) auto

lemma rotated_weaken: "rotated cfg n w \<Longrightarrow> rotated cfg (Suc n) w"
  using keep_add [of "butlast (log_names (rc_ActivePath cfg) n)" "rc_ActivePath cfg"]
    log_names_snoc [of "rc_ActivePath cfg" n] BackupPath_new [of n "Suc n" "rc_ActivePath cfg"]
    no_other_backupsD [of "rc_ActivePath cfg" n "files w" "Suc n"]
    log_names_mono [of n "Suc n" "rc_ActivePath cfg"]
  by (auto simp: rotated_def log_names_Suc no_other_backups_def)

lemma rotated_rename:
  assumes "separate_events cfg" and "rotated cfg n w"
    and "rotateRenameReopen cfg (int (Suc n)) info_size w = (r, w')"
  shows "rotated cfg (Suc n) w'"
proof -
  let ?a = "rc_ActivePath cfg"
  let ?qs = "butlast (log_names ?a n)"
  let ?b = "BackupPath ?a (int (Suc n))"
  have names: "log_names ?a (Suc n) = ?qs @ [?b, ?a]" by (rule log_names_Suc)
  have w: "IW (?qs @ [?a]) w" using assms(2) log_names_snoc [of ?a n] by (simp add: rotated_def)
  have none: "no_other_backups ?a n (files w)" using assms(2) by (simp add: rotated_def)
  have new: "?b \<notin> set ?qs" using BackupPath_new [of n "Suc n" ?a] by (auto dest: in_set_butlastD)
  note k = rotateRenameReopen_keeps [OF w no_other_backupsD [OF none lessI] new _ assms(3),
      folded names, OF separate_notin [OF assms(1)]]
  with no_other_backups_kept [OF none assms(1) k(2) log_names_mono] show ?thesis
    by (simp add: rotated_def)
qed

end

subsection \<open>What every rotation keeps\<close>

lemma retention_off: "maxBackups \<le> 0 \<Longrightarrow> EnforceRetention active maxBackups = return_io ()"
  by (simp add: EnforceRetention_def return_io_def fun_eq_iff)

lemma try_io_cases:
  assumes "try_io m wrap k w = (r, w')"
  obtains e where "m w = (Inl e, w')" "r = Inl (wrap e)"
  | x w1 where "m w = (Inr x, w1)" "k x w1 = (r, w')"
  using assms by (auto simp: try_io_def split: prod.splits sum.splits)

lemma wrap64_Suc: "int n < 2 ^ 63 - 1 \<Longrightarrow> wrap64 (int n + 1) = int (Suc n)"
  by (subst wrap64_id) (simp_all add: in_int64_def)

text \<open>\<open>P cfg n w\<close> is a statement about the state after \<open>n\<close> rotations. When events, polls and
  retention keep it and a rotation takes it from \<open>n\<close> to \<open>n + 1\<close> (or, if it fails, leaves it at one
  of the two), it holds whenever \<open>Run\<close> returns.\<close>

locale rotation_loop =
  fixes P :: "RotatorConfig \<Rightarrow> nat \<Rightarrow> world \<Rightarrow> bool"
  assumes P_poll: "P (cfg\<lparr>rc_PollInterval := i\<rparr>) n w = P cfg n w"
    and P_tick: "P cfg n w \<Longrightarrow> select_tick w = (b, w') \<Longrightarrow> P cfg n w'"
    and P_stat: "P cfg n w \<Longrightarrow> sys_stat p w = (s, w') \<Longrightarrow> P cfg n w'"
    and P_append: "P cfg n w \<Longrightarrow> appendEvent cfg ev w = (r, w') \<Longrightarrow> P cfg n w'"
    and P_retain: "P cfg n w \<Longrightarrow> EnforceRetention (rc_ActivePath cfg) (rc_MaxBackups cfg) w = (r, w') \<Longrightarrow>
      P cfg n w'"
    and P_rotate: "P cfg n w \<Longrightarrow> rotate_files cfg (int (Suc n)) info_size w = (r, w') \<Longrightarrow>
      P cfg (Suc n) w' \<or> \<not> is_ok r \<and> P cfg n w'"
    and P_count: "P cfg n w \<Longrightarrow> rc_Rotations cfg < 2 ^ 63 - 1"
begin

lemma once:
  assumes w: "P cfg n w" and t: "RotateOnce cfg (int (Suc n)) w = (r, w')"
  shows "P cfg (Suc n) w' \<or> \<not> is_ok r \<and> P cfg n w'"
  using t unfolding RotateOnce_def
proof (cases rule: try_io_cases)
  case 1
  with P_stat [OF w] show ?thesis by simp
next
  case (2 info w1)
  note w1 = P_stat [OF w 2(1)]
  from 2(2) show ?thesis
  proof (cases rule: try_io_cases)
    case 1
    with P_append [OF w1] show ?thesis by simp
  next
    case (2 u w2)
    note w2 = P_append [OF w1 2(1)]
    from 2(2) show ?thesis
    proof (cases rule: try_io_cases)
      case 1
      with P_rotate [OF w2] show ?thesis by auto
    next
      case (2 u w3)
      with P_rotate [OF w2] have w3: "P cfg (Suc n) w3" by fastforce
      from 2(2) show ?thesis
      proof (cases rule: try_io_cases)
        case 1
        with P_retain [OF w3] show ?thesis by simp
      next
        case (2 u w4)
        with P_append [OF P_retain [OF w3]] show ?thesis by blast
      qed
    qed
  qed
qed

lemma loop:
  assumes "P cfg n w" and "int n < rc_Rotations cfg" and "run_loop cfg (int (Suc n)) w = (r, w')"
  shows "\<exists>m. int m \<le> rc_Rotations cfg \<and> P cfg m w'"
  using assms
proof (induction "slots w" arbitrary: n w rule: less_induct)
  case less
  obtain b w1 where 1: "select_tick w = (b, w1)" by fastforce
  note w1 = P_tick [OF less.prems(1) 1]
  obtain s w2 where 2: "sys_stat (rc_ActivePath cfg) w1 = (s, w2)" by fastforce
  note w2 = P_stat [OF w1 2]
  note eq = less.prems(3) [unfolded run_loop.simps [of cfg "int (Suc n)" w] 1 2]
  have here: ?case if "P cfg n w'" using that less.prems(2) by (auto intro: less_imp_le)
  have up: ?case if "P cfg (Suc n) w'" using that less.prems(2) by (intro exI [of _ "Suc n"]) simp
  show ?case
  proof (cases b)
    case True
    with eq w1 here show ?thesis by simp
  next
    case False
    then have less2: "slots w2 < slots w" using tick_stat_less 1 2 by metis
    note again = less.hyps [OF less2 w2 less.prems(2)]
    consider (missing) err where "s = Inl err" "is_not_exist err"
      | (failed) err where "s = Inl err" "\<not> is_not_exist err"
      | (small) info where "s = Inr info" "int info < rc_MaxFileBytes cfg"
      | (rotate) info where "s = Inr info" "\<not> int info < rc_MaxFileBytes cfg"
      by (cases s) auto
    then show ?thesis
    proof cases
      case missing
      with eq False 2 again show ?thesis by (simp del: of_nat_Suc)
    next
      case failed
      with eq False 2 have "w' = w2" by simp
      with w2 here show ?thesis by simp
    next
      case small
      with eq False 2 again show ?thesis by (simp del: of_nat_Suc)
    next
      case rotate
      obtain q w3 where 3: "RotateOnce cfg (int (Suc n)) w2 = (q, w3)" by fastforce
      note w3 = once [OF w2 3]
      have less3: "slots w3 < slots w" using rotate_once_le 3 less2 by (metis le_less_trans)
      show ?thesis
      proof (cases q)
        case (Inl err)
        obtain x w4 where 4: "appendEvent cfg (event (int (Suc n)) ''rotation-failed'' (int info)
            (error_text err)) w3 = (x, w4)" by fastforce
        with eq False 2 rotate 3 Inl have "w' = w4" by (simp add: rotation_failed_def del: of_nat_Suc)
        with w3 P_append 4 here up show ?thesis by blast
      next
        case (Inr u)
        with w3 have w3: "P cfg (Suc n) w3" by simp
        have wrap: "wrap64 (int (Suc n) + 1) = int (Suc (Suc n))"
          using less.prems(2) P_count [OF w3] by (intro wrap64_Suc) simp
        show ?thesis
        proof (cases "rc_Rotations cfg < int (Suc (Suc n))")
          case True
          with eq False 2 rotate 3 Inr wrap have "w' = w3" by (simp del: of_nat_Suc)
          with w3 up show ?thesis by simp
        next
          case more: False
          with eq False 2 rotate 3 Inr wrap have "run_loop cfg (int (Suc (Suc n))) w3 = (r, w')"
            by (simp del: of_nat_Suc)
          with less.hyps [OF less3 w3] more show ?thesis by simp
        qed
      qed
    qed
  qed
qed

lemma baseline:
  assumes "P cfg n w" and "baseline_loop cfg target w = (r, w')"
  shows "P cfg n w'"
  using assms
proof (induction "slots w" arbitrary: w rule: less_induct)
  case less
  obtain b w1 where 1: "select_tick w = (b, w1)" by fastforce
  note w1 = P_tick [OF less.prems(1) 1]
  obtain s w2 where 2: "sys_stat (rc_ActivePath cfg) w1 = (s, w2)" by fastforce
  note w2 = P_stat [OF w1 2]
  note eq = less.prems(2) [unfolded baseline_loop.simps [of cfg target w] 1 2]
  show ?case
  proof (cases b)
    case True
    with eq w1 show ?thesis by simp
  next
    case False
    then have "slots w2 < slots w" using tick_stat_less 1 2 by metis
    note again = less.hyps [OF this w2]
    show ?thesis
    proof (cases s)
      case (Inl err)
      with eq False 2 again w2 show ?thesis by (cases "is_not_exist err") simp_all
    next
      case (Inr info)
      show ?thesis
      proof (cases "int info < target")
        case True
        with eq False 2 again Inr show ?thesis by simp
      next
        case big: False
        with eq False 2 Inr have "try_io (appendEvent cfg (event 1 ''threshold'' (int info) [])) id
          (\<lambda>_. appendEvent cfg (event 1 ''baseline-complete'' (int info) [])) w2 = (r, w')" by simp
        then show ?thesis
          using P_append [OF w2] P_append by (cases rule: try_io_cases) blast+
      qed
    qed
  qed
qed

lemma run:
  assumes "P cfg 0 w" and "Run cfg w = (r, w')"
  shows "\<exists>m. int m \<le> max 0 (rc_Rotations cfg) \<and> P cfg m w'"
proof (cases "rc_MaxFileBytes cfg \<le> 0 \<or> rc_Rotations cfg \<le> 0")
  case True
  with assms(2) have "w' = w" by (auto simp: Run_def)
  with assms(1) show ?thesis by (intro exI [of _ 0]) simp
next
  case False
  let ?cfg = "cfg\<lparr>rc_PollInterval := poll_interval cfg\<rparr>"
  have w: "P ?cfg 0 w" using assms(1) by (simp add: P_poll)
  consider (same) "w' = w" | (baseline) target where "baseline_loop ?cfg target w = (r, w')"
    | (rotate) "run_loop ?cfg (int (Suc 0)) w = (r, w')"
    using assms(2) False by (auto simp: Run_def Let_def split: if_splits)
  then show ?thesis
  proof cases
    case same
    with assms(1) show ?thesis by (intro exI [of _ 0]) simp
  next
    case (baseline target)
    from rotation_loop.baseline [OF rotation_loop_axioms w this] have "P cfg 0 w'" by (simp add: P_poll)
    then show ?thesis by (intro exI [of _ 0]) simp
  next
    case rotate
    from loop [OF w _ this] False show ?thesis by (auto simp: P_poll)
  qed
qed

end

end
