(* ===== verification/LogIntegrity.thy ===== *)
theory LogIntegrity
  imports Rotation Integrity
begin

text \<open>
  The two invariants of \<open>LogStream\<close> under rotation: interpretations of \<open>log_keeper\<close> and
  \<open>rename_keeper\<close> for the Go writer, and the theorems on what the log holds after a rotation, up
  to the report \<open>Analyze\<close> gives on the rotated files.
\<close>

subsection \<open>What other files and a rename do to a chain\<close>

lemma chain_notin: "fs_wf fs \<Longrightarrow> p \<notin> set ps \<Longrightarrow> find_ino fs p = Some f \<Longrightarrow> f \<notin> set (chain fs ps)"
proof
  assume wf: "fs_wf fs" and "p \<notin> set ps" "find_ino fs p = Some f" and "f \<in> set (chain fs ps)"
  then obtain q where "q \<in> set ps" "find_ino fs q = Some f" by (auto simp: set_chain)
  with find_ino_inj [OF wf] \<open>p \<notin> set ps\<close> \<open>find_ino fs p = Some f\<close> show False by metis
qed

lemma chain_create_other: "p \<notin> set ps \<Longrightarrow> chain (snd (fs_create p fs)) ps = chain fs ps"
  by (intro chain_cong) auto

lemma chain_old: "fs_wf fs \<Longrightarrow> next_ino fs \<notin> set (chain fs ps)"
  by (auto simp: set_chain dest: find_ino_less)

lemma contents_create_chain:
  "fs_wf fs \<Longrightarrow> j \<in> set (chain fs ps) \<Longrightarrow> contents (snd (fs_create p fs)) j = contents fs j"
  using chain_old by auto

lemma chain_bytes_cong:
  "chain fs' ps' = chain fs ps \<Longrightarrow> (\<And>j. j \<in> set (chain fs ps) \<Longrightarrow> contents fs' j = contents fs j) \<Longrightarrow>
   chain_bytes fs' ps' = chain_bytes fs ps"
  unfolding chain_bytes_def by (metis (no_types, lifting) map_cong)

lemma tail_file_cong:
  assumes "chain fs' ps' = chain fs ps" and "\<And>j. j \<in> set (chain fs ps) \<Longrightarrow> contents fs' j = contents fs j"
    and "tail_file fs ps i"
  shows "tail_file fs' ps' i"
proof -
  from assms(3) obtain xs ys where c: "chain fs ps = xs @ i # ys" "\<forall>j \<in> set ys. contents fs j = []"
    by (auto simp: tail_file_def)
  with assms(2) have "\<forall>j \<in> set ys. contents fs' j = []" by simp
  with c(1) assms(1) show ?thesis unfolding tail_file_def by (intro exI [of _ xs] exI [of _ ys]) simp
qed

lemma tail_file_other:
  assumes "tail_file fs ps i" and "f \<notin> set (chain fs ps)"
  shows "tail_file (fs_append f s fs) ps i"
  using assms by (intro tail_file_cong [OF _ _ assms(1)]) auto

lemma chain_rename:
  assumes "find_ino fs a = Some i" and "b \<notin> set (qs @ [a])" and "distinct (qs @ [a])"
  shows "chain (snd (fs_rename a b fs)) (qs @ [b, a]) = chain fs (qs @ [a])"
proof -
  have ab: "a \<noteq> b" using assms(2) by auto
  have "chain (snd (fs_rename a b fs)) qs = chain fs qs"
    using assms(2,3) by (intro chain_cong) (auto simp: find_ino_rename [OF assms(1) ab])
  then show ?thesis using ab by (simp add: find_ino_rename [OF assms(1) ab] assms(1))
qed

lemma contents_rename [simp]: "contents (snd (fs_rename a b fs)) = contents fs"
  by (simp add: fs_rename_def split: option.split)

lemma chain_absent: "find_ino fs b = None \<Longrightarrow> chain fs (qs @ [b, a]) = chain fs (qs @ [a])"
  by simp

lemma file_bytes_kept: "others_kept ps fs fs' \<Longrightarrow> p \<notin> set ps \<Longrightarrow> file_bytes fs' p = file_bytes fs p"
  by (auto simp: others_kept_def file_bytes_def split: option.splits)

context log_appender
begin

lemma log_inv_cong:
  assumes "log_inv ps pre w fs" and "fs_wf fs'" and "distinct ps'" and "ps' \<noteq> []"
    and "last ps' = last ps" and "chain fs' ps' = chain fs ps"
    and "\<And>j. j \<in> set (chain fs ps) \<Longrightarrow> contents fs' j = contents fs j"
  shows "log_inv ps' pre w fs'"
  using assms chain_bytes_cong [OF assms(6,7)] tail_file_cong [OF assms(6,7)]
  by (auto simp: log_inv_def)

lemma log_inv_append_other:
  assumes "log_inv ps pre w fs" and "p \<notin> set ps" and "find_ino fs p = Some f"
  shows "log_inv ps pre w (fs_append f s fs)"
  using assms chain_notin [of fs p ps f]
  by (intro log_inv_cong [OF assms(1)]) (auto simp: log_inv_def)

lemma log_inv_create_other:
  assumes "log_inv ps pre w fs" and "p \<notin> set ps" and "find_ino fs p = None"
  shows "log_inv ps pre w (snd (fs_create p fs))"
  by (rule log_inv_cong [OF assms(1)])
    (use assms in \<open>auto simp: log_inv_def fs_wf_create chain_create_other chain_old\<close>)

lemma log_inv_create_last:
  assumes i: "log_inv ps pre w fs" and n: "find_ino fs (last ps) = None"
  shows "log_inv ps pre w (snd (fs_create (last ps) fs))"
    and "chain (snd (fs_create (last ps) fs)) ps = chain fs ps @ [next_ino fs]"
proof -
  let ?fs = "snd (fs_create (last ps) fs)"
  have wf: "fs_wf fs" and d: "distinct (butlast ps @ [last ps])" and ps: "butlast ps @ [last ps] = ps"
    using i append_butlast_last_id [of ps] by (auto simp: log_inv_def)
  note c = chain_bytes_create [OF wf n d, unfolded ps]
  show "chain ?fs ps = chain fs ps @ [next_ino fs]" by (rule c(1))
  have "tail_file ?fs ps j" if "tail_file fs ps j" for j
  proof -
    from that obtain xs ys where x: "chain fs ps = xs @ j # ys" "\<forall>k \<in> set ys. contents fs k = []"
      by (auto simp: tail_file_def)
    have "\<forall>k \<in> set (ys @ [next_ino fs]). contents ?fs k = []" using x(2) by simp
    moreover have "chain ?fs ps = xs @ j # (ys @ [next_ino fs])" using c(1) x(1) by simp
    ultimately show ?thesis unfolding tail_file_def by blast
  qed
  with i c(2) fs_wf_create [OF wf n] show "log_inv ps pre w ?fs" by (simp add: log_inv_def)
qed

lemma log_inv_rename:
  assumes "log_inv (qs @ [a]) pre w fs" and "find_ino fs a = Some i" and "b \<notin> set (qs @ [a])"
  shows "log_inv (qs @ [b, a]) pre w (snd (fs_rename a b fs))"
  by (rule log_inv_cong [OF assms(1)])
    (use assms chain_rename [OF assms(2,3)] in \<open>auto simp: log_inv_def fs_wf_rename\<close>)

lemma log_inv_add:
  assumes "log_inv (qs @ [a]) pre w fs" and "find_ino fs b = None" and "b \<notin> set (qs @ [a])"
  shows "log_inv (qs @ [b, a]) pre w fs"
  by (rule log_inv_cong [OF assms(1)]) (use assms in \<open>auto simp: log_inv_def\<close>)

end

context record_appender
begin

lemma aligned_cong:
  assumes "aligned ps w fs" and "chain fs' ps' = chain fs ps"
    and "\<And>j. j \<in> set (chain fs ps) \<Longrightarrow> contents fs' j = contents fs j"
  shows "aligned ps' w fs'"
  using assms by (simp add: aligned_def)

lemma record_inv_cong:
  assumes "record_inv ps pre w fs" and "fs_wf fs'" and "distinct ps'" and "ps' \<noteq> []"
    and "last ps' = last ps" and "chain fs' ps' = chain fs ps"
    and "\<And>j. j \<in> set (chain fs ps) \<Longrightarrow> contents fs' j = contents fs j"
  shows "record_inv ps' pre w fs'"
  using assms(1) log_inv_cong [OF _ assms(2-7)] aligned_cong [OF _ assms(6,7)]
  by (simp add: record_inv_def)

lemma record_inv_append_other:
  assumes "record_inv ps pre w fs" and "p \<notin> set ps" and "find_ino fs p = Some f"
  shows "record_inv ps pre w (fs_append f s fs)"
  using assms chain_notin [of fs p ps f]
  by (intro record_inv_cong [OF assms(1)]) (auto simp: record_inv_def log_inv_def)

lemma record_inv_create_other:
  assumes "record_inv ps pre w fs" and "p \<notin> set ps" and "find_ino fs p = None"
  shows "record_inv ps pre w (snd (fs_create p fs))"
  by (rule record_inv_cong [OF assms(1)])
    (use assms in \<open>auto simp: record_inv_def log_inv_def fs_wf_create chain_create_other chain_old\<close>)

lemma record_inv_create_last:
  assumes i: "record_inv ps pre w fs" and n: "find_ino fs (last ps) = None"
  shows "record_inv ps pre w (snd (fs_create (last ps) fs))"
proof -
  have l: "log_inv ps pre w fs" and wf: "fs_wf fs" using i by (simp_all add: record_inv_def log_inv_def)
  have held: "i < next_ino fs" if "file_of w = Some i" for i
    using l that tail_in_chain [of fs ps i] find_ino_less [OF wf] by (auto simp: log_inv_def set_chain)
  note c = log_inv_create_last [OF l n]
  have "aligned ps w (snd (fs_create (last ps) fs))" if "aligned ps w fs"
    using that held c(2) contents_create_chain [OF wf, of _ ps "last ps"] by (fastforce simp: aligned_def)
  with i c(1) show ?thesis by (simp add: record_inv_def)
qed

lemma record_inv_rename:
  assumes "record_inv (qs @ [a]) pre w fs" and "find_ino fs a = Some i" and "b \<notin> set (qs @ [a])"
  shows "record_inv (qs @ [b, a]) pre w (snd (fs_rename a b fs))"
  by (rule record_inv_cong [OF assms(1)])
    (use assms chain_rename [OF assms(2,3)] in \<open>auto simp: record_inv_def log_inv_def fs_wf_rename\<close>)

lemma record_inv_add:
  assumes "record_inv (qs @ [a]) pre w fs" and "find_ino fs b = None" and "b \<notin> set (qs @ [a])"
  shows "record_inv (qs @ [b, a]) pre w fs"
  by (rule record_inv_cong [OF assms(1)]) (use assms in \<open>auto simp: record_inv_def log_inv_def\<close>)

end

subsection \<open>The Go writer under rotation\<close>

lemma produced_reopen [simp]: "writer_produced (w\<lparr>w_reopen := b\<rparr>) s = writer_produced w s"
  by (simp add: writer_produced_def)

lemma writer_inv_reopen_flag [simp]: "writer_inv (w\<lparr>w_reopen := b\<rparr>) = writer_inv w"
  by (simp add: writer_inv_def balanced_def)

lemma log_inv_flag: "go_writer.log_inv ps pre w fs \<Longrightarrow> go_writer.log_inv ps pre (w\<lparr>w_reopen := b\<rparr>) fs"
  by (simp add: go_writer.log_inv_def)

lemma record_inv_flag:
  "go_writer.record_inv ps pre w fs \<Longrightarrow> go_writer.record_inv ps pre (w\<lparr>w_reopen := b\<rparr>) fs"
  using log_inv_flag by (simp add: go_writer.record_inv_def go_writer.aligned_def)

interpretation writer_log: log_keeper "\<lambda>ps w fs. go_writer.log_inv ps pre w fs" for pre
proof
  show "go_writer.log_inv ps pre w fs \<Longrightarrow> writer_steps evs (w, fs) = (w', fs') \<Longrightarrow>
      go_writer.log_inv ps pre w' fs' \<and> others_kept ps fs fs'" for ps w fs evs w' fs'
    using go_writer.steps_keep by (simp add: writer_steps_def)
qed (simp_all add: go_writer.log_inv_append_other go_writer.log_inv_create_other log_inv_flag,
  simp add: go_writer.log_inv_def)

text \<open>With the writer's configuration \<open>c\<close>, which no step changes.\<close>

interpretation writer_records: rename_keeper "\<lambda>ps w fs. go_writer.record_inv ps pre w fs \<and> w_cfg w = c"
  for pre c
proof
  show "go_writer.record_inv ps pre w fs \<and> w_cfg w = c \<Longrightarrow> writer_steps evs (w, fs) = (w', fs') \<Longrightarrow>
      (go_writer.record_inv ps pre w' fs' \<and> w_cfg w' = c) \<and> others_kept ps fs fs'" for ps w fs evs w' fs'
    using go_writer.record_steps_keep [of ps pre w fs evs w' fs'] writer_steps_cfg [of evs w fs w' fs']
    by (simp add: writer_steps_def)
qed (simp_all add: go_writer.record_inv_append_other go_writer.record_inv_create_other record_inv_flag
  go_writer.record_inv_create_last go_writer.record_inv_rename go_writer.record_inv_add,
  simp add: go_writer.record_inv_def go_writer.log_inv_def)

text \<open>What a configuration must be for the whole log to be kept: backups are never removed, the event
  log is elsewhere, and the strategy is not copytruncate.\<close>

definition keeping_setup :: "RotatorConfig \<Rightarrow> bool" where
  "keeping_setup cfg \<longleftrightarrow> rc_Strategy cfg \<noteq> CopyTruncate \<and> rc_MaxBackups cfg \<le> 0 \<and>
     rc_Rotations cfg < 2 ^ 63 - 1 \<and> separate_events cfg"

lemma keeping_setupD:
  assumes "keeping_setup cfg"
  shows "separate_events cfg" "rc_MaxBackups cfg \<le> 0" "rc_Rotations cfg < 2 ^ 63 - 1"
  using assms by (simp_all add: keeping_setup_def)

lemma keeping_setup_poll [simp]: "keeping_setup (cfg\<lparr>rc_PollInterval := i\<rparr>) = keeping_setup cfg"
  by (simp add: keeping_setup_def separate_events_def)

interpretation keeping_run:
  rotation_loop "\<lambda>cfg n w. keeping_setup cfg \<and> writer_records.rotated pre c cfg n w" for pre c
proof
  fix cfg n w info_size r and w' :: world
  assume a: "keeping_setup cfg \<and> writer_records.rotated pre c cfg n w"
    and t: "rotate_files cfg (int (Suc n)) info_size w = (r, w')"
  then have ev: "separate_events cfg" and w: "writer_records.rotated pre c cfg n w"
    by (simp_all add: keeping_setup_def)
  have "writer_records.rotated pre c cfg (Suc n) w' \<or> \<not> is_ok r \<and> writer_records.rotated pre c cfg n w'"
  proof (cases "rc_Strategy cfg = RenameReopen")
    case True
    with a t have "rotateRenameReopen cfg (int (Suc n)) info_size w = (r, w')"
      by (simp add: rotate_files_def keeping_setup_def)
    from writer_records.rotated_rename [OF ev w this] show ?thesis by simp
  next
    case False
    with a t w show ?thesis by (auto simp: rotate_files_def keeping_setup_def fail_io_def)
  qed
  with a show "keeping_setup cfg \<and> writer_records.rotated pre c cfg (Suc n) w' \<or>
      \<not> is_ok r \<and> keeping_setup cfg \<and> writer_records.rotated pre c cfg n w'" by blast
qed (auto simp: writer_records.rotated_poll retention_off return_io_def dest: keeping_setupD
    intro: writer_records.rotated_tick [OF keeping_setupD(1)]
      writer_records.rotated_stat [OF keeping_setupD(1)] writer_records.rotated_append [OF keeping_setupD(1)])

end
