(* ===== verification/Delivery.thy ===== *)
theory Delivery
  imports LogIntegrity "HOL-Library.Multiset"
begin

text \<open>
  End to end: the writer generates records, \<open>rotator.Run\<close> rotates the log by rename and reopen
  while it writes, \<open>integrity.Analyze\<close> counts the records in the rotated files. Everything holds
  for every schedule of \<open>World\<close>: every interleaving of the two processes at the granularity of
  system calls, and every pattern of failing calls and lost requests.
\<close>

subsection \<open>A run from an empty log\<close>

definition fresh_log :: "string \<Rightarrow> fs \<Rightarrow> bool" where
  "fresh_log active fs \<longleftrightarrow> fs_wf fs \<and>
     list_all (\<lambda>p. p \<noteq> active \<and> \<not> backup_name active p) (map fst (dirents fs))"

lemma fresh_log_none:
  "fresh_log active fs \<Longrightarrow> p = active \<or> backup_name active p \<Longrightarrow> find_ino fs p = None"
  by (auto simp: fresh_log_def list_all_iff find_ino_None)

text \<open>The writer writes the file the rotator rotates, and the rotator keeps the whole log.\<close>

definition rename_setup :: "WriterConfig \<Rightarrow> RotatorConfig \<Rightarrow> bool" where
  "rename_setup wcfg cfg \<longleftrightarrow> wc_Path wcfg = rc_ActivePath cfg \<and> keeping_setup cfg"

text \<open>\<open>rotation_history wcfg cfg fs0 r wr fs\<close>: a writer of configuration \<open>wcfg\<close> starts on \<open>fs0\<close> and runs
  for a while, \<open>Run cfg\<close> runs beside it and returns \<open>r\<close>, the writer runs on; \<open>wr\<close> and \<open>fs\<close> are the
  writer and the file system then.\<close>

inductive rotation_history ::
  "WriterConfig \<Rightarrow> RotatorConfig \<Rightarrow> fs \<Rightarrow> unit result \<Rightarrow> Writer \<Rightarrow> fs \<Rightarrow> bool" for wcfg cfg fs0 where
  history: "new_writer None wcfg = Inr w0 \<Longrightarrow>
    writer_steps before (w0, fs0) = (writer w, files w) \<Longrightarrow> Run cfg w = (r, w') \<Longrightarrow>
    writer_steps after (writer w', files w') = (wr, fs) \<Longrightarrow> rotation_history wcfg cfg fs0 r wr fs"

lemma record_inv_new:
  assumes "new_writer None wcfg = Inr w0" and "fresh_log (wc_Path wcfg) fs"
  shows "go_writer.record_inv [wc_Path wcfg] [] w0 fs"
proof -
  have "chain fs [wc_Path wcfg] = []" using fresh_log_none [OF assms(2)] by simp
  then have "go_writer.log_inv [wc_Path wcfg] [] w0 fs"
    using log_inv_new [OF assms(1), of fs "[wc_Path wcfg]"] assms(2)
    by (simp add: fresh_log_def chain_bytes_def)
  then show ?thesis
    using writer_inv_new [OF assms(1)] \<open>chain fs _ = []\<close>
    by (simp add: go_writer.record_inv_def go_writer.aligned_def)
qed

lemma rename_history:
  assumes "rotation_history wcfg cfg fs0 r wr fs" and "rename_setup wcfg cfg"
    and fresh: "fresh_log (rc_ActivePath cfg) fs0"
  shows "\<exists>m. int m \<le> max 0 (rc_Rotations cfg) \<and> run_id wr = wc_RunID wcfg \<and>
    record_size wr = wc_RecordBytes wcfg \<and> no_other_backups (rc_ActivePath cfg) m fs \<and>
    go_writer.record_inv (log_names (rc_ActivePath cfg) m) [] wr fs"
  using assms(1)
proof cases
  case (history w0 before w w' after)
  let ?A = "rc_ActivePath cfg" and ?c = "w_cfg w0"
  have cfg: "wc_Path wcfg = ?A" "keeping_setup cfg" using assms(2) by (simp_all add: rename_setup_def)
  have "go_writer.record_inv [?A] [] w0 fs0" using record_inv_new [OF history(1)] fresh cfg(1) by simp
  from writer_records.keep_steps [OF conjI [OF this refl] history(2)]
  have 1: "go_writer.record_inv [?A] [] (writer w) (files w)" "w_cfg (writer w) = ?c"
    and o1: "others_kept [?A] fs0 (files w)" by simp_all
  have "no_other_backups ?A 0 (files w)"
    using o1 fresh_log_none [OF fresh] by (auto simp: no_other_backups_def log_names_def others_kept_def)
  then have "keeping_setup cfg \<and> writer_records.rotated [] ?c cfg 0 w"
    using 1 cfg(2) by (simp add: writer_records.rotated_def log_names_def)
  from keeping_run.run [OF this history(3)] obtain m where
    m: "int m \<le> max 0 (rc_Rotations cfg)" and rot: "writer_records.rotated [] ?c cfg m w'" by blast
  let ?ps = "log_names ?A m"
  from rot have inv: "go_writer.record_inv ?ps [] (writer w') (files w') \<and> w_cfg (writer w') = ?c"
    and none: "no_other_backups ?A m (files w')"
    by (simp_all add: writer_records.rotated_def)
  from writer_records.keep_steps [OF inv history(4)]
  have 2: "go_writer.record_inv ?ps [] wr fs" "w_cfg wr = ?c" and o2: "others_kept ?ps (files w') fs"
    by simp_all
  have "no_other_backups ?A m fs" using none o2 by (simp add: no_other_backups_def others_kept_def)
  with m 2 new_writer_Inr(1,2) [OF history(1)] show ?thesis by auto
qed

subsection \<open>Records cut into files\<close>

lemma concat_units:
  assumes "\<forall>x \<in> set xs. length (f x) = u" and "k \<le> length xs"
  shows "take (k * u) (concat (map f xs)) = concat (map f (take k xs))"
    and "drop (k * u) (concat (map f xs)) = concat (map f (drop k xs))"
proof -
  have len: "length (concat (map f ys)) = length ys * u" if "\<forall>x \<in> set ys. length (f x) = u" for ys
    using that by (induction ys) auto
  have "concat (map f xs) = concat (map f (take k xs)) @ concat (map f (drop k xs))"
    by (metis append_take_drop_id concat_append map_append)
  moreover have "\<forall>x \<in> set (take k xs). length (f x) = u" using assms(1) by (auto dest: in_set_takeD)
  from len [OF this] have "length (concat (map f (take k xs))) = k * u" using assms(2) by simp
  ultimately show "take (k * u) (concat (map f xs)) = concat (map f (take k xs))"
    "drop (k * u) (concat (map f xs)) = concat (map f (drop k xs))"
    by (metis append_eq_conv_conj)+
qed

lemma units_per_file:
  assumes "concat (map c ps) = concat (map f xs)" and "\<forall>x \<in> set xs. length (f x) = u" and "0 < u"
    and "\<forall>p \<in> set ps. length (c p) mod u = 0" and "distinct ps"
  shows "\<exists>seg. concat (map seg ps) = xs \<and> (\<forall>p \<in> set ps. c p = concat (map f (seg p)))"
  using assms(1,2,4,5)
proof (induction ps arbitrary: xs)
  case Nil
  then have "concat (map f xs) = []" by simp
  moreover have "f x \<noteq> []" if "x \<in> set xs" for x using Nil.prems(2) \<open>0 < u\<close> that by fastforce
  ultimately have "xs = []" by (cases xs) auto
  then show ?case by simp
next
  case (Cons p ps)
  define k where "k = length (c p) div u"
  then have ku: "length (c p) = k * u" using Cons.prems(3) by auto
  have "length (concat (map f xs)) = length xs * u"
    using Cons.prems(2) by (induction xs) auto
  moreover have "length (concat (map f xs)) \<ge> k * u" using Cons.prems(1) ku by (metis concat.simps(2)
    le_add1 length_append list.simps(9))
  ultimately have k: "k \<le> length xs" using \<open>0 < u\<close> by simp
  note cut = concat_units [OF Cons.prems(2) k]
  have "concat (map f xs) = c p @ concat (map c ps)" using Cons.prems(1) by simp
  then have p: "c p = concat (map f (take k xs))" and ps: "concat (map c ps) = concat (map f (drop k xs))"
    using ku unfolding cut [symmetric] by (metis append_eq_conv_conj)+
  have "\<forall>x \<in> set (drop k xs). length (f x) = u" using Cons.prems(2) by (auto dest: in_set_dropD)
  from Cons.IH [OF ps this] Cons.prems(3,4) obtain seg where
    seg: "concat (map seg ps) = drop k xs" "\<forall>q \<in> set ps. c q = concat (map f (seg q))" by auto
  let ?seg = "seg(p := take k xs)"
  have same: "map ?seg ps = map seg ps" using Cons.prems(4) by auto
  have "concat (map ?seg (p # ps)) = xs" unfolding list.map concat.simps same using seg(1) by simp
  moreover have "\<forall>q \<in> set (p # ps). c q = concat (map f (?seg q))" using seg(2) p Cons.prems(4) by auto
  ultimately show ?case by blast
qed

subsection \<open>The report on the rotated files\<close>

definition read_log :: "fs \<Rightarrow> string \<Rightarrow> file_read" where
  "read_log fs p = (case find_ino fs p of
     Some i \<Rightarrow> Contents (contents fs i) None
   | None \<Rightarrow> OpenError (PathError ''open'' p ENOENT))"

definition log_paths :: "string \<Rightarrow> fs \<Rightarrow> string list" where
  "log_paths active fs = sort (glob_backups active fs @ [active])"

abbreviation present :: "fs \<Rightarrow> string list \<Rightarrow> string list" where
  "present fs ps \<equiv> filter (\<lambda>p. find_ino fs p \<noteq> None) ps"

lemma chain_bytes_present: "chain_bytes fs ps = concat (map (file_bytes fs) (present fs ps))"
  unfolding chain_bytes_def by (induction ps) (auto simp: file_bytes_def split: option.split)

lemma log_paths_mset:
  assumes "fs_wf fs" and "no_other_backups active m fs" and "find_ino fs active \<noteq> None"
  shows "mset (log_paths active fs) = mset (present fs (log_names active m))"
proof (subst set_eq_iff_mset_eq_distinct [symmetric])
  have "\<not> backup_name active active" by (simp add: backup_name_def has_prefix_def)
  then show "distinct (log_paths active fs)"
    using assms(1) by (simp add: log_paths_def glob_backups_def fs_wf_def)
  show "distinct (present fs (log_names active m))" by (simp add: distinct_log_names)
  have ex: "p \<in> set (map fst (dirents fs)) \<longleftrightarrow> find_ino fs p \<noteq> None" for p
    by (simp add: find_ino_None)
  have "p \<in> set (log_names active m) \<longleftrightarrow> p = active \<or> backup_name active p"
    if "find_ino fs p \<noteq> None" for p
    using that assms(2) backup_name_BackupPath by (auto simp: no_other_backups_def log_names_def)
  moreover have "set (log_paths active fs) = {p. p = active \<or> backup_name active p \<and> p \<in> set (map fst (dirents fs))}"
    by (auto simp: log_paths_def glob_backups_def)
  ultimately show "set (log_paths active fs) = set (present fs (log_names active m))"
    using assms(3) unfolding ex by auto
qed

lemma scannable_any: "scannable (r, q, n) \<Longrightarrow> scannable (r, q', n)"
  by (simp add: scannable_def)

lemma read_log_records:
  assumes "find_ino fs p \<noteq> None" and "file_bytes fs p = concat (map record_line (map (\<lambda>q. (r, q, n)) qs))"
    and "\<forall>q \<in> set qs. scannable (r, q, n)"
  shows "file_clean (read_log fs) p"
    and "file_tokens (read_log fs) p = map (\<lambda>q. butlast (record_line (r, q, n))) qs"
    and "path_seqs (read_log fs) r p = qs"
proof -
  obtain i where i: "find_ino fs p = Some i" using assms(1) by auto
  have "\<forall>x \<in> set (map (\<lambda>q. (r, q, n)) qs). scannable x" using assms(3) by auto
  from log_record.scan_all [OF this]
  have "scan_lines integrity_token_limit (contents fs i) = (map (\<lambda>q. butlast (record_line (r, q, n))) qs, True)"
    using assms(2) by (simp add: file_bytes_def i comp_def)
  then show "file_clean (read_log fs) p"
    and t: "file_tokens (read_log fs) p = map (\<lambda>q. butlast (record_line (r, q, n))) qs"
    by (simp_all add: file_clean_def file_tokens_def read_log_def i)
  show "path_seqs (read_log fs) r p = qs"
    unfolding path_seqs_def t by (rule valid_seqs_records [OF assms(3)])
qed

lemma record_stream_lines:
  "record_stream r n g = concat (map record_line (map (\<lambda>q. (r, q, n)) (map of_nat [1 ..< Suc g])))"
proof -
  have "map (\<lambda>j. record_line (r, 0 + of_nat (Suc j), n)) [0 ..< g] =
      map record_line (map (\<lambda>q. (r, q, n)) (map of_nat (map Suc [0 ..< g])))"
    by simp
  also have "map Suc [0 ..< g] = [1 ..< Suc g]" by (simp add: map_Suc_upt)
  finally show ?thesis by (simp only: record_stream_def records_from_def)
qed

lemma segment_sorted:
  assumes "concat (map seg ps) = xs" and "sorted xs" and "p \<in> set ps"
  shows "sorted (seg p)"
proof -
  from assms(3) obtain as bs where "ps = as @ p # bs" by (meson split_list)
  with assms(1) have "xs = concat (map seg as) @ seg p @ concat (map seg bs)" by simp
  with assms(2) show ?thesis by (simp add: sorted_append)
qed

text \<open>The report on files that together are the first \<open>g\<close> records, cut between records.\<close>

lemma cut_stream_report:
  assumes stream: "concat (map (file_bytes fs) ps) = record_stream r n g"
    and whole: "\<forall>p \<in> set ps. length (file_bytes fs p) mod nat n = 0"
    and ex: "\<forall>p \<in> set ps. find_ino fs p \<noteq> None" and "distinct ps" and same: "mset paths = mset ps"
    and size: "sum_list (map (\<lambda>p. length (file_bytes fs p)) paths) < 2 ^ 64"
    and ok: "scannable (r, 0, n)"
  shows "\<exists>rep. Analyze (read_log fs) r (of_nat g) paths = Some (rep, None) \<and>
    ir_Malformed rep = 0 \<and> ir_WrongRunID rep = 0 \<and> ir_Missing rep = 0 \<and> ir_Duplicates rep = 0 \<and>
    ir_DescendingTransitions rep = 0 \<and> ir_ValidUnique rep = of_nat g"
proof -
  let ?rd = "read_log fs" and ?qs = "map of_nat [1 ..< Suc g] :: u64 list"
  let ?line = "\<lambda>q. record_line (r, q, n)"
  have enc: "encodable (r, q, n)" for q
    using scannable_any [OF ok, of q] by (simp add: scannable_def del: encodable.simps)
  then have len: "length (?line q) = nat n" for q by (rule length_record_line)
  have n: "24 \<le> n" using enc [of 0] by (cases r) (auto simp: valid_run_id_def)
  have lines: "record_stream r n g = concat (map ?line ?qs)"
    by (simp only: record_stream_lines map_map comp_def)
  obtain seg where seg: "concat (map seg ps) = ?qs" "\<forall>p \<in> set ps. file_bytes fs p = concat (map ?line (seg p))"
    using units_per_file [of "file_bytes fs" ps ?line ?qs "nat n"] stream lines len n whole \<open>distinct ps\<close>
    by auto
  have sets: "set paths = set ps" using same by (metis set_mset_mset)
  have sums: "sum_list (map h paths) = sum_list (map h ps)" for h :: "string \<Rightarrow> nat"
    using same by (metis mset_map sum_mset_sum_list)
  have "length (record_stream r n g) = g * nat n"
    unfolding lines by (simp add: length_concat comp_def len sum_list_triv del: upt_Suc)
  moreover have "length (concat (map (file_bytes fs) ps)) = sum_list (map (\<lambda>p. length (file_bytes fs p)) ps)"
    by (simp only: length_concat map_map comp_def)
  ultimately have "g * nat n = sum_list (map (\<lambda>p. length (file_bytes fs p)) ps)"
    unfolding stream by simp
  moreover have "g * 24 \<le> g * nat n" using n by (intro mult_left_mono) simp_all
  ultimately have g: "g * 24 < 2 ^ 64" using size sums by simp
  have "file_bytes fs p = concat (map record_line (map (\<lambda>q. (r, q, n)) (seg p)))" if "p \<in> set ps" for p
    using seg(2) that by (simp add: comp_def)
  note recs = read_log_records [OF _ this ballI [OF scannable_any [OF ok]]]
  have clean: "\<forall>p \<in> set paths. file_clean ?rd p" using recs(1) ex sets by simp
  have tok: "length (file_tokens ?rd p) = length (seg p)" "path_seqs ?rd r p = seg p"
      "\<forall>t \<in> set (file_tokens ?rd p). line_seq r t \<noteq> None" if "p \<in> set ps" for p
    using recs(2,3) [OF bspec [OF ex that] that] line_seq_record(1) [OF scannable_any [OF ok]] by auto
  have "map (\<lambda>p. length (file_tokens ?rd p)) paths = map (\<lambda>p. length (seg p)) paths"
    using tok(1) sets by simp
  then have "length (all_tokens ?rd paths) = sum_list (map (\<lambda>p. length (seg p)) ps)"
    unfolding all_tokens_def length_concat map_map comp_def by (simp only: sums)
  also have "\<dots> = g" using arg_cong [OF seg(1), of length] by (simp add: length_concat comp_def)
  finally have tokens: "length (all_tokens ?rd paths) < 2 ^ 64" using g by simp
  have expected: "(of_nat g :: u64) \<noteq> - 1"
  proof
    assume "(of_nat g :: u64) = - 1"
    then have "unat (of_nat g :: u64) = unat (- 1 :: u64)" by simp
    with g show False by (simp add: unat_of_nat_u64 unsigned_minus_1_eq_mask mask_eq_exp_minus_1)
  qed
  obtain rep where rep: "Analyze ?rd r (of_nat g) paths = Some (rep, None)"
    using Analyze_clean [OF clean tokens expected, of r] by auto
  have seqs: "all_seqs ?rd r paths = concat (map seg paths)"
    unfolding all_seqs_def using tok(2) sets by (intro arg_cong [of _ _ concat]) simp
  have "mset (concat (map seg xs)) = sum_mset (image_mset (\<lambda>p. mset (seg p)) (mset xs))" for xs
    by (induction xs) simp_all
  then have "mset (concat (map seg paths)) = mset (concat (map seg ps))" by (simp only: same)
  then have perm: "mset (all_seqs ?rd r paths) = mset ?qs" using seqs seg(1) by simp
  have gu: "unat (of_nat g :: u64) = g" using g by (intro unat_of_nat_u64) simp
  have "distinct (all_seqs ?rd r paths)"
    using mset_eq_imp_distinct_iff [OF perm] distinct_upto_u64 [of "of_nat g :: u64"] gu by simp
  moreover have "set (all_seqs ?rd r paths) = {q. 1 \<le> q \<and> q \<le> of_nat g}"
    using mset_eq_setD [OF perm] set_upto_u64 [of "of_nat g :: u64"] gu by simp
  moreover have "(of_nat (Suc i) :: u64) \<le> of_nat (Suc j)" if "i \<le> j" "j < g" for i j
    using that g unat_of_nat_u64 [of "Suc i"] unat_of_nat_u64 [of "Suc j"]
    by (simp only: word_le_nat_alt)
  then have "sorted ?qs" by (simp add: sorted_iff_nth_mono del: upt_Suc of_nat_Suc)
  then have "\<forall>p \<in> set paths. sorted (path_seqs ?rd r p)"
    using segment_sorted [OF seg(1)] tok(2) sets by simp
  moreover have "\<forall>t \<in> set (all_tokens ?rd paths). line_seq r t \<noteq> None"
    using tok(3) sets by (auto simp: all_tokens_def)
  ultimately show ?thesis using clean_report_char [OF clean tokens rep] rep by blast
qed

lemma record_inv_report:
  assumes inv: "go_writer.record_inv (log_names active m) [] wr fs" and fin: "w_pc wr = PcDone None"
    and none: "no_other_backups active m fs" and act: "find_ino fs active \<noteq> None"
    and ok: "scannable (run_id wr, 0, record_size wr)"
    and size: "sum_list (map (\<lambda>p. length (file_bytes fs p)) (log_paths active fs)) < 2 ^ 64"
  shows "\<exists>rep. Analyze (read_log fs) (run_id wr) (generated wr) (log_paths active fs) = Some (rep, None) \<and>
    ir_Malformed rep = 0 \<and> ir_WrongRunID rep = 0 \<and> ir_Missing rep = 0 \<and> ir_Duplicates rep = 0 \<and>
    ir_DescendingTransitions rep = 0 \<and> ir_ValidUnique rep = generated wr"
proof -
  let ?ps = "present fs (log_names active m)"
  have pend: "pending_bytes wr = []"
    using inv fin by (simp add: go_writer.record_inv_def writer_inv_def pending_bytes_def)
  have wf: "fs_wf fs" using inv by (simp add: go_writer.record_inv_def go_writer.log_inv_def)
  obtain g where g: "generated wr = of_nat g"
      "concat (map (file_bytes fs) ?ps) = record_stream (run_id wr) (record_size wr) g"
  proof -
    have "writer_produced wr ([] @ chain_bytes fs (log_names active m) @ pending_bytes wr)"
      using inv fin unfolding go_writer.record_inv_def go_writer.log_inv_def by (metis unfailed.simps(5))
    then have "writer_produced wr (chain_bytes fs (log_names active m))" by (simp add: pend)
    with that show ?thesis unfolding writer_produced_def chain_bytes_present by blast
  qed
  have al: "go_writer.aligned (log_names active m) wr fs"
    using inv fin by (simp add: go_writer.record_inv_def)
  have "length (file_bytes fs p) mod nat (record_size wr) = 0" if "p \<in> set ?ps" for p
  proof -
    from that obtain i where i: "p \<in> set (log_names active m)" "find_ino fs p = Some i" by auto
    then have "i \<in> set (chain fs (log_names active m))" by (auto simp: set_chain)
    with al fin have "length (contents fs i) mod nat (record_size wr) = 0"
      by (auto simp: go_writer.aligned_def)
    with i show ?thesis by (simp add: file_bytes_def)
  qed
  then have al': "\<forall>p \<in> set ?ps. length (file_bytes fs p) mod nat (record_size wr) = 0" by blast
  have ex: "\<forall>p \<in> set ?ps. find_ino fs p \<noteq> None" and "distinct ?ps"
    by (simp_all add: distinct_log_names)
  from cut_stream_report [OF g(2) al' this log_paths_mset [OF wf none act] size ok]
  show ?thesis unfolding g(1) .
qed

subsection \<open>A concrete rotation\<close>

text \<open>The writer generates two records, the rotator finds them, renames the file and asks for a
  reopen; then the writer generates one more record and ends.\<close>

definition sample_rotation :: RotatorConfig where
  "sample_rotation = \<lparr>rc_Strategy = RenameReopen, rc_ActivePath = ''envoy.log'', rc_ReopenURL = ''u'',
     rc_EventPath = [], rc_MaxFileBytes = 40, rc_Rotations = 1, rc_MaxBackups = 0,
     rc_PollInterval = 0, rc_StartTime = Some 0\<rparr>"

definition sample_world :: "slot list \<Rightarrow> world" where
  "sample_world ss = (case writer_steps [SysOk 0, SysOk 0, GenerateTick (2 * 10 ^ 9), WroteBytes 48 None]
       (sample_writer, empty_fs) of
     (wr, fs) \<Rightarrow> \<lparr>files = fs, writer = wr, sched = ss, clock = 0, url_error = (\<lambda>_. None)\<rparr>)"

definition sample_end :: "writer_event list" where
  "sample_end = [ReopenReady, SysOk 0, SysOk 0, GenerateTick (3 * 10 ^ 9), CtxDone,
     WroteBytes 24 None, SysOk 0, ServeEnd None]"

definition sample_run_world :: "world" where
  "sample_run_world = snd (Run sample_rotation (sample_world (replicate 30 ok_slot)))"

definition sample_after :: "Writer \<times> fs" where
  "sample_after = writer_steps sample_end (writer sample_run_world, files sample_run_world)"

lemma sample_facts_after:
  "w_pc (fst sample_after) = PcDone None" "generated (fst sample_after) = 3"
  "find_ino (snd sample_after) ''envoy.log'' = Some 1"
  "log_paths ''envoy.log'' (snd sample_after) = [''envoy.log'', ''envoy.log.000001'']"
  "length (file_bytes (snd sample_after) ''envoy.log'') = 24"
  "length (file_bytes (snd sample_after) ''envoy.log.000001'') = 48"
  by code_simp+

lemma sample_Run: "Run sample_rotation (sample_world (replicate 30 ok_slot)) = (Inr (), sample_run_world)"
proof -
  have "fst (Run sample_rotation (sample_world (replicate 30 ok_slot))) = Inr ()" by code_simp
  then show ?thesis by (simp add: sample_run_world_def prod_eq_iff)
qed

lemma sample_world_start:
  "writer_steps [SysOk 0, SysOk 0, GenerateTick (2 * 10 ^ 9), WroteBytes 48 None] (sample_writer, empty_fs) =
    (writer (sample_world ss), files (sample_world ss))"
  by (simp add: sample_world_def split: prod.split)

lemma sample_history:
  "rotation_history sample_writer_config sample_rotation empty_fs (Inr ()) (fst sample_after) (snd sample_after)"
  by (rule history [OF sample_writer_new sample_world_start sample_Run]) (simp add: sample_after_def)

lemma sample_setup:
  "rename_setup sample_writer_config sample_rotation"
  "fresh_log (rc_ActivePath sample_rotation) empty_fs"
  by code_simp+

subsection \<open>Properties\<close>

text \<open>C1: rename and reopen (and the baseline) loses nothing and repeats nothing. The writer starts on a file system
  without log files, \<open>Run\<close> rotates beside it, and at any moment after \<open>Run\<close> has returned, with
  or without an error, the bytes of the backups in the order of their ordinals, of the active file
  and of the writer's buffer are together the records \<open>1, 2, ..., generated\<close>, each once and in order,
  as long as no call of the writer has failed. This holds for every interleaving of the two
  processes and every failure and lost request on the rotator's side.\<close>

theorem rename_reopen_loses_nothing:
  assumes "rotation_history wcfg cfg fs0 r wr fs" and "rename_setup wcfg cfg"
    and "fresh_log (rc_ActivePath cfg) fs0" and "unfailed (w_pc wr)"
  shows "\<exists>m g. int m \<le> max 0 (rc_Rotations cfg) \<and> generated wr = of_nat g \<and>
    chain_bytes fs (log_names (rc_ActivePath cfg) m) @ pending_bytes wr =
    record_stream (wc_RunID wcfg) (wc_RecordBytes wcfg) g"
proof -
  from rename_history [OF assms(1-3)] obtain m where m: "int m \<le> max 0 (rc_Rotations cfg)"
      "run_id wr = wc_RunID wcfg" "record_size wr = wc_RecordBytes wcfg"
    and inv: "go_writer.record_inv (log_names (rc_ActivePath cfg) m) [] wr fs" by blast
  then have "writer_produced wr ([] @ chain_bytes fs (log_names (rc_ActivePath cfg) m) @ pending_bytes wr)"
    using assms(4) unfolding go_writer.record_inv_def go_writer.log_inv_def by blast
  with m show ?thesis by (auto simp: writer_produced_def)
qed

theorem rename_reopen_loses_nothing_witness:
  "\<exists>m g. int m \<le> 1 \<and> of_nat g = (3 :: u64) \<and>
    chain_bytes (snd sample_after) (log_names ''envoy.log'' m) @ pending_bytes (fst sample_after) =
    record_stream ''r'' 24 g"
proof -
  have "unfailed (w_pc (fst sample_after))" by (simp add: sample_facts_after)
  from rename_reopen_loses_nothing [OF sample_history sample_setup this] show ?thesis
    by (simp add: sample_rotation_def sample_writer_config_def sample_facts_after)
qed

text \<open>C3: the report on a rename-reopen run is clean. When the writer of such a run has ended without
  an error and the active file is there (it is missing only after a rotation that failed between
  the rename and the new file), \<open>Analyze\<close>, given the paths the harness collects and the writer's
  count, finds every record exactly once, in order within each file, and nothing else.\<close>

theorem rename_reopen_clean_report:
  assumes "rotation_history wcfg cfg fs0 r wr fs" and "rename_setup wcfg cfg"
    and "fresh_log (rc_ActivePath cfg) fs0" and "w_pc wr = PcDone None"
    and "find_ino fs (rc_ActivePath cfg) \<noteq> None"
    and "scannable (wc_RunID wcfg, 0, wc_RecordBytes wcfg)"
    and "sum_list (map (\<lambda>p. length (file_bytes fs p)) (log_paths (rc_ActivePath cfg) fs)) < 2 ^ 64"
  shows "\<exists>rep. Analyze (read_log fs) (wc_RunID wcfg) (generated wr) (log_paths (rc_ActivePath cfg) fs) =
      Some (rep, None) \<and>
    ir_Malformed rep = 0 \<and> ir_WrongRunID rep = 0 \<and> ir_Missing rep = 0 \<and> ir_Duplicates rep = 0 \<and>
    ir_DescendingTransitions rep = 0 \<and> ir_ValidUnique rep = generated wr"
proof -
  from rename_history [OF assms(1-3)] obtain m where
      "run_id wr = wc_RunID wcfg" "record_size wr = wc_RecordBytes wcfg"
      "no_other_backups (rc_ActivePath cfg) m fs"
      "go_writer.record_inv (log_names (rc_ActivePath cfg) m) [] wr fs" by blast
  with record_inv_report [of "rc_ActivePath cfg" m wr fs] assms(4-) show ?thesis by simp
qed

theorem rename_reopen_clean_report_witness:
  "\<exists>rep. Analyze (read_log (snd sample_after)) ''r'' 3 [''envoy.log'', ''envoy.log.000001''] = Some (rep, None) \<and>
    ir_Missing rep = 0 \<and> ir_Duplicates rep = 0 \<and> ir_ValidUnique rep = 3"
proof -
  have names: "rc_ActivePath sample_rotation = ''envoy.log''" "wc_RunID sample_writer_config = ''r''"
      "wc_RecordBytes sample_writer_config = 24"
    by (simp_all add: sample_rotation_def sample_writer_config_def)
  show ?thesis
    using rename_reopen_clean_report [OF sample_history sample_setup sample_facts_after(1)]
      scannable_sample [of 0]
    by (auto simp: names sample_facts_after)
qed

end
