(* ===== verification/Outcome.thy ===== *)
theory Outcome
  imports Cli Delivery
begin

text \<open>
  The components together: what the harness concludes from a rotated log, and what the memory sweep
  concludes from a run of the harness in its container.
\<close>

subsection \<open>Reports are of the current schema\<close>

lemma scan_step_schema: "ir_SchemaVersion (st_report (scan_step runID t st)) = ir_SchemaVersion (st_report st)"
  by (auto simp: scan_step_def scan_record_def Let_def split: sum.split)

lemma scan_steps_schema:
  "ir_SchemaVersion (st_report (fold (scan_step runID) ts st)) = ir_SchemaVersion (st_report st)"
  by (induction ts arbitrary: st) (simp_all add: scan_step_schema)

lemma analyze_paths_schema:
  "ir_SchemaVersion (fst (analyze_paths rd runID paths r seen)) = ir_SchemaVersion r"
  by (induction paths arbitrary: r seen)
    (auto simp: Let_def scan_steps_schema split: file_read.split prod.split option.split)

lemma Analyze_schema:
  assumes "Analyze rd runID expected paths = Some (rep, e)"
  shows "ir_SchemaVersion rep = SchemaVersion"
proof -
  let ?r0 = "zero_IntegrityReport\<lparr>ir_SchemaVersion := SchemaVersion, ir_Expected := expected\<rparr>"
  obtain r seen e1 where run: "analyze_paths rd runID paths ?r0 Mapping.empty = (r, seen, e1)"
    by (cases "analyze_paths rd runID paths ?r0 Mapping.empty") auto
  then have r: "ir_SchemaVersion r = SchemaVersion"
    using analyze_paths_schema [of rd runID paths ?r0 Mapping.empty] by simp
  show ?thesis
  proof (cases e1)
    case None
    with assms run have m: "missing_loop expected seen 1 (r\<lparr>ir_ValidUnique := of_nat (Mapping.size seen)\<rparr>) = Some rep"
      by (auto simp: Analyze_def)
    then have "expected \<noteq> - 1" by (auto simp: missing_loop_None)
    with m r show ?thesis by (auto simp: missing_loop_eq Let_def)
  qed (use assms run r in \<open>simp add: Analyze_def\<close>)
qed

subsection \<open>The analyser depends on the files it is given\<close>

lemma analyze_paths_cong:
  "\<forall>p \<in> set paths. rd p = rd' p \<Longrightarrow> analyze_paths rd runID paths r seen = analyze_paths rd' runID paths r seen"
  by (induction paths arbitrary: r seen)
    (auto simp: Let_def split: file_read.split prod.split option.split)

lemma Analyze_cong:
  "\<forall>p \<in> set paths. rd p = rd' p \<Longrightarrow> Analyze rd runID expected paths = Analyze rd' runID expected paths"
  using analyze_paths_cong [of paths rd rd'] by (simp add: Analyze_def)

subsection \<open>The sweep's verdict on a run\<close>

text \<open>The process in the container is \<open>loglab run\<close>: what \<open>docker run\<close> ends with is its exit status.\<close>

definition container_exit :: "go_error option \<Rightarrow> wait_error option" where
  "container_exit err = (let code = fst (exit_status err) in if code = 0 then None else Some (ExitError code))"

definition sweep_verdict :: "Strategy \<Rightarrow> SweepAttempt \<Rightarrow> go_error option \<Rightarrow> RunSummary \<Rightarrow> string \<Rightarrow> SweepAttempt" where
  "sweep_verdict strategy a err summary out =
     (case container_exit err of
        Some e \<Rightarrow> classifyProcessFailure a (exit_code_of e) False False out
      | None \<Rightarrow> classifySummary strategy (a\<lparr>sa_ExitCode := 0\<rparr>) summary)"

lemma container_exit_cases: "container_exit None = None" "container_exit (Some e) = Some (ExitError 1)"
  by (simp_all add: container_exit_def exit_status_def)

text \<open>The sweep's own criteria in terms of the harness's.\<close>

lemma summary_criteria:
  assumes "Harness_Run env cfg l = Some ((s, None), l')" and "hc_Strategy cfg \<in> {Baseline, CopyTruncate, RenameReopen}"
  shows "rs_Success s \<Longrightarrow> functional_ok s"
    and "rs_Success s \<Longrightarrow> hc_Strategy cfg = CopyTruncate \<or> integrity_ok s \<longleftrightarrow>
      hc_Strategy cfg = CopyTruncate \<or>
      ir_WrongRunID (rs_Integrity s) = 0 \<and> ir_DescendingTransitions (rs_Integrity s) = 0"
proof -
  obtain l1 ws rep events samples where e: "evidence env cfg l1 ws rep events samples"
      and d: "describes cfg ws rep events samples s"
    using Harness_Run_summary [OF assms(1)] by blast
  have "ir_SchemaVersion rep = SchemaVersion"
    using e Analyze_schema unfolding evidence_def by blast
  with d show "rs_Success s \<Longrightarrow> functional_ok s"
    by (simp add: describes_def functional_ok_def accepts_def)
  show "rs_Success s \<Longrightarrow> hc_Strategy cfg = CopyTruncate \<or> integrity_ok s \<longleftrightarrow>
      hc_Strategy cfg = CopyTruncate \<or>
      ir_WrongRunID (rs_Integrity s) = 0 \<and> ir_DescendingTransitions (rs_Integrity s) = 0"
    using d assms(2) by (auto simp: describes_def integrity_ok_def accepts_def)
qed

lemma run_verdict:
  assumes "Harness_Run env cfg l = Some ((s, None), l1)" and "hc_Strategy cfg = strategy"
    and "strategy \<in> {Baseline, CopyTruncate, RenameReopen}" and "fresh a"
    and "v = sweep_verdict strategy a (if rs_Success s then None else Some e) s out"
  shows "(sa_Passed v \<longleftrightarrow> rs_Success s \<and> (strategy = CopyTruncate \<or>
      ir_WrongRunID (rs_Integrity s) = 0 \<and> ir_DescendingTransitions (rs_Integrity s) = 0)) \<and>
    sa_FailureKind v = (if \<not> rs_Success s then ''functional'' else if sa_Passed v then [] else ''integrity'')"
  using summary_criteria [OF assms(1)] assms(2-5)
  by (cases "rs_Success s") (auto simp: sweep_verdict_def container_exit_cases exit_code_of_def fresh_def)

subsection \<open>The harness on a rotated log\<close>

text \<open>\<open>sees env cfg wr fs w\<close>: in the world \<open>w\<close> the files are those the writer \<open>wr\<close> left: its state file,
  and the log files of \<open>fs\<close>.\<close>

definition sees :: "'w lab_env \<Rightarrow> HarnessConfig \<Rightarrow> Writer \<Rightarrow> fs \<Rightarrow> 'w \<Rightarrow> bool" where
  "sees env cfg wr fs w \<longleftrightarrow>
     (let active = path_join [hc_LogDir cfg, ''envoy.log'']
      in read_state env (path_join [hc_ResultDir cfg, ''writer-state.json'']) w = Inr (w_state wr) \<and>
         le_glob env w (active @ ''.*'') = Inr (glob_backups active fs) \<and>
         list_all (\<lambda>p. le_read_log env w p = read_log fs p) (log_paths active fs))"

lemma sees_report:
  assumes "sees env cfg wr fs (lab_world l)" and "evidence env cfg l ws rep events samples"
  shows "ws = w_state wr" and "Analyze (read_log fs) (hc_RunID cfg) (generated wr)
    (log_paths (path_join [hc_LogDir cfg, ''envoy.log'']) fs) = Some (rep, None)"
proof -
  let ?A = "path_join [hc_LogDir cfg, ''envoy.log'']" and ?w = "lab_world l"
  obtain paths where e: "read_state env (path_join [hc_ResultDir cfg, ''writer-state.json'']) ?w = Inr ws"
      "collect_paths env ?A ?w = Inr paths"
      "Analyze (le_read_log env ?w) (hc_RunID cfg) (ws_Generated ws) paths = Some (rep, None)"
    using assms(2) unfolding evidence_def by blast
  have s: "read_state env (path_join [hc_ResultDir cfg, ''writer-state.json'']) ?w = Inr (w_state wr)"
      "le_glob env ?w (?A @ ''.*'') = Inr (glob_backups ?A fs)"
      "\<forall>p \<in> set (log_paths ?A fs). le_read_log env ?w p = read_log fs p"
    using assms(1) by (auto simp: sees_def Let_def list_all_iff)
  show ws: "ws = w_state wr" using e(1) s(1) by simp
  have "paths = log_paths ?A fs" using e(2) s(2) by (simp add: collect_paths_def log_paths_def)
  then show "Analyze (read_log fs) (hc_RunID cfg) (generated wr) (log_paths ?A fs) = Some (rep, None)"
    using e(3) Analyze_cong [OF s(3)] by (simp add: ws)
qed

lemma rename_run_report:
  assumes "rotation_history wcfg rcfg fs0 r wr fs" and "rename_setup wcfg rcfg"
    and "fresh_log (rc_ActivePath rcfg) fs0" and "w_pc wr = PcDone None"
    and "find_ino fs (rc_ActivePath rcfg) \<noteq> None"
    and "scannable (wc_RunID wcfg, 0, wc_RecordBytes wcfg)"
    and "sum_list (map (\<lambda>p. length (file_bytes fs p)) (log_paths (rc_ActivePath rcfg) fs)) < 2 ^ 64"
  shows "\<exists>rep. Analyze (read_log fs) (wc_RunID wcfg) (generated wr) (log_paths (rc_ActivePath rcfg) fs) =
      Some (rep, None) \<and>
    ir_Malformed rep = 0 \<and> ir_WrongRunID rep = 0 \<and> ir_Missing rep = 0 \<and> ir_Duplicates rep = 0 \<and>
    ir_DescendingTransitions rep = 0 \<and> ir_ValidUnique rep = generated wr"
proof -
  from rename_history [OF assms(1-3)] obtain m where
      "run_id wr = wc_RunID wcfg" "record_size wr = wc_RecordBytes wcfg"
      "no_other_backups (rc_ActivePath rcfg) m fs"
      "go_writer.record_inv (log_names (rc_ActivePath rcfg) m) [] wr fs" by blast
  with record_inv_report [of "rc_ActivePath rcfg" m wr fs] assms(4-) show ?thesis by simp
qed

subsection \<open>A concrete harness run on a rotated log\<close>

text \<open>Before the third child has been waited for, there are no files.\<close>

definition rotated_lab :: "nat lab_env" where
  "rotated_lab = (sample_lab (w_state (fst sample_after)) [])
     \<lparr>le_glob := \<lambda>w p. if w < 3 then Inr [] else Inr (glob_backups ''envoy.log'' (snd sample_after)),
      le_read_log := \<lambda>w p. if w < 3 then OpenError (PathError ''open'' p ENOENT)
        else read_log (snd sample_after) p\<rparr>"

definition rotated_experiment :: HarnessConfig where
  "rotated_experiment = sample_experiment\<lparr>hc_LogDir := ''.''\<rparr>"

lemma rotated_active: "path_join [''.'', ''envoy.log''] = ''envoy.log''"
  by code_simp

lemma rotated_lab_fields:
  "le_now rotated_lab w = (0, w)" "le_mkdir_all rotated_lab p w = (None, w)"
  "le_listen rotated_lab w = (Inr ''127.0.0.1:9'', w)" "le_close_listener rotated_lab w = (None, w)"
  "le_create rotated_lab p w = (None, w)" "le_start rotated_lab c exe args p w = (None, w)"
  "le_race rotated_lab c t w = (True, w)" "le_wait rotated_lab c w = (None, Suc w)"
  "le_terminate rotated_lab c w = w"
  "le_polls rotated_lab url ns w = ([\<lparr>po_response = Inr (200, []), po_done = False\<rparr>], w)"
  "le_read_file rotated_lab 3 p = Inr []" "le_json_state rotated_lab b = Inr (w_state (fst sample_after))"
  "le_glob rotated_lab 3 p = Inr (glob_backups ''envoy.log'' (snd sample_after))"
  "le_read_log rotated_lab 3 = read_log (snd sample_after)" "le_write_json rotated_lab p v w = (None, w)"
  by (simp_all add: rotated_lab_def)

lemma rotated_experiment_fields:
  "hc_Executable rotated_experiment = ''loglab''" "hc_WriterExecutable rotated_experiment = []"
  "hc_RunID rotated_experiment = ''r''" "hc_LogDir rotated_experiment = ''.''"
  "hc_Strategy rotated_experiment = RenameReopen"
  "hc_EnableMonitor rotated_experiment" "valid_harness_config rotated_experiment"
  by (simp_all add: rotated_experiment_def valid_harness_config_def sample_experiment_def)

lemma rotated_sees: "sees rotated_lab rotated_experiment (fst sample_after) (snd sample_after) (lab_world sample_lab_end)"
  by (simp add: sees_def rotated_lab_fields rotated_experiment_fields rotated_active read_state_def Let_def
      list_all_iff sample_lab_end_def)

lemma rotated_children:
  "run_children rotated_lab rotated_experiment a st e sa li start sample_start = (Inr (), sample_lab_end)"
  by (simp add: run_children_def writerInvocation_def startChild_def on_world_def waitHTTP_def
      start_monitor_def finish_children_def waitCommand_def reap_def waitReopens_def stopChild_def
      stop_result_def first_child_error_def sample_lab_end_def numeral_3_eq_3 rotated_lab_fields
      rotated_experiment_fields split: prod.split)

lemma sample_start_same: "sample_start\<lparr>lab_world := 0\<rparr> = sample_start"
  by (simp add: sample_start_def)

lemma rotated_ended: "children_ended rotated_lab rotated_experiment sample_start sample_lab_end"
  by (simp add: children_ended_def on_world_def make_dirs_def freeLoopbackAddress_def rotated_lab_fields
      rotated_experiment_fields sample_start_same rotated_children)

lemma rotated_run:
  assumes "Analyze (read_log (snd sample_after)) ''r'' (generated (fst sample_after))
      (log_paths ''envoy.log'' (snd sample_after)) = Some (rep, None)"
  shows "\<exists>s l. Harness_Run rotated_lab rotated_experiment sample_start = Some ((s, None), l)"
proof -
  have "\<exists>s l'. collect rotated_lab rotated_experiment ''envoy.log'' st e sa start sample_lab_end = Some ((s, None), l')"
    for st e sa start
    using assms by (simp add: collect_def read_state_def collect_paths_def write_summary_def sample_lab_end_def
        on_world_def read_tables_def read_empty_tables Let_def rotated_lab_fields rotated_experiment_fields
        log_paths_def)
  then show ?thesis
    by (simp add: Harness_Run_def on_world_def make_dirs_def freeLoopbackAddress_def rotated_lab_fields
        rotated_experiment_fields rotated_active rotated_children sample_start_same Let_def)
qed

subsection \<open>Properties\<close>

text \<open>C4: a rename-reopen experiment is accepted. If the harness's children were a writer and a
  rotator as in \<open>rename_reopen_clean_report\<close> (any interleaving, any failing call of the rotator),
  the writer ended well with no failed reopen, and when all children have been waited for (in the
  state \<open>l1\<close>; nothing is asked of earlier states) the files are those this writer and rotator left,
  then a run that returns a summary is a success, and its integrity report finds every generated
  record exactly once and nothing else.\<close>

theorem rename_run_accepted:
  assumes "rotation_history wcfg rcfg fs0 r wr fs" and "rename_setup wcfg rcfg"
    and "fresh_log (rc_ActivePath rcfg) fs0" and "w_pc wr = PcDone None"
    and "find_ino fs (rc_ActivePath rcfg) \<noteq> None"
    and "scannable (wc_RunID wcfg, 0, wc_RecordBytes wcfg)"
    and "sum_list (map (\<lambda>p. length (file_bytes fs p)) (log_paths (rc_ActivePath rcfg) fs)) < 2 ^ 64"
    and "ws_ReopenFailures (w_state wr) = 0"
    and "hc_RunID cfg = wc_RunID wcfg" and "path_join [hc_LogDir cfg, ''envoy.log''] = rc_ActivePath rcfg"
    and "children_ended env cfg l l1" and "sees env cfg wr fs (lab_world l1)"
    and "Harness_Run env cfg l = Some ((s, None), l')"
  shows "rs_Success s \<and> rs_Writer s = w_state wr \<and> ir_ValidUnique (rs_Integrity s) = generated wr \<and>
    ir_Missing (rs_Integrity s) = 0 \<and> ir_Duplicates (rs_Integrity s) = 0 \<and>
    ir_Malformed (rs_Integrity s) = 0 \<and> ir_WrongRunID (rs_Integrity s) = 0 \<and>
    ir_DescendingTransitions (rs_Integrity s) = 0"
proof -
  obtain l2 ws rep events samples where e: "evidence env cfg l2 ws rep events samples"
      and d: "describes cfg ws rep events samples s" and l2: "children_ended env cfg l l2"
    using Harness_Run_summary [OF assms(13)] by blast
  note sees = sees_report [OF assms(12) e [folded children_ended_unique [OF assms(11) l2]]]
  from rename_run_report [OF assms(1-7)] sees(2)
  have "ir_Malformed rep = 0 \<and> ir_WrongRunID rep = 0 \<and> ir_Missing rep = 0 \<and> ir_Duplicates rep = 0 \<and>
    ir_DescendingTransitions rep = 0 \<and> ir_ValidUnique rep = generated wr"
    by (auto simp: assms(9,10))
  with d sees(1) assms(8) show ?thesis by (simp add: describes_def accepts_def)
qed

theorem rename_run_accepted_witness:
  "\<exists>s l. Harness_Run rotated_lab rotated_experiment sample_start = Some ((s, None), l) \<and> rs_Success s \<and>
     ir_ValidUnique (rs_Integrity s) = 3 \<and> ir_Missing (rs_Integrity s) = 0"
proof -
  have names: "rc_ActivePath sample_rotation = ''envoy.log''" "wc_RunID sample_writer_config = ''r''"
      "wc_RecordBytes sample_writer_config = 24" "hc_RunID rotated_experiment = ''r''"
      "hc_LogDir rotated_experiment = ''.''"
    by (simp_all add: sample_rotation_def sample_writer_config_def rotated_experiment_def)
  have pre: "find_ino (snd sample_after) (rc_ActivePath sample_rotation) \<noteq> None"
      "scannable (wc_RunID sample_writer_config, 0, wc_RecordBytes sample_writer_config)"
      "sum_list (map (\<lambda>p. length (file_bytes (snd sample_after) p))
        (log_paths (rc_ActivePath sample_rotation) (snd sample_after))) < 2 ^ 64"
    using scannable_sample [of 0] by (simp_all add: names sample_facts_after)
  have failures: "ws_ReopenFailures (w_state (fst sample_after)) = 0" by code_simp
  obtain rep where "Analyze (read_log (snd sample_after)) ''r'' (generated (fst sample_after))
      (log_paths ''envoy.log'' (snd sample_after)) = Some (rep, None)"
    using rename_run_report [OF sample_history sample_setup sample_facts_after(1) pre] by (auto simp: names)
  from rotated_run [OF this] obtain s l where
      run: "Harness_Run rotated_lab rotated_experiment sample_start = Some ((s, None), l)" by blast
  from rename_run_accepted [OF sample_history sample_setup sample_facts_after(1) pre failures _ _ rotated_ended
      rotated_sees run] run
  show ?thesis by (auto simp: names rotated_active sample_facts_after(2))
qed

text \<open>C13: the sweep's verdict on a run. When \<open>run\<close> in the container has produced a summary, the sweep
  counts the attempt as passed exactly when the harness accepted the run and, except for
  copytruncate, no record of another run and no descending step was found: criteria the harness
  itself does not apply. A run the harness rejects, because records were lost, duplicated or
  malformed or a reopen failed, exits with 1 and is always a "functional" failure; the kind
  "integrity" is left for the two criteria the harness ignores.\<close>

theorem sweep_verdict_on_run:
  assumes "parse_flags run_flags args defaults = Inr opts"
    and "Harness_Run env ((run_config opts)\<lparr>hc_Executable := exe\<rparr>) l = Some ((s, None), l1)"
    and "on_world (print s) l1 = (None, l2)"
    and "ru_strategy opts = strategy" and "strategy \<in> {Baseline, CopyTruncate, RenameReopen}" and "fresh a"
  shows "\<exists>err. runCommand env print (Inr exe) defaults args l = Some (err, l2) \<and>
    (let v = sweep_verdict strategy a err s out
     in (sa_Passed v \<longleftrightarrow> rs_Success s \<and> (strategy = CopyTruncate \<or>
           ir_WrongRunID (rs_Integrity s) = 0 \<and> ir_DescendingTransitions (rs_Integrity s) = 0)) \<and>
        sa_FailureKind v = (if \<not> rs_Success s then ''functional'' else if sa_Passed v then [] else ''integrity''))"
proof -
  let ?err = "if rs_Success s then None else Some (ErrText ''run acceptance failed'')"
  have "runCommand env print (Inr exe) defaults args l = Some (?err, l2)"
    using assms(1-3) by (simp add: runCommand_def)
  moreover have "hc_Strategy ((run_config opts)\<lparr>hc_Executable := exe\<rparr>) = strategy"
    using assms(4) by (simp add: run_config_def)
  from run_verdict [OF assms(2) this assms(5,6) refl, of "ErrText ''run acceptance failed''" out]
  have "let v = sweep_verdict strategy a ?err s out
     in (sa_Passed v \<longleftrightarrow> rs_Success s \<and> (strategy = CopyTruncate \<or>
           ir_WrongRunID (rs_Integrity s) = 0 \<and> ir_DescendingTransitions (rs_Integrity s) = 0)) \<and>
        sa_FailureKind v = (if \<not> rs_Success s then ''functional'' else if sa_Passed v then [] else ''integrity'')"
    by (simp only: Let_def)
  ultimately show ?thesis by blast
qed

text \<open>A run whose log holds record 2 before record 1: the harness accepts it, the sweep does not.\<close>

definition sample_run_args :: "string list" where
  "sample_run_args =
     [''--run-id'', ''r'', ''--strategy'', RenameReopen, ''--log-dir'', ''/log'', ''--result-dir'', ''/res'',
      ''--max-file-bytes'', format_int 48, ''--rotations'', format_int 1, ''--record-bytes'', format_int 24,
      ''--bytes-per-second'', format_int 24, ''--buffer-bytes'', format_int 64,
      ''--flush-interval'', duration_string 1000000, ''--monitor-interval'', duration_string 1000000,
      ''--resident-bytes'', format_int 0]"

lemma sample_run_parsed:
  "\<exists>opts. parse_flags run_flags sample_run_args (run_defaults 0 []) = Inr opts \<and>
    (run_config opts)\<lparr>hc_Executable := ''loglab''\<rparr> = sample_experiment \<and> ru_strategy opts = RenameReopen"
proof -
  have "in_int64 48" "in_int64 1" "in_int64 24" "in_int64 64" "in_int64 1000000" "in_int64 0"
    by (simp_all add: in_int64_def)
  then show ?thesis
    by (simp add: sample_run_args_def flag_steps flag_name_def run_flags_def run_defaults_def
        run_config_def sample_experiment_def)
qed

theorem sweep_verdict_on_run_witness:
  "\<exists>s l. runCommand (sample_lab (zero_WriterState\<lparr>ws_Generated := 2\<rparr>) [2, 1]) (\<lambda>s w. (None, w)) (Inr ''loglab'')
      (run_defaults 0 []) sample_run_args sample_start = Some (None, l) \<and> rs_Success s \<and>
    sa_FailureKind (sweep_verdict RenameReopen zero_SweepAttempt None s []) = ''integrity''"
proof -
  let ?rd = "sample_rd [2, 1]" and ?ps = "[''/log/envoy.log'']" and ?ws = "zero_WriterState\<lparr>ws_Generated := 2\<rparr>"
  have ms: "missing_list 2 (set [2, 1]) = []" by (simp add: missing_list_def upt_rec)
  have "all_descents ?rd ''r'' ?ps = 1"
    using sample_facts(3) [of "[2, 1]" "''/log/envoy.log''"] by (simp add: all_descents_def all_seqs_def)
  moreover have "filter is_malformed (all_tokens ?rd ?ps) = []"
    by (simp add: sample_facts line_seq_record [OF scannable_sample])
  moreover have "\<forall>p \<in> set ?ps. file_clean ?rd p" "length (all_tokens ?rd ?ps) < 2 ^ 64"
    by (simp_all add: sample_facts)
  moreover have "all_seqs ?rd ''r'' ?ps = [2, 1]" by (rule sample_facts(3))
  moreover have "(2 :: u64) \<noteq> - 1" by simp
  ultimately obtain rep wrong where rep: "Analyze ?rd ''r'' 2 ?ps = Some (rep, None)"
      and c: "counts_are rep (Suc (Suc 0)) 0 0 0 wrong (Suc 0)"
    using Analyze_clean [of ?ps ?rd 2 "''r''"] ms by auto
  then have zero: "ir_Missing rep = 0" "ir_Duplicates rep = 0" "ir_Malformed rep = 0"
    by (simp_all add: counts_are_def unat_eq_zero)
  have "unat (ir_DescendingTransitions rep) = unat (1 :: u64)" using c by (simp add: counts_are_def)
  then have one: "ir_DescendingTransitions rep = 1" by (rule word_unat_eq_iff [THEN iffD2])
  obtain s where run: "Harness_Run (sample_lab ?ws [2, 1]) sample_experiment sample_start =
        Some ((s, None), sample_lab_end)"
      and d: "describes sample_experiment ?ws rep [] [] s"
    using sample_lab_run [of "[2, 1]" ?ws rep] rep by auto
  have ok: "rs_Success s" "ir_DescendingTransitions (rs_Integrity s) = 1"
    using d zero one by (simp_all add: describes_def accepts_def zero_WriterState_def)
  obtain opts where o: "parse_flags run_flags sample_run_args (run_defaults 0 []) = Inr opts"
      "(run_config opts)\<lparr>hc_Executable := ''loglab''\<rparr> = sample_experiment" "ru_strategy opts = RenameReopen"
    using sample_run_parsed by blast
  have "fresh zero_SweepAttempt" by (simp add: fresh_def zero_SweepAttempt_def)
  from sweep_verdict_on_run [OF o(1) _ _ o(3) _ this, of "sample_lab ?ws [2, 1]" "''loglab''" sample_start s
      sample_lab_end "\<lambda>s w. (None, w)" _ "[]"] run o(2)
  show ?thesis
    using ok by (auto simp: on_world_def Let_def runCommand_def o(1))
qed

end
