(* ===== verification/CopyGaps.thy ===== *)
theory CopyGaps
  imports Delivery "HOL-Library.Sublist"
begin

text \<open>
  Copytruncate beside a running writer. The log file's inode stays the same, so the writer goes on
  appending to it while it is copied; what it appends between the copier's last read and the
  truncation is lost. The lemmas say that nothing else is: the backups, the gaps after each of
  them, the active file and the writer's buffer are the record stream, and each gap is bounded by
  what the writer wrote in the slots of the schedule between these two calls. \<open>paid\<close> is the account:
  a program of few calls lets a file grow by no more than the slots it uses up say.
\<close>

subsection \<open>The log only grows\<close>

context log_appender
begin

lemma step_grows:
  assumes "log_inv ps pre w fs" and "step e (w, fs) = (w', fs')"
  shows "Sublist.prefix (chain fs ps) (chain fs' ps)"
    and "Sublist.prefix (chain_bytes fs ps) (chain_bytes fs' ps)"
proof -
  note i = assms(1) [unfolded log_inv_def]
  have ps: "butlast ps @ [path_of w] = ps" and wf: "fs_wf fs" and d: "distinct ps"
    using i append_butlast_last_id [of ps] by auto
  from step_effect [OF assms(2)] consider
    (appends) s where "fs' = append_to (file_of w) s fs"
  | (opens) j where "fs_open_create (path_of w) fs = (Inr j, fs')" by blast
  then have "Sublist.prefix (chain fs ps) (chain fs' ps) \<and>
      Sublist.prefix (chain_bytes fs ps) (chain_bytes fs' ps)"
  proof cases
    case appends
    show ?thesis
    proof (cases "file_of w")
      case (Some j)
      then have "tail_file fs ps j" using i by blast
      from append_tail(2) [OF this wf d] Some appends show ?thesis by (simp add: append_to_def)
    qed (simp add: appends append_to_def)
  next
    case opens
    have d': "distinct (butlast ps @ [path_of w])" using d by (simp add: ps)
    from opens show ?thesis
    proof (cases rule: open_create_cases)
      case 2
      from chain_bytes_create [OF wf 2(1) d'] 2(2) show ?thesis by (simp add: ps)
    qed simp
  qed
  then show "Sublist.prefix (chain fs ps) (chain fs' ps)"
    "Sublist.prefix (chain_bytes fs ps) (chain_bytes fs' ps)" by simp_all
qed

text \<open>\<open>grown\<close>: the log invariant, and that at least the files \<open>ch\<close> and the bytes \<open>old\<close> are there.\<close>

definition grown :: "ino list \<Rightarrow> string \<Rightarrow> string list \<Rightarrow> string \<Rightarrow> 'w \<Rightarrow> fs \<Rightarrow> bool" where
  "grown ch old ps pre w fs \<longleftrightarrow> log_inv ps pre w fs \<and> Sublist.prefix ch (chain fs ps) \<and>
     Sublist.prefix old (chain_bytes fs ps)"

lemma grown_steps:
  assumes "grown ch old ps pre w fs" and "fold step es (w, fs) = (w', fs')"
  shows "grown ch old ps pre w' fs' \<and> others_kept ps fs fs'"
  using assms
proof (induction es arbitrary: w fs)
  case (Cons e es)
  obtain w1 fs1 where s: "step e (w, fs) = (w1, fs1)" by fastforce
  have i: "log_inv ps pre w fs" "Sublist.prefix ch (chain fs ps)" "Sublist.prefix old (chain_bytes fs ps)"
    using Cons.prems(1) by (simp_all add: grown_def)
  have "grown ch old ps pre w1 fs1"
    using step_keeps(1) [OF i(1) s] prefix_order.trans [OF i(2) step_grows(1) [OF i(1) s]]
      prefix_order.trans [OF i(3) step_grows(2) [OF i(1) s]] by (simp add: grown_def)
  moreover have "fold step es (w1, fs1) = (w', fs')" using Cons.prems(2) s by simp
  ultimately have "grown ch old ps pre w' fs' \<and> others_kept ps fs1 fs'" by (rule Cons.IH)
  with step_keeps(2) [OF i(1) s] show ?case using others_kept_trans by blast
qed simp

lemma grown_cong:
  assumes "grown ch old ps pre w fs" and "fs_wf fs'" and "chain fs' ps = chain fs ps"
    and "\<And>j. j \<in> set (chain fs ps) \<Longrightarrow> contents fs' j = contents fs j"
  shows "grown ch old ps pre w fs'"
  using assms log_inv_cong [of ps pre w fs fs' ps] chain_bytes_cong [OF assms(3,4)]
  by (auto simp: grown_def log_inv_def)

lemma grown_append_other:
  assumes "grown ch old ps pre w fs" and "p \<notin> set ps" and "find_ino fs p = Some f"
  shows "grown ch old ps pre w (fs_append f s fs)"
  using assms chain_notin [of fs p ps f]
  by (intro grown_cong [OF assms(1)]) (auto simp: grown_def log_inv_def)

lemma grown_create_other:
  assumes "grown ch old ps pre w fs" and "p \<notin> set ps" and "find_ino fs p = None"
  shows "grown ch old ps pre w (snd (fs_create p fs))"
  by (rule grown_cong [OF assms(1)])
    (use assms in \<open>auto simp: grown_def log_inv_def fs_wf_create chain_create_other chain_old\<close>)

end

interpretation writer_grown:
  log_keeper "\<lambda>ps w fs. go_writer.grown ch old ps pre w fs \<and> w_cfg w = c" for ch old pre c
proof
  show "go_writer.grown ch old ps pre w fs \<and> w_cfg w = c \<Longrightarrow> writer_steps evs (w, fs) = (w', fs') \<Longrightarrow>
      (go_writer.grown ch old ps pre w' fs' \<and> w_cfg w' = c) \<and> others_kept ps fs fs'" for ps w fs evs w' fs'
    using go_writer.grown_steps [of ch old ps pre w fs evs w' fs'] writer_steps_cfg [of evs w fs w' fs']
    by (simp add: writer_steps_def)
qed (simp_all add: go_writer.grown_append_other go_writer.grown_create_other,
  simp_all add: go_writer.grown_def log_inv_flag, simp add: go_writer.log_inv_def)

subsection \<open>One rotation\<close>

text \<open>The log is the single file \<open>A\<close>, inode \<open>src\<close>.\<close>

definition one_log :: "string \<Rightarrow> string \<Rightarrow> WriterConfig \<Rightarrow> ino \<Rightarrow> world \<Rightarrow> bool" where
  "one_log A pre c src w \<longleftrightarrow> go_writer.log_inv [A] pre (writer w) (files w) \<and>
     w_cfg (writer w) = c \<and> find_ino (files w) A = Some src"

lemma one_log_grown:
  "one_log A pre c src w \<Longrightarrow>
   go_writer.grown [src] (contents (files w) src) [A] pre (writer w) (files w) \<and> w_cfg (writer w) = c"
  by (simp add: one_log_def go_writer.grown_def chain_bytes_single file_bytes_def)

lemma grown_one_log:
  assumes "go_writer.grown [src] old [A] pre (writer w) (files w) \<and> w_cfg (writer w) = c"
  shows "one_log A pre c src w" and "Sublist.prefix old (contents (files w) src)"
proof -
  have "find_ino (files w) A = Some src"
    using assms by (auto simp: go_writer.grown_def split: option.splits)
  with assms show "one_log A pre c src w" "Sublist.prefix old (contents (files w) src)"
    by (simp_all add: one_log_def go_writer.grown_def chain_bytes_single file_bytes_def)
qed

lemma one_log_safe:
  assumes "\<And>ch old. writer_grown.safe ch old pre c [A] qs m" and "one_log A pre c src w"
    and "m w = (r, w')"
  shows "one_log A pre c src w'" and "others_kept qs (files w) (files w')"
    and "Sublist.prefix (contents (files w) src) (contents (files w') src)"
  using writer_grown.safeD [OF assms(1) one_log_grown [OF assms(2)] assms(3)] grown_one_log
  by blast+

lemma slot_one_log:
  assumes "take_slot w = (s, w')" and "one_log A pre c src w"
  shows "one_log A pre c src w'" and "others_kept [A] (files w) (files w')"
    and "Sublist.prefix (contents (files w) src) (contents (files w') src)"
  using writer_grown.slot_keeps [OF assms(1) one_log_grown [OF assms(2)]] grown_one_log by blast+

text \<open>\<open>copied_part\<close>: the backup \<open>B\<close>, inode \<open>dst\<close>, holds a prefix of the log.\<close>

definition copied_part :: "string \<Rightarrow> ino \<Rightarrow> ino \<Rightarrow> world \<Rightarrow> bool" where
  "copied_part B dst src w \<longleftrightarrow> find_ino (files w) B = Some dst \<and>
     Sublist.prefix (contents (files w) dst) (contents (files w) src)"

lemma copied_part_keep:
  assumes "copied_part B dst src w" and "others_kept qs (files w) (files w')" and "B \<notin> set qs"
    and "Sublist.prefix (contents (files w) src) (contents (files w') src)"
  shows "copied_part B dst src w'" and "contents (files w') dst = contents (files w) dst"
  using assms prefix_order.trans by (auto simp: copied_part_def others_kept_def)

lemma write_result:
  assumes "sys_write i d w = (r, w')"
  obtains s w1 d' where "take_slot w = (s, w1)" "w' = w1\<lparr>files := fs_append i d' (files w1)\<rparr>"
    "Sublist.prefix d' d" "r = Inr () \<Longrightarrow> d' = d"
proof -
  obtain s w1 where s: "take_slot w = (s, w1)" by fastforce
  show ?thesis
  proof (cases "sl_fault s")
    case None
    with assms s that [OF s, of d] show ?thesis by (simp add: sys_write_def)
  next
    case (Some e)
    with assms s that [OF s, of "take (sl_count s) d"] show ?thesis
      by (auto simp: sys_write_def take_is_prefix)
  qed
qed

lemma read_result:
  assumes "sys_read i pos w = (Inr data, w')"
  shows "Sublist.prefix data (drop pos (contents (files w') i))"
  using assms take_is_prefix by (auto simp: sys_read_def split: prod.splits option.splits)

subsection \<open>What a stretch of the schedule lets the writer add\<close>

text \<open>\<open>bytes_written ss\<close>: what the writer's calls of \<open>Write\<close> in the slots \<open>ss\<close> return as stored, all
  together. \<open>paid src k w w'\<close>: at most \<open>k\<close> slots lie between \<open>w\<close> and \<open>w'\<close>, and the file \<open>src\<close> has grown by
  no more than what the writer wrote in them.\<close>

definition written_by :: "writer_event \<Rightarrow> nat" where
  "written_by ev = (case ev of WroteBytes n e \<Rightarrow> n | _ \<Rightarrow> 0)"

definition bytes_written :: "slot list \<Rightarrow> nat" where
  "bytes_written ss = sum_list (map written_by (concat (map sl_events ss)))"

lemma bytes_written_simps [simp]:
  "bytes_written [] = 0" "bytes_written (ss @ ts) = bytes_written ss + bytes_written ts"
  "bytes_written (s # ss) = sum_list (map written_by (sl_events s)) + bytes_written ss"
  by (simp_all add: bytes_written_def)

definition paid :: "ino \<Rightarrow> nat \<Rightarrow> world \<Rightarrow> world \<Rightarrow> bool" where
  "paid src k w w' \<longleftrightarrow> (\<exists>v. sched w = v @ sched w' \<and> length v \<le> k \<and>
     length (contents (files w') src) \<le> length (contents (files w) src) + bytes_written v)"

lemma paid_same [simp]: "paid src k w w"
  unfolding paid_def by (intro exI [of _ "[]"]) simp

lemma paid_files:
  "paid src k w w' \<Longrightarrow> length (contents fs src) \<le> length (contents (files w') src) \<Longrightarrow>
   paid src k w (w'\<lparr>files := fs\<rparr>)"
  unfolding paid_def using order_trans by fastforce

lemma paid_trans:
  assumes "paid src j u v" and "paid src k v w" and "j + k \<le> n"
  shows "paid src n u w"
proof -
  from assms(1) obtain a where "sched u = a @ sched v" "length a \<le> j"
    "length (contents (files v) src) \<le> length (contents (files u) src) + bytes_written a"
    by (auto simp: paid_def)
  moreover from assms(2) obtain b where "sched v = b @ sched w" "length b \<le> k"
    "length (contents (files w) src) \<le> length (contents (files v) src) + bytes_written b"
    by (auto simp: paid_def)
  ultimately show ?thesis
    using assms(3) unfolding paid_def by (intro exI [of _ "a @ b"]) simp
qed

lemma paid_mono: "paid src j u v \<Longrightarrow> j \<le> n \<Longrightarrow> paid src n u v"
  by (rule paid_trans [OF _ paid_same [of src 0]]) simp_all

lemma open_log_grows: "open_log (wr, fs) = (wr', fs') \<Longrightarrow> length (contents fs' i) \<le> length (contents fs i)"
  by (auto simp: open_log_def fs_open_create_def fs_create_def split: option.splits)

lemma write_step_grows:
  "length (contents (snd (write_step k ret n e (wr, fs))) i) \<le> length (contents fs i) + n"
  by (auto simp: write_step_def Let_def split: option.split)

lemma writer_step_grows:
  "length (contents (snd (writer_step ev (wr, fs))) i) \<le> length (contents fs i) + written_by ev"
proof (cases "ev = PostReopen")
  case False
  have "length (contents (snd (system_step ev (wr, fs))) i) \<le> length (contents fs i) + written_by ev"
    using open_log_grows [of wr fs _ _ i] write_step_grows [of _ _ _ _ wr fs i]
    by (cases "w_pc wr"; cases ev)
      (auto simp: system_step_def written_by_def split: prod.split)
  with False show ?thesis by (cases ev) (simp_all add: writer_step_def)
qed (simp add: writer_step_def)

lemma writer_steps_grow:
  assumes "writer_steps evs (wr, fs) = (wr', fs')"
  shows "length (contents fs' i) \<le> length (contents fs i) + sum_list (map written_by evs)"
  using assms
proof (induction evs arbitrary: wr fs)
  case (Cons ev evs)
  obtain wr1 fs1 where s: "writer_step ev (wr, fs) = (wr1, fs1)" by fastforce
  with Cons.prems have "writer_steps evs (wr1, fs1) = (wr', fs')" by (simp add: writer_steps_def)
  from Cons.IH [OF this] writer_step_grows [of ev wr fs i] s show ?case by simp
qed (simp add: writer_steps_def)

lemma slot_paid: "take_slot w = (s, w') \<Longrightarrow> paid src 1 w w'"
proof (cases "sched w")
  case (Cons t ts)
  assume a: "take_slot w = (s, w')"
  obtain wr fs where e: "writer_steps (sl_events t) (writer w, files w) = (wr, fs)" by fastforce
  with a Cons have "sched w' = ts" "files w' = fs"
    by (auto simp: take_slot_def run_events_def)
  with Cons writer_steps_grow [OF e] show ?thesis
    unfolding paid_def by (intro exI [of _ "[t]"]) simp
qed (simp add: take_slot_def)

lemma syscall_paid:
  assumes "syscall mk f w = (r, w')" and "\<And>fs. length (contents (snd (f fs)) src) \<le> length (contents fs src)"
  shows "paid src 1 w w'"
proof -
  obtain s w1 where s: "take_slot w = (s, w1)" by fastforce
  have "w' = w1 \<or> w' = w1\<lparr>files := snd (f (files w1))\<rparr>"
    using assms(1) by (auto simp: syscall_def s split: option.splits prod.splits sum.splits)
  with slot_paid [OF s, of src] assms(2) paid_files show ?thesis by auto
qed

lemma calls_paid:
  "sys_quiet op p w = (r, w') \<Longrightarrow> paid src 1 w w'"
  "sys_open_append p w = (q, w') \<Longrightarrow> paid src 1 w w'"
  unfolding sys_quiet_def sys_open_append_def
  by (rule syscall_paid, assumption, simp add: fs_open_create_def fs_create_def split: option.split)+

lemma now_paid: "sys_now w = (t, w') \<Longrightarrow> paid src 1 w w'"
  by (auto simp: sys_now_def dest: slot_paid split: prod.splits)

lemma fstat_paid: "sys_fstat i w = (n, w') \<Longrightarrow> paid src 1 w w'"
  by (auto simp: sys_fstat_def dest: slot_paid split: prod.splits option.splits)

lemma write_paid:
  assumes "sys_write f d w = (r, w')" and "f \<noteq> src"
  shows "paid src 1 w w'"
proof -
  obtain s w1 d' where s: "take_slot w = (s, w1)" and "w' = w1\<lparr>files := fs_append f d' (files w1)\<rparr>"
    using write_result [OF assms(1)] by metis
  with paid_files [OF slot_paid [OF s]] assms(2) show ?thesis by simp
qed

lemma appendEvent_paid:
  assumes l: "one_log A pre c src w" and ev: "rc_EventPath cfg \<noteq> A"
    and t: "appendEvent cfg ev w = (r, w')"
  shows "paid src 6 w w'"
proof (cases "rc_EventPath cfg = []")
  case True
  with t show ?thesis by (simp add: appendEvent_def)
next
  case False
  let ?p = "rc_EventPath cfg"
  have p: "?p \<notin> set [A]" using ev by simp
  obtain st w1 where 1: "start_time (rc_StartTime cfg) w = (st, w1)" by fastforce
  have k1: "one_log A pre c src w1 \<and> paid src 1 w w1"
    using 1 l one_log_safe(1) [OF writer_grown.safe_now l] now_paid
    by (auto simp: start_time_def split: option.splits prod.splits)
  obtain n w2 where 2: "sys_now w1 = (n, w2)" by fastforce
  obtain r3 w3 where 3: "sys_quiet ''mkdir'' (path_dir ?p) w2 = (r3, w3)" by fastforce
  obtain r4 w4 where 4: "sys_open_append ?p w3 = (r4, w4)" by fastforce
  note k2 = one_log_safe(1) [OF writer_grown.safe_now conjunct1 [OF k1] 2]
  note k3 = one_log_safe(1) [OF writer_grown.safe_calls(3) k2 3]
  note k4 = writer_grown.open_append_keeps [OF one_log_grown [OF k3] p 4]
  have l4: "one_log A pre c src w4" using k4 grown_one_log(1) by blast
  note p2 = paid_trans [OF conjunct2 [OF k1] now_paid [OF 2], where n = 2, simplified]
  note p3 = paid_trans [OF p2 calls_paid(1) [OF 3], where n = 3, simplified]
  note p4 = paid_trans [OF p3 calls_paid(2) [OF 4], where n = 4, simplified]
  show ?thesis
  proof (cases r3)
    case (Inl e)
    with t False 1 2 3 have "w' = w3" by (simp add: appendEvent_def try_io_def)
    with paid_mono [OF p3] show ?thesis by simp
  next
    case (Inr u)
    show ?thesis
    proof (cases r4)
      case (Inl e)
      with \<open>r3 = Inr u\<close> t False 1 2 3 4 have "w' = w4" by (simp add: appendEvent_def try_io_def)
      with paid_mono [OF p4] show ?thesis by simp
    next
      case (Inr f)
      with \<open>r3 = Inr u\<close> t False 1 2 3 4 have e: "write_event (stamp_event st n ev) f w4 = (r, w')"
        by (simp add: appendEvent_def try_io_def)
      obtain m w5 where 5: "sys_fstat f w4 = (m, w5)" by fastforce
      obtain d where 6: "sys_write f d w5 = (r, w')"
        using e by (auto simp: write_event_def 5 split: sum.splits nat.splits)
      have "f \<noteq> src"
        using k4 Inr find_ino_inj [of "files w4" ?p f A] ev l4
        by (auto simp: one_log_def go_writer.log_inv_def)
      note p6 = paid_trans [OF fstat_paid [OF 5] write_paid [OF 6 this], where n = 2, simplified]
      show ?thesis by (rule paid_trans [OF p4 p6]) simp
    qed
  qed
qed

subsection \<open>The copy\<close>

lemma copy_write:
  assumes l: "one_log A pre c src w" and part: "copied_part B dst src w" and B: "B \<noteq> A"
    and d: "Sublist.prefix (contents (files w) dst @ data) (contents (files w) src)"
    and t: "sys_write dst data w = (r, w')"
  shows "one_log A pre c src w'" and "copied_part B dst src w'"
    and "others_kept [B, A] (files w) (files w')"
    and "r = Inr () \<Longrightarrow> contents (files w') dst = contents (files w) dst @ data"
proof -
  obtain s w1 d' where w1: "take_slot w = (s, w1)" and w': "w' = w1\<lparr>files := fs_append dst d' (files w1)\<rparr>"
    and d': "Sublist.prefix d' data" and full: "r = Inr () \<Longrightarrow> d' = data" using write_result [OF t] by metis
  note k = slot_one_log [OF w1 l]
  have "B \<notin> set [A]" using B by simp
  note p = copied_part_keep [OF part k(2) this k(3)]
  have dst: "find_ino (files w1) B = Some dst" using p(1) by (simp add: copied_part_def)
  have src: "find_ino (files w1) A = Some src" using k(1) by (simp add: one_log_def)
  have wf: "fs_wf (files w1)" using k(1) by (simp add: one_log_def go_writer.log_inv_def)
  have ne: "src \<noteq> dst" using find_ino_inj [OF wf src, of B] dst B by auto
  have "go_writer.log_inv [A] pre (writer w1) (files w')"
    using go_writer.log_inv_append_other [of "[A]" pre "writer w1" "files w1" B dst d'] k(1) B dst
    by (simp add: one_log_def w')
  with k(1) show "one_log A pre c src w'" by (simp add: one_log_def w')
  have "Sublist.prefix (contents (files w1) dst @ d') (contents (files w1) src)"
    using d d' k(3) p(2) by (metis prefix_order.trans same_prefix_prefix)
  with dst ne show "copied_part B dst src w'" by (simp add: copied_part_def w')
  show "others_kept [B, A] (files w) (files w')"
    using others_kept_trans [OF writer_grown.others_kept_Cons [OF k(2)]
      writer_grown.others_append_at [OF wf dst]] by (simp add: w')
  show "contents (files w') dst = contents (files w) dst @ data" if "r = Inr ()"
    using full [OF that] p(2) by (simp add: w')
qed

lemma copy_loop_copies:
  assumes "one_log A pre c src w" and "copied_part B dst src w" and "B \<noteq> A"
    and "pos = length (contents (files w) dst)" and "copy_loop src dst pos w = (r, w')"
  shows "one_log A pre c src w' \<and> copied_part B dst src w' \<and> others_kept [B, A] (files w) (files w') \<and>
    (\<forall>n. r = Inr n \<longrightarrow> contents (files w') src = contents (files w') dst) \<and> used w w'"
  using assms
proof (induction "slots w" arbitrary: w pos rule: less_induct)
  case less
  obtain x w1 where 1: "sys_read src pos w = (x, w1)" by fastforce
  note k = one_log_safe [OF writer_grown.safe_read less.prems(1) 1]
  have "B \<notin> set [A]" using less.prems(3) by simp
  note p = copied_part_keep [OF less.prems(2) k(2) this k(3)]
  note o1 = writer_grown.others_kept_Cons [OF k(2), of B]
  note u1 = no_gain_used [OF gain_basic(4) 1]
  note eq = less.prems(5) [unfolded copy_loop.simps [of src dst pos w] 1]
  show ?case
  proof (cases x)
    case (Inl e)
    with eq k p o1 u1 show ?thesis by auto
  next
    case (Inr data)
    show ?thesis
    proof (cases "data = []")
      case True
      with 1 Inr have "length (contents (files w1) src) \<le> pos"
        by (auto simp: sys_read_def split: prod.splits option.splits)
      then have "contents (files w1) src = contents (files w1) dst"
        using p less.prems(4) by (auto simp: copied_part_def prefix_def)
      with True Inr eq k p o1 u1 show ?thesis by auto
    next
      case False
      obtain y w2 where 2: "sys_write dst data w1 = (y, w2)" by fastforce
      have "contents (files w1) dst = take pos (contents (files w1) src)"
        using p less.prems(4) by (metis append_eq_conv_conj copied_part_def prefix_def)
      then have "Sublist.prefix (contents (files w1) dst @ data) (contents (files w1) src)"
        using read_result [OF 1 [unfolded Inr]] by (metis append_take_drop_id same_prefix_prefix)
      note w2 = copy_write [OF k(1) p(1) less.prems(3) this 2]
      note o2 = others_kept_trans [OF o1 w2(3)]
      note u2 = used_trans [OF u1 no_gain_used [OF gain_basic(5) 2]]
      show ?thesis
      proof (cases y)
        case (Inl e)
        with \<open>x = Inr data\<close> False eq 2 w2 o2 u2 show ?thesis by auto
      next
        case (Inr u)
        with \<open>x = Inr data\<close> False eq 2 have rest: "copy_loop src dst (pos + length data) w2 = (r, w')"
          by simp
        have "slots w2 < slots w"
          using sys_read_slots [OF 1] \<open>x = Inr data\<close> sys_write_slots [OF 2] by simp
        moreover have "pos + length data = length (contents (files w2) dst)"
          using w2(4) Inr p(2) less.prems(4) by simp
        ultimately show ?thesis
          using less.hyps [OF _ w2(1,2) less.prems(3) _ rest] o2 others_kept_trans used_trans [OF u2]
          by blast
      qed
    qed
  qed
qed

text \<open>\<open>copied_behind B dst src k S w\<close>: the backup was complete at a moment of the schedule \<open>S\<close> at most \<open>k\<close>
  slots before \<open>w\<close>; what it lacks, the writer has written in the slots since then.\<close>

definition copied_behind :: "string \<Rightarrow> ino \<Rightarrow> ino \<Rightarrow> nat \<Rightarrow> slot list \<Rightarrow> world \<Rightarrow> bool" where
  "copied_behind B dst src k S w \<longleftrightarrow> copied_part B dst src w \<and>
     (\<exists>u v. S = u @ v @ sched w \<and> length v \<le> k \<and>
        length (contents (files w) src) \<le> length (contents (files w) dst) + bytes_written v)"

lemma used_append: "used w w' \<longleftrightarrow> (\<exists>u. sched w = u @ sched w')"
  unfolding used_def by (metis append_eq_conv_conj append_take_drop_id)

lemma copied_behind_start:
  "copied_part B dst src w \<Longrightarrow> contents (files w) src = contents (files w) dst \<Longrightarrow> used w0 w \<Longrightarrow>
   copied_behind B dst src 0 (sched w0) w"
  by (auto simp: copied_behind_def used_append)

lemma copied_behind_paid:
  assumes "copied_behind B dst src j S w" and "paid src k w w'" and "copied_part B dst src w'"
    and "contents (files w') dst = contents (files w) dst" and "j + k \<le> n"
  shows "copied_behind B dst src n S w'"
proof -
  from assms(1) obtain u a where a: "S = u @ a @ sched w" "length a \<le> j"
    "length (contents (files w) src) \<le> length (contents (files w) dst) + bytes_written a"
    by (auto simp: copied_behind_def)
  from assms(2) obtain b where b: "sched w = b @ sched w'" "length b \<le> k"
    "length (contents (files w') src) \<le> length (contents (files w) src) + bytes_written b"
    by (auto simp: paid_def)
  have "S = u @ (a @ b) @ sched w'" "length (a @ b) \<le> n" using a b assms(5) by simp_all
  moreover have "length (contents (files w') src) \<le> length (contents (files w') dst) + bytes_written (a @ b)"
    using a(3) b(3) assms(4) by simp
  ultimately show ?thesis using assms(3) unfolding copied_behind_def by blast
qed

lemma try_quiet_paid:
  assumes "try_io (sys_quiet op1 p) f (\<lambda>_. try_io (sys_quiet op2 q) g (\<lambda>_. return_io n)) w = (r, w')"
  shows "paid src 2 w w'"
  using assms
proof (cases rule: try_io_cases)
  case 1
  show ?thesis by (rule paid_mono [OF calls_paid(1) [OF 1(1)]]) simp
next
  case (2 x w1)
  note p = calls_paid(1) [OF 2(1), of src]
  from 2(2) show ?thesis
  proof (cases rule: try_io_cases)
    case 1
    from paid_trans [OF p calls_paid(1) [OF 1(1)]] show ?thesis by simp
  next
    case (2 y w2)
    from paid_trans [OF p calls_paid(1) [OF 2(1)], of 2] 2(2) show ?thesis by (simp add: return_io_def)
  qed
qed

lemma copy_backup_copies:
  assumes l: "go_writer.log_inv [A] pre (writer w) (files w)" "w_cfg (writer w) = c"
    and A: "rc_ActivePath cfg = A" and t: "copy_backup cfg ordinal w = (r, w')"
  shows "go_writer.log_inv [A] pre (writer w') (files w') \<and> w_cfg (writer w') = c \<and>
    others_kept [BackupPath A ordinal, A] (files w) (files w') \<and>
    (\<forall>n. r = Inr n \<longrightarrow> (\<exists>src dst. one_log A pre c src w' \<and>
       copied_behind (BackupPath A ordinal) dst src 2 (sched w) w'))"
proof -
  let ?B = "BackupPath A ordinal"
  have B: "?B \<notin> set [A]" "?B \<noteq> A" by simp_all
  note start = conjI [OF l]
  have base: "go_writer.grown [] [] [A] pre (writer w) (files w) \<and> w_cfg (writer w) = c"
    using l by (simp add: go_writer.grown_def)
  have plain: "go_writer.log_inv [A] pre (writer u) (files u) \<and> w_cfg (writer u) = c"
    if "go_writer.grown ch old [A] pre (writer u) (files u) \<and> w_cfg (writer u) = c" for ch old u
    using that by (simp add: go_writer.grown_def)
  have one: "go_writer.log_inv [A] pre (writer u) (files u) \<and> w_cfg (writer u) = c"
    if "one_log A pre c src u" for src u
    using that by (simp add: one_log_def)
  from t show ?thesis
    unfolding copy_backup_def Let_def A
  proof (cases rule: try_io_cases)
    case 1
    note s = writer_grown.safeD [OF writer_grown.safe_calls(2) base 1(1)]
    with 1 plain [OF s(1)] writer_grown.others_kept_Cons show ?thesis by auto
  next
    case (2 src w1)
    note s = writer_grown.safeD [OF writer_grown.safe_calls(2) base 2(1)]
    have "find_ino (files w1) A = Some src"
      using 2(1) by (auto simp: sys_open_def syscall_def fs_open_def split: prod.splits option.splits)
    with plain [OF s(1)] have l1: "one_log A pre c src w1" by (simp add: one_log_def)
    note o1 = writer_grown.others_kept_Cons [OF s(2), of ?B]
    have u1: "used w w1" by (rule no_gain_used [OF gain_sys(2) 2(1)])
    from 2(2) show ?thesis
    proof (cases rule: try_io_cases)
      case 1
      from writer_grown.open_excl_keeps [OF one_log_grown [OF l1] B(1) 1(1)] 1(2) plain o1
        others_kept_trans show ?thesis by blast
    next
      case (2 dst w2)
      note e = writer_grown.open_excl_keeps [OF one_log_grown [OF l1] B(1) 2(1)]
      have l2: "one_log A pre c src w2" using e grown_one_log(1) by blast
      have p2: "copied_part ?B dst src w2" "length (contents (files w2) dst) = 0"
        using e by (simp_all add: copied_part_def)
      have o2: "others_kept [?B, A] (files w) (files w2)" using o1 e others_kept_trans by blast
      have u2: "used w w2" by (rule used_trans [OF u1 no_gain_used [OF gain_sys(3) 2(1)]])
      from 2(2) show ?thesis
      proof (cases rule: try_io_cases)
        case 1
        from copy_loop_copies [OF l2 p2(1) B(2) p2(2) [symmetric] 1(1)] 1(2) one o2 others_kept_trans
        show ?thesis by blast
      next
        case (2 n w3)
        from copy_loop_copies [OF l2 p2(1) B(2) p2(2) [symmetric] 2(1)]
        have l3: "one_log A pre c src w3" and p3: "copied_part ?B dst src w3"
          and o3: "others_kept [?B, A] (files w) (files w3)"
          and b3: "copied_behind ?B dst src 0 (sched w) w3"
          using o2 others_kept_trans copied_behind_start used_trans [OF u2] by blast+
        let ?tail = "try_io (sys_quiet ''sync'' ?B) (Wrap ''sync backup: '') (\<lambda>_.
          try_io (sys_quiet ''close'' ?B) (Wrap ''close backup: '') (\<lambda>_. return_io n))"
        have "writer_grown.safe ch old pre c [A] [A] ?tail" for ch old
          by (intro writer_grown.safe_try writer_grown.safe_calls writer_grown.safe_return)
        note k = one_log_safe [OF this l3 2(2)]
        note p = copied_part_keep [OF p3 k(2) B(1) k(3)]
        have "copied_behind ?B dst src 2 (sched w) w'"
          by (rule copied_behind_paid [OF b3 try_quiet_paid [OF 2(2)] p]) simp
        with k(1) one o3 others_kept_trans [OF o3 writer_grown.others_kept_Cons [OF k(2)]]
        show ?thesis by blast
      qed
    qed
  qed
qed

lemma truncate_cuts:
  assumes l: "one_log A pre c src w" and t: "sys_truncate A w = (r, w')"
  shows "others_kept [A] (files w) (files w')"
    and "r = Inr () \<Longrightarrow> \<exists>x v. one_log A (pre @ contents (files w) src @ x) c src w' \<and>
      sched w = v @ sched w' \<and> length v \<le> 1 \<and> length x \<le> bytes_written v"
    and "\<not> is_ok r \<Longrightarrow> one_log A pre c src w'"
proof -
  obtain s w1 where s: "take_slot w = (s, w1)" by fastforce
  note k = slot_one_log [OF s l]
  let ?fs = "(files w1)\<lparr>contents := (contents (files w1))(src := [])\<rparr>"
  have src: "find_ino (files w1) A = Some src" and inv: "go_writer.log_inv [A] pre (writer w1) (files w1)"
    using k(1) by (simp_all add: one_log_def)
  have find: "find_ino ?fs q = find_ino (files w1) q" for q by (simp add: find_ino_def)
  have wf: "fs_wf (files w1)" using inv by (simp add: go_writer.log_inv_def)
  have o1: "others_kept [A] (files w1) ?fs"
    using find_ino_inj [OF wf src] by (auto simp: others_kept_def find)
  have cases: "(\<exists>e. r = Inl e) \<and> w' = w1 \<or> r = Inr () \<and> w' = w1\<lparr>files := ?fs\<rparr>"
    using t src by (auto simp: sys_truncate_def syscall_def s fs_truncate_def split: option.splits)
  show "others_kept [A] (files w) (files w')"
    using cases k(2) others_kept_trans [OF k(2) o1] by auto
  show "one_log A pre c src w'" if "\<not> is_ok r" using cases that k(1) by auto
  show "\<exists>x v. one_log A (pre @ contents (files w) src @ x) c src w' \<and>
      sched w = v @ sched w' \<and> length v \<le> 1 \<and> length x \<le> bytes_written v" if "r = Inr ()"
  proof -
    from k(3) obtain x where x: "contents (files w1) src = contents (files w) src @ x"
      by (auto simp: prefix_def)
    have bytes: "chain_bytes (files w1) [A] = contents (files w) src @ x" "chain_bytes ?fs [A] = []"
      using src x by (simp_all add: chain_bytes_single file_bytes_def find)
    have chains: "chain (files w1) [A] = [src]" "chain ?fs [A] = [src]"
      using src by (simp_all add: find)
    have "tail_file ?fs [A] i" if "tail_file (files w1) [A] i" for i
      using that unfolding tail_file_def chains by (auto simp: append_eq_Cons_conv Cons_eq_append_conv)
    moreover have "fs_wf ?fs" using wf by (simp add: fs_wf_def)
    ultimately have "go_writer.log_inv [A] (pre @ contents (files w) src @ x) (writer w1) ?fs"
      using inv unfolding go_writer.log_inv_def bytes by auto
    moreover have w': "w' = w1\<lparr>files := ?fs\<rparr>" using cases that by auto
    ultimately have "one_log A (pre @ contents (files w) src @ x) c src w'"
      using k(1) src find by (auto simp: one_log_def)
    moreover have "\<exists>v. sched w = v @ sched w' \<and> length v \<le> 1 \<and> length x \<le> bytes_written v"
      using slot_paid [OF s, of src] x w' by (auto simp: paid_def)
    ultimately show ?thesis by blast
  qed
qed

subsection \<open>All rotations\<close>

text \<open>The backups \<open>1..n\<close>, each followed by what was lost after it was copied.\<close>

definition copied_bytes :: "string \<Rightarrow> (nat \<Rightarrow> string) \<Rightarrow> nat \<Rightarrow> fs \<Rightarrow> string" where
  "copied_bytes A gap n fs =
     concat (map (\<lambda>k. file_bytes fs (BackupPath A (int k)) @ gap k) [1 ..< Suc n])"

definition gaps :: "string \<Rightarrow> WriterConfig \<Rightarrow> (nat \<Rightarrow> string) \<Rightarrow> nat \<Rightarrow> world \<Rightarrow> bool" where
  "gaps A c gap n w \<longleftrightarrow> go_writer.log_inv [A] (copied_bytes A gap n (files w)) (writer w) (files w) \<and>
     w_cfg (writer w) = c"

definition truncating_setup :: "RotatorConfig \<Rightarrow> bool" where
  "truncating_setup cfg \<longleftrightarrow> rc_Strategy cfg = CopyTruncate \<and> rc_MaxBackups cfg \<le> 0 \<and>
     rc_Rotations cfg < 2 ^ 63 - 1 \<and> separate_events cfg"

lemma copied_bytes_kept:
  assumes "others_kept ps fs fs'" and "\<And>k. k \<le> n \<Longrightarrow> BackupPath A (int k) \<notin> set ps"
  shows "copied_bytes A gap n fs' = copied_bytes A gap n fs"
  unfolding copied_bytes_def
  using file_bytes_kept [OF assms(1) assms(2)] by (intro arg_cong [of _ _ concat] map_cong) auto

lemma backup_not_event:
  "separate_events cfg \<Longrightarrow> BackupPath (rc_ActivePath cfg) (int k) \<notin> set [rc_EventPath cfg, rc_ActivePath cfg]"
  using backup_name_BackupPath [of "rc_ActivePath cfg" k] by (auto simp: separate_events_def)

lemma gaps_safe:
  assumes "\<And>ch old pre. writer_grown.safe ch old pre c [rc_ActivePath cfg]
      [rc_EventPath cfg, rc_ActivePath cfg] m"
    and "separate_events cfg" and "gaps (rc_ActivePath cfg) c gap n w" and "m w = (r, w')"
  shows "gaps (rc_ActivePath cfg) c gap n w'"
proof -
  let ?A = "rc_ActivePath cfg"
  have "go_writer.grown [] [] [?A] (copied_bytes ?A gap n (files w)) (writer w) (files w) \<and>
      w_cfg (writer w) = c"
    using assms(3) by (simp add: gaps_def go_writer.grown_def)
  note k = writer_grown.safeD [OF assms(1) this assms(4)]
  from k(1) copied_bytes_kept [OF k(2) backup_not_event [OF assms(2)]] show ?thesis
    by (simp add: gaps_def go_writer.grown_def)
qed

lemma gaps_calls:
  assumes "separate_events cfg" and "gaps (rc_ActivePath cfg) c gap n w"
  shows "select_tick w = (b, w') \<Longrightarrow> gaps (rc_ActivePath cfg) c gap n w'"
    and "sys_stat p w = (s, w') \<Longrightarrow> gaps (rc_ActivePath cfg) c gap n w'"
    and "appendEvent cfg ev w = (r, w') \<Longrightarrow> gaps (rc_ActivePath cfg) c gap n w'"
proof -
  have sub: "set [rc_ActivePath cfg] \<subseteq> set [rc_EventPath cfg, rc_ActivePath cfg]" by simp
  have ev: "rc_EventPath cfg \<notin> set [rc_ActivePath cfg]"
    using assms(1) by (simp add: separate_events_def)
  show "select_tick w = (b, w') \<Longrightarrow> gaps (rc_ActivePath cfg) c gap n w'"
    by (rule gaps_safe [OF writer_grown.safe_mono [OF writer_grown.safe_tick sub] assms])
  show "sys_stat p w = (s, w') \<Longrightarrow> gaps (rc_ActivePath cfg) c gap n w'"
    by (rule gaps_safe [OF writer_grown.safe_mono [OF writer_grown.safe_calls(1) sub] assms])
  show "appendEvent cfg ev w = (r, w') \<Longrightarrow> gaps (rc_ActivePath cfg) c gap n w'"
    by (rule gaps_safe [OF writer_grown.safe_appendEvent [OF ev] assms])
qed

lemma copied_bytes_upd:
  "copied_bytes A (gap(Suc n := x)) (Suc n) fs =
   copied_bytes A gap n fs @ file_bytes fs (BackupPath A (int (Suc n))) @ x"
proof -
  have same: "map (\<lambda>k. file_bytes fs (BackupPath A (int k)) @ (gap(Suc n := x)) k) [1 ..< Suc n] =
      map (\<lambda>k. file_bytes fs (BackupPath A (int k)) @ gap k) [1 ..< Suc n]" by simp
  have up: "[1 ..< Suc (Suc n)] = [1 ..< Suc n] @ [Suc n]" by simp
  show ?thesis
    unfolding copied_bytes_def up map_append concat_append same by (simp del: upt_Suc of_nat_Suc)
qed

lemma used_append_event: "appendEvent cfg ev w = (r, w') \<Longrightarrow> used w w'"
  by (rule no_gain_used [OF gain_append])

lemma used_tick: "select_tick w = (b, w') \<Longrightarrow> used w w'"
  by (auto simp: select_tick_def dest: take_slot_used split: prod.splits)

text \<open>A rotation that gets to the truncation leaves a gap: no longer than what the writer wrote in a
  window \<open>v\<close> of at most nine slots of the schedule, those of the calls between the copier's read of
  the end of the file and the truncation: the backup's sync and close, the event \<open>copy-synced\<close>
  (two readings of the clock, mkdir, open, stat, write) and the truncation itself.\<close>

lemma gaps_rotate:
  assumes ev: "separate_events cfg" and w: "gaps (rc_ActivePath cfg) c gap n w"
    and t: "rotateCopyTruncate cfg (int (Suc n)) w = (r, w')"
  shows "(\<exists>x u v t. gaps (rc_ActivePath cfg) c (gap(Suc n := x)) (Suc n) w' \<and>
      sched w = u @ v @ t @ sched w' \<and> length v \<le> 9 \<and> length x \<le> bytes_written v) \<or>
    \<not> is_ok r \<and> gaps (rc_ActivePath cfg) c gap n w'"
proof -
  let ?A = "rc_ActivePath cfg" and ?B = "BackupPath (rc_ActivePath cfg) (int (Suc n))"
  note append = gaps_calls(3) [OF ev]
  from t show ?thesis
    unfolding rotateCopyTruncate_def
  proof (cases rule: try_io_cases)
    case 1
    with append [OF w] show ?thesis by simp
  next
    case (2 u w1)
    note w1 = append [OF w 2(1)]
    note u1 = used_append_event [OF 2(1)]
    obtain q w2 where c2: "copy_backup cfg (int (Suc n)) w1 = (q, w2)" by fastforce
    note copies = copy_backup_copies [OF _ _ refl c2, of "copied_bytes ?A gap n (files w1)" c]
    have new: "BackupPath ?A (int k) \<notin> set [?B, ?A]" if "k \<le> n" for k
      using that by (auto simp del: of_nat_Suc dest!: BackupPath_inj)
    have same: "copied_bytes ?A gap n (files w2) = copied_bytes ?A gap n (files w1)"
      using copies w1 by (intro copied_bytes_kept [OF _ new]) (simp_all add: gaps_def)
    have w2: "gaps ?A c gap n w2" using copies w1 same by (simp add: gaps_def)
    from 2(2) show ?thesis
    proof (cases rule: try_io_cases)
      case 1
      with c2 w2 show ?thesis by simp
    next
      case (2 written w2')
      then have w2': "w2' = w2" "q = Inr written" using c2 by simp_all
      obtain src dst where l2: "one_log ?A (copied_bytes ?A gap n (files w2)) c src w2"
        and b2: "copied_behind ?B dst src 2 (sched w1) w2"
        using copies w1 w2'(2) same by (auto simp: gaps_def)
      from 2(2) show ?thesis
      proof (cases rule: try_io_cases)
        case 1
        with append [OF w2] w2' show ?thesis by simp
      next
        case (2 u w3)
        note a = 2(1) [unfolded w2'(1)]
        have ea: "rc_EventPath cfg \<notin> set [?A]" using ev by (simp add: separate_events_def)
        note k = one_log_safe [OF writer_grown.safe_appendEvent [OF ea] l2 a]
        note p3 = copied_part_keep [OF conjunct1 [OF b2 [unfolded copied_behind_def]] k(2)
            backup_not_event [OF ev] k(3)]
        have ne: "rc_EventPath cfg \<noteq> ?A" using ea by simp
        have b3: "copied_behind ?B dst src 8 (sched w1) w3"
          by (rule copied_behind_paid [OF b2 appendEvent_paid [OF l2 ne a] p3]) simp
        have w3: "gaps ?A c gap n w3" by (rule append [OF w2 a])
        have l3: "one_log ?A (copied_bytes ?A gap n (files w3)) c src w3"
          using w3 k(1) by (simp add: gaps_def one_log_def)
        obtain v w4 where tr: "sys_truncate ?A w3 = (v, w4)" by fastforce
        note cut = truncate_cuts [OF l3 tr]
        have keep: "copied_bytes ?A gap n (files w4) = copied_bytes ?A gap n (files w3)"
          by (rule copied_bytes_kept [OF cut(1)]) simp
        from 2(2) show ?thesis
          unfolding truncate_active_def
        proof (cases rule: try_io_cases)
          case 1
          then have "w' = w4" "\<not> is_ok r" "\<not> is_ok v" using tr by auto
          with cut(3) keep show ?thesis by (simp add: gaps_def one_log_def)
        next
          case (2 u w4')
          then have w4': "w4' = w4" "v = Inr ()" using tr by simp_all
          obtain x v1 where l4: "one_log ?A (copied_bytes ?A gap n (files w3) @ contents (files w3) src @ x) c src w4"
            and v1: "sched w3 = v1 @ sched w4" "length v1 \<le> 1" "length x \<le> bytes_written v1"
            using cut(2) [OF w4'(2)] by blast
          obtain y where y: "contents (files w3) src = contents (files w3) dst @ y"
            using p3(1) by (auto simp: copied_part_def prefix_def)
          obtain u v where v: "sched w1 = u @ v @ sched w3" "length v \<le> 8" "length y \<le> bytes_written v"
            using b3 by (auto simp: copied_behind_def y)
          have "file_bytes (files w4) ?B = file_bytes (files w3) ?B"
            by (rule file_bytes_kept [OF cut(1)]) simp
          also have "\<dots> = contents (files w3) dst" using p3(1) by (simp add: copied_part_def file_bytes_def)
          finally have "gaps ?A c (gap(Suc n := y @ x)) (Suc n) w4"
            using l4 y by (simp add: gaps_def copied_bytes_upd keep one_log_def del: of_nat_Suc)
          note g = append [OF this 2(2) [unfolded w4'(1)]]
          obtain u0 t where "sched w = u0 @ sched w1" "sched w4 = t @ sched w'"
            using u1 used_append_event [OF 2(2) [unfolded w4'(1)]] by (auto simp: used_append)
          with v v1 have "sched w = (u0 @ u) @ (v @ v1) @ t @ sched w'" "length (v @ v1) \<le> 9"
            "length (y @ x) \<le> bytes_written (v @ v1)" by simp_all
          with g show ?thesis by blast
        qed
      qed
    qed
  qed
qed

lemma truncating_setupD:
  assumes "truncating_setup cfg"
  shows "separate_events cfg" "rc_MaxBackups cfg \<le> 0" "rc_Rotations cfg < 2 ^ 63 - 1"
    "rc_Strategy cfg = CopyTruncate"
  using assms by (simp_all add: truncating_setup_def)

lemma truncating_setup_poll [simp]: "truncating_setup (cfg\<lparr>rc_PollInterval := i\<rparr>) = truncating_setup cfg"
  by (simp add: truncating_setup_def separate_events_def)

text \<open>\<open>loss_windows ss gap parts rest\<close>: the schedule \<open>ss\<close> consists of \<open>parts\<close>, one per rotation, and the
  \<open>rest\<close>. A part is what precedes the rotation's window and the window, of at most nine slots; the
  rotation's gap is no longer than what the writer wrote in the window.\<close>

definition loss_windows ::
  "slot list \<Rightarrow> (nat \<Rightarrow> string) \<Rightarrow> (slot list \<times> slot list) list \<Rightarrow> slot list \<Rightarrow> bool" where
  "loss_windows ss gap parts rest \<longleftrightarrow> ss = concat (map (\<lambda>(u, v). u @ v) parts) @ rest \<and>
     (\<forall>k < length parts. length (snd (parts ! k)) \<le> 9 \<and>
        length (gap (Suc k)) \<le> bytes_written (snd (parts ! k)))"

lemma loss_windows_used:
  assumes "loss_windows ss gap parts (rest @ sched w)" and "used w w'"
  shows "\<exists>rest. loss_windows ss gap parts (rest @ sched w')"
proof -
  from assms(2) obtain u where "sched w = u @ sched w'" by (auto simp: used_append)
  with assms(1) have "loss_windows ss gap parts ((rest @ u) @ sched w')" by (simp add: loss_windows_def)
  then show ?thesis by blast
qed

lemma loss_windows_rotation:
  assumes "loss_windows ss gap parts (rest @ u @ v @ t)" and "length v \<le> 9" and "length x \<le> bytes_written v"
  shows "loss_windows ss (gap(Suc (length parts) := x)) (parts @ [(rest @ u, v)]) t"
  using assms by (auto simp: loss_windows_def nth_append less_Suc_eq)

definition gapped :: "WriterConfig \<Rightarrow> slot list \<Rightarrow> RotatorConfig \<Rightarrow> nat \<Rightarrow> world \<Rightarrow> bool" where
  "gapped c ss cfg n w \<longleftrightarrow> truncating_setup cfg \<and> (\<exists>gap parts rest. gaps (rc_ActivePath cfg) c gap n w \<and>
     length parts = n \<and> loss_windows ss gap parts (rest @ sched w))"

lemma gapped_keep:
  assumes "gapped c ss cfg n w" and "used w w'"
    and "\<And>gap. separate_events cfg \<Longrightarrow> gaps (rc_ActivePath cfg) c gap n w \<Longrightarrow>
      gaps (rc_ActivePath cfg) c gap n w'"
  shows "gapped c ss cfg n w'"
proof -
  from assms(1) obtain gap parts rest where "truncating_setup cfg" "gaps (rc_ActivePath cfg) c gap n w"
    "length parts = n" "loss_windows ss gap parts (rest @ sched w)" by (auto simp: gapped_def)
  with assms(3) truncating_setupD(1) loss_windows_used [OF _ assms(2)] show ?thesis
    unfolding gapped_def by blast
qed

lemma gapped_calls:
  assumes "gapped c ss cfg n w"
  shows "select_tick w = (b, w') \<Longrightarrow> gapped c ss cfg n w'"
    and "sys_stat p w = (s, w') \<Longrightarrow> gapped c ss cfg n w'"
    and "appendEvent cfg ev w = (r, w') \<Longrightarrow> gapped c ss cfg n w'"
    and "EnforceRetention A (rc_MaxBackups cfg) w = (r, w') \<Longrightarrow> gapped c ss cfg n w'"
proof -
  show "gapped c ss cfg n w'" if "select_tick w = (b, w')"
    by (rule gapped_keep [OF assms used_tick [OF that]]) (rule gaps_calls(1) [OF _ _ that])
  show "gapped c ss cfg n w'" if "sys_stat p w = (s, w')"
    by (rule gapped_keep [OF assms no_gain_used [OF gain_sys(1) that]]) (rule gaps_calls(2) [OF _ _ that])
  show "gapped c ss cfg n w'" if "appendEvent cfg ev w = (r, w')"
    by (rule gapped_keep [OF assms used_append_event [OF that]]) (rule gaps_calls(3) [OF _ _ that])
  show "EnforceRetention A (rc_MaxBackups cfg) w = (r, w') \<Longrightarrow> gapped c ss cfg n w'"
    using assms truncating_setupD(2) [of cfg] by (auto simp: gapped_def retention_off return_io_def)
qed

lemma gapped_rotate:
  assumes "gapped c ss cfg n w" and t: "rotate_files cfg (int (Suc n)) info_size w = (r, w')"
  shows "gapped c ss cfg (Suc n) w' \<or> \<not> is_ok r \<and> gapped c ss cfg n w'"
proof -
  from assms(1) obtain gap parts rest where s: "truncating_setup cfg"
    and g: "gaps (rc_ActivePath cfg) c gap n w" and n: "length parts = n"
    and l: "loss_windows ss gap parts (rest @ sched w)" by (auto simp: gapped_def)
  from t s have t: "rotateCopyTruncate cfg (int (Suc n)) w = (r, w')"
    by (simp add: rotate_files_def truncating_setupD)
  note used = no_gain_used [OF gain_rotate(1) t]
  from gaps_rotate [OF truncating_setupD(1) [OF s] g t]
  consider (gap) x u v t where "gaps (rc_ActivePath cfg) c (gap(Suc n := x)) (Suc n) w'"
      "sched w = u @ v @ t @ sched w'" "length v \<le> 9" "length x \<le> bytes_written v"
    | (failed) "\<not> is_ok r" "gaps (rc_ActivePath cfg) c gap n w'" by blast
  then show ?thesis
  proof cases
    case gap
    from loss_windows_rotation [OF l [unfolded gap(2)] gap(3,4)] n gap(1) s
    have "gapped c ss cfg (Suc n) w'" unfolding gapped_def
      by (intro conjI exI [of _ "gap(Suc n := x)"] exI [of _ "parts @ [(rest @ u, v)]"] exI [of _ t]) simp_all
    then show ?thesis ..
  next
    case failed
    with gapped_keep [OF assms(1) used] loss_windows_used [OF l used] s n show ?thesis
      unfolding gapped_def by blast
  qed
qed

lemma gapped_setup:
  "gapped c ss (cfg\<lparr>rc_PollInterval := i\<rparr>) n w = gapped c ss cfg n w"
  "gapped c ss cfg n w \<Longrightarrow> rc_Rotations cfg < 2 ^ 63 - 1"
  using truncating_setupD(3) by (auto simp: gapped_def)

interpretation truncating_run: rotation_loop "gapped c ss" for c ss
  by unfold_locales (fact gapped_setup gapped_calls gapped_rotate)+

lemma gaps_steps:
  assumes "gaps A c gap n w" and "writer_steps evs (writer w, files w) = (wr, fs)"
  shows "go_writer.log_inv [A] (copied_bytes A gap n fs) wr fs" and "w_cfg wr = c"
proof -
  have "go_writer.grown [] [] [A] (copied_bytes A gap n (files w)) (writer w) (files w) \<and>
      w_cfg (writer w) = c"
    using assms(1) by (simp add: gaps_def go_writer.grown_def)
  note k = writer_grown.keep_steps [OF this assms(2)]
  have "copied_bytes A gap n fs = copied_bytes A gap n (files w)"
    using k by (intro copied_bytes_kept [of "[A]"]) simp_all
  with k show "go_writer.log_inv [A] (copied_bytes A gap n fs) wr fs" "w_cfg wr = c"
    by (simp_all add: go_writer.grown_def)
qed

definition truncate_setup :: "WriterConfig \<Rightarrow> RotatorConfig \<Rightarrow> bool" where
  "truncate_setup wcfg cfg \<longleftrightarrow> wc_Path wcfg = rc_ActivePath cfg \<and> truncating_setup cfg"

subsection \<open>Properties\<close>

text \<open>The writer goes on generating and flushing one record between the copier's last read and the
  truncation.\<close>

definition sample_truncation :: RotatorConfig where
  "sample_truncation = sample_rotation\<lparr>rc_Strategy := CopyTruncate\<rparr>"

definition losing_slots :: "slot list" where
  "losing_slots = (replicate 30 (ok_slot\<lparr>sl_count := 100\<rparr>))
     [8 := ok_slot\<lparr>sl_events := [GenerateTick (3 * 10 ^ 9), FlushTick, WroteBytes 24 None]\<rparr>]"

definition losing_world :: world where
  "losing_world = snd (Run sample_truncation (sample_world losing_slots))"

definition losing_end :: "Writer \<times> fs" where
  "losing_end = writer_steps [GenerateTick (4 * 10 ^ 9), CtxDone, WroteBytes 24 None, SysOk 0, ServeEnd None]
     (writer losing_world, files losing_world)"

lemma losing_facts:
  "w_pc (fst losing_end) = PcDone None" "generated (fst losing_end) = 4"
  "chain_bytes (snd losing_end) (log_names ''envoy.log'' 1) =
    record_line (''r'', 1, 24) @ record_line (''r'', 2, 24) @ record_line (''r'', 4, 24)"
  "truncate_setup sample_writer_config sample_truncation"
  "fresh_log (rc_ActivePath sample_truncation) empty_fs"
  by code_simp+

lemma losing_run: "Run sample_truncation (sample_world losing_slots) = (Inr (), losing_world)"
proof -
  have "fst (Run sample_truncation (sample_world losing_slots)) = Inr ()" by code_simp
  then show ?thesis by (simp add: losing_world_def prod_eq_iff)
qed

text \<open>C2: what copytruncate can lose. A writer starts on \<open>fs0\<close> and runs for a while, \<open>Run\<close> runs beside it
  on the schedule \<open>sched w\<close>, the writer runs on. For every interleaving and every failure on the
  rotator's side, the bytes of the backups in the order of their ordinals, each followed by one
  gap, then the active file and the writer's buffer are exactly the records generated: nothing is
  stored twice or out of order, and what is lost is one contiguous piece after each copy. And only
  what the writer writes in the window between the copier's read of the end of the file and the
  truncation can be lost: the schedule splits into one part per rotation and a rest, the part ends
  with a window of at most nine slots (sync and close of the backup, the six calls of the event
  \<open>copy-synced\<close>, the truncation), and the gap is no longer than what the writer's calls of \<open>Write\<close> in
  this window stored. In particular a rotation in whose window the writer writes nothing loses
  nothing.\<close>

theorem copytruncate_only_gaps:
  assumes new: "new_writer None wcfg = Inr w0"
    and before: "writer_steps before (w0, fs0) = (writer w, files w)"
    and run: "Run cfg w = (r, w')"
    and after: "writer_steps after (writer w', files w') = (wr, fs)"
    and "truncate_setup wcfg cfg" and fresh: "fresh_log (rc_ActivePath cfg) fs0"
    and unfailed: "unfailed (w_pc wr)"
  shows "\<exists>gap parts rest g. int (length parts) \<le> max 0 (rc_Rotations cfg) \<and> generated wr = of_nat g \<and>
    copied_bytes (rc_ActivePath cfg) gap (length parts) fs @ file_bytes fs (rc_ActivePath cfg) @
      pending_bytes wr = record_stream (wc_RunID wcfg) (wc_RecordBytes wcfg) g \<and>
    sched w = concat (map (\<lambda>(u, v). u @ v) parts) @ rest \<and>
    (\<forall>k < length parts. length (snd (parts ! k)) \<le> 9 \<and>
       length (gap (Suc k)) \<le> bytes_written (snd (parts ! k)))"
proof -
  let ?A = "rc_ActivePath cfg"
  have cfg: "wc_Path wcfg = ?A" "truncating_setup cfg" using assms(5) by (simp_all add: truncate_setup_def)
  have "go_writer.log_inv [?A] [] w0 fs0"
    using record_inv_new [OF new] fresh cfg(1) by (simp add: go_writer.record_inv_def)
  from go_writer.steps_keep [OF this before [unfolded writer_steps_def]] writer_steps_cfg [OF before]
  have "gaps ?A (w_cfg w0) (\<lambda>_. []) 0 w" by (simp add: gaps_def copied_bytes_def)
  moreover have "loss_windows (sched w) (\<lambda>_. []) [] ([] @ sched w)" by (simp add: loss_windows_def)
  ultimately have "gapped (w_cfg w0) (sched w) cfg 0 w" using cfg(2) unfolding gapped_def by blast
  from truncating_run.run [OF this run] obtain m gap parts rest where m: "int m \<le> max 0 (rc_Rotations cfg)"
    and g: "gaps ?A (w_cfg w0) gap m w'" and n: "length parts = m"
    and l: "loss_windows (sched w) gap parts (rest @ sched w')" by (auto simp: gapped_def)
  from gaps_steps [OF g after] unfailed
  have "writer_produced wr (copied_bytes ?A gap m fs @ chain_bytes fs [?A] @ pending_bytes wr)"
    and "w_cfg wr = w_cfg w0" unfolding go_writer.log_inv_def by blast+
  with new_writer_Inr(1,2) [OF new] obtain k where "generated wr = of_nat k"
    "copied_bytes ?A gap m fs @ file_bytes fs ?A @ pending_bytes wr =
      record_stream (wc_RunID wcfg) (wc_RecordBytes wcfg) k"
    by (auto simp: writer_produced_def chain_bytes_single simp del: chain_simps)
  with m l [unfolded loss_windows_def] show ?thesis unfolding n [symmetric] by blast
qed

theorem copytruncate_only_gaps_witness:
  "w_pc (fst losing_end) = PcDone None \<and>
   chain_bytes (snd losing_end) (log_names ''envoy.log'' 1) =
     record_line (''r'', 1, 24) @ record_line (''r'', 2, 24) @ record_line (''r'', 4, 24) \<and>
   (\<exists>gap parts rest g. int (length parts) \<le> 1 \<and> of_nat g = (4 :: u64) \<and>
    copied_bytes ''envoy.log'' gap (length parts) (snd losing_end) @
      file_bytes (snd losing_end) ''envoy.log'' @ pending_bytes (fst losing_end) =
      record_stream ''r'' 24 g \<and>
    losing_slots = concat (map (\<lambda>(u, v). u @ v) parts) @ rest \<and>
    (\<forall>k < length parts. length (snd (parts ! k)) \<le> 9 \<and>
       length (gap (Suc k)) \<le> bytes_written (snd (parts ! k))))"
proof -
  have sched: "sched (sample_world losing_slots) = losing_slots"
    by (simp add: sample_world_def split: prod.split)
  have e: "writer_steps [GenerateTick (4 * 10 ^ 9), CtxDone, WroteBytes 24 None, SysOk 0, ServeEnd None]
      (writer losing_world, files losing_world) = (fst losing_end, snd losing_end)"
    by (simp add: losing_end_def)
  have u: "unfailed (w_pc (fst losing_end))" by (simp add: losing_facts)
  note run = copytruncate_only_gaps [OF sample_writer_new sample_world_start losing_run e losing_facts(4,5) u,
      unfolded losing_facts(2) sched]
  have c: "max 0 (rc_Rotations sample_truncation) = 1" "rc_ActivePath sample_truncation = ''envoy.log''"
    "wc_RunID sample_writer_config = ''r''" "wc_RecordBytes sample_writer_config = 24"
    by (simp_all add: sample_truncation_def sample_rotation_def sample_writer_config_def)
  have "w_pc (fst losing_end) = PcDone None \<and>
   chain_bytes (snd losing_end) (log_names ''envoy.log'' 1) =
     record_line (''r'', 1, 24) @ record_line (''r'', 2, 24) @ record_line (''r'', 4, 24)"
    using losing_facts(1,3) by simp
  then show ?thesis using run [unfolded c] by (simp only: eq_commute [of 4] simp_thms conj_assoc)
qed

end
