(* ===== verification/AtomicReport.thy ===== *)
theory AtomicReport
  imports LogIntegrity
begin

text \<open>
  \<open>report.WriteJSONAtomic\<close>: a report is written to a temporary file beside its path, synced,
  closed and renamed over the path; on any error the temporary file is removed. It is a program
  of \<open>World\<close>; \<open>json\<close> is what \<open>encoding/json\<close> makes of the value. \<open>os.CreateTemp\<close> tries random names
  until one is new: \<open>suffixes\<close> are the numbers it draws.
\<close>

definition is_exist :: "go_error \<Rightarrow> bool" where
  "is_exist err = (case err of PathError _ _ e \<Rightarrow> e = EEXIST | _ \<Rightarrow> False)"

definition temp_name :: "string \<Rightarrow> string \<Rightarrow> string" where
  "temp_name path suffix =
     (let dir = path_dir path
      in (if last dir = CHR ''/'' then dir else dir @ ''/'') @ path_base path @ ''.tmp-'' @ suffix)"

fun create_temp :: "string \<Rightarrow> string list \<Rightarrow> (string \<times> ino) io" where
  "create_temp path [] w = (Inl (PathError ''createtemp'' path EEXIST), w)"
| "create_temp path (s # ss) w =
     (case sys_open_excl (temp_name path s) w of
        (Inr f, w) \<Rightarrow> (Inr (temp_name path s, f), w)
      | (Inl e, w) \<Rightarrow> (if is_exist e then create_temp path ss w else (Inl e, w)))"

text \<open>From the encoder to the rename, and the deferred removal.\<close>

definition fill_temp :: "string \<Rightarrow> string result \<Rightarrow> string \<times> ino \<Rightarrow> unit io" where
  "fill_temp path json t =
     (case json of
        Inl e \<Rightarrow> fail_io e
      | Inr text \<Rightarrow>
          try_io (sys_write (snd t) text) id (\<lambda>_.
          try_io (sys_quiet ''sync'' (fst t)) id (\<lambda>_.
          try_io (sys_quiet ''close'' (fst t)) id (\<lambda>_.
          try_io (sys_rename (fst t) path) (Wrap ''rename report: '') return_io))))"

definition or_remove :: "string \<Rightarrow> unit io \<Rightarrow> unit io" where
  "or_remove tmp m w =
     (case m w of
        (Inr _, w) \<Rightarrow> (Inr (), w)
      | (Inl e, w) \<Rightarrow> (case sys_remove tmp w of (_, w) \<Rightarrow> (Inl e, w)))"

definition WriteJSONAtomic :: "string \<Rightarrow> string result \<Rightarrow> string list \<Rightarrow> unit io" where
  "WriteJSONAtomic path json suffixes =
     try_io (sys_quiet ''mkdir'' (path_dir path)) id (\<lambda>_.
     try_io (create_temp path suffixes) id (\<lambda>t.
     or_remove (fst t) (fill_temp path json t)))"

subsection \<open>What each step leaves alone\<close>

abbreviation log_kept :: "string \<Rightarrow> string \<Rightarrow> world \<Rightarrow> bool" where
  "log_kept A pre w \<equiv> go_writer.log_inv [A] pre (writer w) (files w)"

lemma create_temp_keeps:
  assumes "log_kept A pre w" and "A \<notin> temp_name path ` set suffixes" and "create_temp path suffixes w = (r, w')"
  shows "log_kept A pre w' \<and> others_kept (A # map (temp_name path) suffixes) (files w) (files w') \<and>
    (\<forall>t f. r = Inr (t, f) \<longrightarrow> t \<in> temp_name path ` set suffixes \<and> find_ino (files w') t = Some f \<and>
       contents (files w') f = [])"
  using assms
proof (induction suffixes arbitrary: w)
  case (Cons s ss)
  let ?t = "temp_name path s"
  obtain q w1 where o: "sys_open_excl ?t w = (q, w1)" by fastforce
  have "?t \<notin> set [A]" using Cons.prems(2) by auto
  note k = writer_log.open_excl_keeps [OF Cons.prems(1) this o]
  then have k2: "others_kept [?t, A] (files w) (files w1)" by blast
  have sub: "others_kept (A # map (temp_name path) (s # ss)) (files w) (files w1)"
    by (rule others_kept_mono [OF k2]) auto
  show ?case
  proof (cases q)
    case (Inr f)
    with Cons.prems(3) o have "r = Inr (?t, f)" "w' = w1" by simp_all
    with k sub Inr show ?thesis by simp
  next
    case (Inl e)
    show ?thesis
    proof (cases "is_exist e")
      case True
      with Inl o Cons.prems(3) have "create_temp path ss w1 = (r, w')" by simp
      with Cons.IH [of w1] k Cons.prems(2) have ih: "log_kept A pre w'"
        "others_kept (A # map (temp_name path) ss) (files w1) (files w')"
        "\<forall>t f. r = Inr (t, f) \<longrightarrow> t \<in> temp_name path ` set ss \<and> find_ino (files w') t = Some f \<and>
          contents (files w') f = []" by simp_all
      have "others_kept (A # map (temp_name path) (s # ss)) (files w1) (files w')"
        by (rule others_kept_mono [OF ih(2)]) auto
      with ih(1,3) sub others_kept_trans show ?thesis by auto
    next
      case False
      with Inl o Cons.prems(3) have "r = Inl e" "w' = w1" by simp_all
      with k sub show ?thesis by simp
    qed
  qed
qed auto

lemma rename_replaces:
  assumes "log_kept A pre w" and "t \<notin> set [A]" and "t \<noteq> p" and "p \<notin> set [A]"
    and f: "find_ino (files w) t = Some f" and s: "sys_rename t p w = (r, w')"
  shows "is_ok r \<longrightarrow> file_bytes (files w') p = contents (files w) f"
    and "\<not> is_ok r \<longrightarrow> log_kept A pre w' \<and> others_kept [A] (files w) (files w')"
proof -
  obtain sl w1 where t: "take_slot w = (sl, w1)" by fastforce
  note k = writer_log.slot_keeps [OF t assms(1)]
  have f1: "find_ino (files w1) t = Some f" and c: "contents (files w1) f = contents (files w) f"
    using k(2) f assms(2) by (simp_all add: others_kept_def)
  show "\<not> is_ok r \<longrightarrow> log_kept A pre w' \<and> others_kept [A] (files w) (files w')"
    using s t f1 k by (auto simp: sys_rename_def syscall_def fs_rename_def split: option.splits)
  have "file_bytes (snd (fs_rename t p (files w1))) p = contents (files w1) f"
    using find_ino_rename [OF f1 assms(3)] by (simp add: file_bytes_def)
  with s t f1 c show "is_ok r \<longrightarrow> file_bytes (files w') p = contents (files w) f"
    by (auto simp: sys_rename_def syscall_def split: option.splits prod.splits sum.splits)
qed

lemma remove_other:
  assumes "log_kept A pre w" and "p \<notin> set [A]" and "p \<noteq> t" and "sys_remove t w = (r, w')"
  shows "file_bytes (files w') p = file_bytes (files w) p"
proof -
  obtain sl w1 where t: "take_slot w = (sl, w1)" by fastforce
  note k = writer_log.slot_keeps [OF t assms(1)]
  have "files w' = files w1 \<or> files w' = snd (fs_remove t (files w1))"
    using assms(4) t by (auto simp: sys_remove_def syscall_def split: option.splits prod.splits sum.splits)
  moreover have "file_bytes (snd (fs_remove t fs)) p = file_bytes fs p" for fs
  proof (cases "find_ino fs t")
    case (Some i)
    have "contents (snd (fs_remove t fs)) = contents fs" by (simp add: fs_remove_def Some)
    with find_ino_remove [OF Some, of p] assms(3) show ?thesis
      by (simp add: file_bytes_def split: option.split)
  qed (simp add: fs_remove_def)
  ultimately show ?thesis using file_bytes_kept [OF k(2) assms(2)] by auto
qed

lemma fill_temp_replaces:
  assumes w: "log_kept A pre w" and t: "t \<notin> set [A]" "t \<noteq> p" and p: "p \<notin> set [A]"
    and f: "find_ino (files w) t = Some f" "contents (files w) f = []"
    and run: "fill_temp p json (t, f) w = (r, w')"
  shows "is_ok r \<longrightarrow> json = Inr (file_bytes (files w') p)"
    and "\<not> is_ok r \<longrightarrow> log_kept A pre w' \<and> others_kept [t, A] (files w) (files w')"
proof -
  have "(is_ok r \<longrightarrow> json = Inr (file_bytes (files w') p)) \<and>
    (\<not> is_ok r \<longrightarrow> log_kept A pre w' \<and> others_kept [t, A] (files w) (files w'))"
  proof (cases json)
    case (Inl e)
    with run w show ?thesis by (auto simp: fill_temp_def fail_io_def)
  next
    case (Inr body)
    let ?sync = "sys_quiet ''sync'' t" and ?close = "sys_quiet ''close'' t"
    let ?rename = "try_io (sys_rename t p) (Wrap ''rename report: '') return_io"
    from run Inr have "try_io (sys_write f body) id (\<lambda>_. try_io ?sync id (\<lambda>_. try_io ?close id (\<lambda>_. ?rename))) w = (r, w')"
      by (simp add: fill_temp_def)
    then show ?thesis
    proof (cases rule: try_io_cases)
      case 1
      with writer_log.write_keeps [OF w t(1) f(1) 1(1)] show ?thesis by simp
    next
      case (2 u w1)
      note k1 = writer_log.write_keeps [OF w t(1) f(1) 2(1)]
      have f1: "find_ino (files w1) t = Some f \<and> contents (files w1) f = body"
      proof -
        obtain s w0 where s: "take_slot w = (s, w0)" by fastforce
        note k0 = writer_log.slot_keeps [OF s w]
        have "find_ino (files w0) t = Some f" "contents (files w0) f = []"
          using k0(2) t(1) f by (simp_all add: others_kept_def)
        with 2(1) s show ?thesis by (auto simp: sys_write_def split: option.splits)
      qed
      from 2(2) show ?thesis
      proof (cases rule: try_io_cases)
        case 1
        note k = writer_log.safeD [OF writer_log.safe_calls(3) k1(1) 1(1)]
        with 1 others_kept_trans [OF k1(2) writer_log.others_kept_Cons [OF k(2)]] show ?thesis by simp
      next
        case (2 u w2)
        note k2 = writer_log.safeD [OF writer_log.safe_calls(3) k1(1) 2(1)]
        note o2 = others_kept_trans [OF k1(2) writer_log.others_kept_Cons [OF k2(2)]]
        from 2(2) show ?thesis
        proof (cases rule: try_io_cases)
          case 1
          note k = writer_log.safeD [OF writer_log.safe_calls(3) k2(1) 1(1)]
          with 1 others_kept_trans [OF o2 writer_log.others_kept_Cons [OF k(2)]] show ?thesis by simp
        next
          case (2 u w3)
          note k3 = writer_log.safeD [OF writer_log.safe_calls(3) k2(1) 2(1)]
          note o3 = others_kept_trans [OF o2 writer_log.others_kept_Cons [OF k3(2)]]
          have f3: "find_ino (files w3) t = Some f" "contents (files w3) f = body"
            using f1 k2(2) k3(2) t(1) by (simp_all add: others_kept_def)
          from 2(2) show ?thesis
          proof (cases rule: try_io_cases)
            case 1
            from rename_replaces(2) [OF k3(1) t p f3(1) 1(1)] 1
              others_kept_trans [OF o3 writer_log.others_kept_Cons] show ?thesis by simp
          next
            case (2 u w4)
            from rename_replaces(1) [OF k3(1) t p f3(1) 2(1)] 2(2) f3(2) Inr show ?thesis
              by (auto simp: return_io_def)
          qed
        qed
      qed
    qed
  qed
  then show "is_ok r \<longrightarrow> json = Inr (file_bytes (files w') p)"
    "\<not> is_ok r \<longrightarrow> log_kept A pre w' \<and> others_kept [t, A] (files w) (files w')" by blast+
qed

subsection \<open>Properties\<close>

text \<open>C21: reports are written atomically. Whatever the schedule, and wherever it makes calls fail
  (failing for good from some call on is a crash there), after \<open>WriteJSONAtomic\<close> the file at the
  path is either the complete new report, and then the call returned nil, or what it was before,
  and then it returned an error; the log beside it does not matter.\<close>

theorem report_write_atomic:
  assumes "go_writer.log_inv [A] pre (writer w) (files w)" and "p \<noteq> A"
    and names: "\<forall>s \<in> set suffixes. temp_name p s \<noteq> A \<and> temp_name p s \<noteq> p"
    and "WriteJSONAtomic p json suffixes w = (r, w')"
  shows "case r of Inr _ \<Rightarrow> json = Inr (file_bytes (files w') p)
    | Inl _ \<Rightarrow> file_bytes (files w') p = file_bytes (files w) p"
proof -
  have p: "p \<notin> set [A]" using assms(2) by simp
  have A: "A \<notin> temp_name p ` set suffixes" using names by auto
  from assms(4) show ?thesis
    unfolding WriteJSONAtomic_def
  proof (cases rule: try_io_cases)
    case 1
    from writer_log.safeD(2) [OF writer_log.safe_calls(3) assms(1) 1(1)] file_bytes_kept p 1(2)
    show ?thesis by simp
  next
    case (2 u w1)
    note k1 = writer_log.safeD [OF writer_log.safe_calls(3) assms(1) 2(1)]
    note b1 = file_bytes_kept [OF k1(2) p]
    from 2(2) show ?thesis
    proof (cases rule: try_io_cases)
      case 1
      from create_temp_keeps [OF k1(1) A 1(1)] have
        o: "others_kept (A # map (temp_name p) suffixes) (files w1) (files w')" by blast
      have "p \<notin> set (A # map (temp_name p) suffixes)" using names assms(2) by auto
      from file_bytes_kept [OF o this] b1 1(2) show ?thesis by simp
    next
      case (2 tf w2)
      obtain t f where tf: "tf = (t, f)" by fastforce
      from create_temp_keeps [OF k1(1) A 2(1)] tf have k2: "log_kept A pre w2"
        and o: "others_kept (A # map (temp_name p) suffixes) (files w1) (files w2)"
        and t: "t \<in> temp_name p ` set suffixes" and f: "find_ino (files w2) t = Some f" "contents (files w2) f = []"
        by blast+
      have tn: "t \<notin> set [A]" "t \<noteq> p" using t names by auto
      have "p \<notin> set (A # map (temp_name p) suffixes)" using names assms(2) by auto
      note b2 = file_bytes_kept [OF o this]
      obtain q w3 where run: "fill_temp p json (t, f) w2 = (q, w3)" by fastforce
      note fill = fill_temp_replaces [OF k2 tn p f run]
      show ?thesis
      proof (cases q)
        case (Inr u)
        with 2(2) run tf fill(1) show ?thesis by (auto simp: or_remove_def)
      next
        case (Inl e)
        obtain x w4 where rm: "sys_remove t w3 = (x, w4)" by fastforce
        have "p \<notin> set [t, A]" using tn(2) p by auto
        with fill(2) Inl have "file_bytes (files w3) p = file_bytes (files w2) p" and k3: "log_kept A pre w3"
          using file_bytes_kept [of "[t, A]"] by auto
        with remove_other [OF k3 p _ rm] tn(2) b1 b2 2(2) run tf Inl rm show ?thesis
          by (auto simp: or_remove_def)
      qed
    qed
  qed
qed

text \<open>A write over an old report that fails at the rename, and one that succeeds.\<close>

definition report_world :: "slot list \<Rightarrow> world" where
  "report_world ss = \<lparr>files = fs_append 0 ''old'' (snd (fs_create ''r.json'' empty_fs)), writer = sample_writer,
     sched = ss, clock = 0, url_error = (\<lambda>_. None)\<rparr>"

theorem report_write_atomic_witness:
  "file_bytes (files (snd (WriteJSONAtomic ''r.json'' (Inr ''new'') [''1''] (report_world (replicate 6 ok_slot))))) ''r.json'' = ''new'' \<and>
   file_bytes (files (snd (WriteJSONAtomic ''r.json'' (Inr ''new'') [''1''] (report_world (replicate 5 ok_slot))))) ''r.json'' = ''old''"
proof -
  have inv: "go_writer.log_inv [''envoy.log''] [] (writer (report_world ss)) (files (report_world ss))" for ss
  proof -
    have wf: "fs_wf (files (report_world ss))"
      by (simp add: report_world_def fs_wf_create find_ino_def empty_fs_def fs_wf_def fs_create_def fs_append_def)
    have "chain (files (report_world ss)) [''envoy.log''] = []"
      by (simp add: report_world_def find_ino_def fs_create_def empty_fs_def fs_append_def)
    then show ?thesis
      using log_inv_new [OF sample_writer_new wf, of "[''envoy.log'']"]
      by (simp add: report_world_def sample_writer_config_def chain_bytes_def)
  qed
  have names: "\<forall>s \<in> set [''1'']. temp_name ''r.json'' s \<noteq> ''envoy.log'' \<and> temp_name ''r.json'' s \<noteq> ''r.json''"
    by code_simp
  let ?W = "\<lambda>n. WriteJSONAtomic ''r.json'' (Inr ''new'') [''1''] (report_world (replicate n ok_slot))"
  have ends: "is_ok (fst (?W 6))" "\<not> is_ok (fst (?W 5))"
    "file_bytes (files (report_world (replicate 5 ok_slot))) ''r.json'' = ''old''"
    by code_simp+
  have "case fst (?W n) of Inr _ \<Rightarrow> (Inr ''new'' :: string result) = Inr (file_bytes (files (snd (?W n))) ''r.json'')
    | Inl _ \<Rightarrow> file_bytes (files (snd (?W n))) ''r.json'' =
        file_bytes (files (report_world (replicate n ok_slot))) ''r.json''" for n
    by (rule report_write_atomic [OF inv _ names prod.collapse [symmetric]]) simp
  from this [of 6] this [of 5] ends show ?thesis
    by (cases "fst (?W 6)"; cases "fst (?W 5)") simp_all
qed

end
