(* ===== verification/Lifecycle.thy ===== *)
theory Lifecycle
  imports Writer
begin

text \<open>
  How the writer of \<open>internal/writer/writer.go\<close> starts and how it stops. A writer with a negative
  resident size passes \<open>New\<close> and panics in \<open>Run\<close> before it serves or writes anything. Once the select statement of \<open>Run\<close> takes no
  more ticks and no more reopen requests (what remains for it to take is \<open>ctx.Done\<close>), every
  answer of the operating system moves \<open>Run\<close> strictly closer to its return, however short the
  writes are and whichever calls fail. \<open>to_go\<close> counts the answers that are still needed.
\<close>

fun stopping :: "writer_event \<Rightarrow> bool" where
  "stopping (GenerateTick t) = False"
| "stopping FlushTick = False"
| "stopping ReopenReady = False"
| "stopping _ = True"

text \<open>The event is what the goroutine waits for where it stands.\<close>

fun answers :: "writer_pc \<Rightarrow> writer_event \<Rightarrow> bool" where
  "answers PcSelect ev \<longleftrightarrow> ev = CtxDone"
| "answers (PcFlush k ret) ev \<longleftrightarrow> (case ev of WroteBytes n e \<Rightarrow> True | _ \<Rightarrow> False)"
| "answers (PcServe r) ev \<longleftrightarrow> (case ev of ServeEnd e \<Rightarrow> True | _ \<Rightarrow> False)"
| "answers (PcDone r) ev \<longleftrightarrow> False"
| "answers PcPanic ev \<longleftrightarrow> False"
| "answers _ ev \<longleftrightarrow> (case ev of SysOk t \<Rightarrow> True | SysFail e \<Rightarrow> True | _ \<Rightarrow> False)"

fun pc_to_go :: "nat \<Rightarrow> writer_pc \<Rightarrow> nat" where
  "pc_to_go l (PcDone r) = 0"
| "pc_to_go l PcPanic = 0"
| "pc_to_go l (PcState r) = 1"
| "pc_to_go l (PcServe r) = 2"
| "pc_to_go l (PcClose r) = 3"
| "pc_to_go l (PcFlush k (ToFinish r)) = (l - k) + 4"
| "pc_to_go l PcSelect = l + 5"
| "pc_to_go l (PcFlush k ToSelect) = (l - k) + l + 6"
| "pc_to_go l PcReopenOpen = 2 * l + 7"
| "pc_to_go l PcOpen = 2 * l + 7"
| "pc_to_go l PcReopenClose = 2 * l + 8"
| "pc_to_go l PcMkdir = 2 * l + 8"

definition to_go :: "Writer \<Rightarrow> nat" where
  "to_go w = pc_to_go (length (w_buffer w)) (w_pc w)"

lemma to_go_bound: "to_go w \<le> 2 * length (w_buffer w) + 8"
  by (cases "(length (w_buffer w), w_pc w)" rule: pc_to_go.cases) (simp_all add: to_go_def)

lemma to_go_0: "to_go w = 0 \<longleftrightarrow> w_pc w = PcPanic \<or> (\<exists>r. w_pc w = PcDone r)"
  by (cases "(length (w_buffer w), w_pc w)" rule: pc_to_go.cases) (simp_all add: to_go_def)

lemma to_go_finish: "to_go (finish r w) \<le> length (w_buffer w) + 4"
  by (simp add: to_go_def finish_def begin_flush_finish_def)

lemma to_go_reopen_failed: "to_go (reopen_failed e w) \<le> 2 * length (w_buffer w) + 6"
  unfolding reopen_failed_def by (rule order_trans [OF to_go_finish]) simp

lemma to_go_begin_flush: "to_go (begin_flush w) \<le> 2 * length (w_buffer w) + 6"
  by (simp add: to_go_def begin_flush_def)

lemma to_go_after_flush:
  assumes "w_pc w = PcFlush k ret" and "w_buffer w' = w_buffer w \<or> e = None \<and> w_buffer w' = []"
    and "e = None \<Longrightarrow> w_buffer w' = []"
  shows "to_go (after_flush ret e w') < to_go w"
proof (cases "ret = ToSelect \<and> e \<noteq> None")
  case True
  then obtain a where "ret = ToSelect" "e = Some a" by auto
  with assms show ?thesis by (simp add: to_go_def [of w] le_less_trans [OF to_go_finish])
next
  case False
  with assms show ?thesis
    by (cases ret; cases e) (auto simp: to_go_def [of w] to_go_def [of "w'\<lparr>w_pc := _\<rparr>"])
qed

lemma to_go_write:
  assumes "w_pc w = PcFlush k ret"
  shows "to_go (fst (write_step k ret n e (w, fs))) < to_go w"
proof -
  have "to_go (w\<lparr>w_pc := PcFlush (k + m) ret\<rparr>) < to_go w"
    if "0 < m" "k + m < length (w_buffer w)" for m
    using that assms by (cases ret) (auto simp: to_go_def)
  with assms show ?thesis
    by (auto simp: write_step_def Let_def count_written_def split: option.split
        intro!: to_go_after_flush [OF assms])
qed

lemma to_go_step:
  assumes "stopping ev"
  shows "to_go (fst (writer_step ev (w, fs))) + (if answers (w_pc w) ev then 1 else 0) \<le> to_go w"
proof (cases "w_pc w")
  case (PcFlush k ret)
  with assms to_go_write [OF PcFlush] show ?thesis
    by (cases ev) (auto simp: writer_step_def system_step_def handle_reopen_def to_go_def Suc_le_eq)
next
  case PcSelect
  with assms to_go_finish [of None w] show ?thesis
    by (cases ev) (auto simp: writer_step_def system_step_def handle_reopen_def to_go_def [of w]
        to_go_def [of "w\<lparr>w_reopen := _\<rparr>"] select_step_def)
next
  case PcReopenOpen
  with assms to_go_begin_flush [of "fst (open_log (w, fs))"] to_go_reopen_failed [of _ w]
  show ?thesis
    by (cases ev) (auto simp: writer_step_def system_step_def handle_reopen_def to_go_def [of w]
        to_go_def [of "w\<lparr>w_reopen := _\<rparr>"] split_beta add.commute [of 6])
qed (use assms in \<open>cases ev; auto simp: writer_step_def system_step_def handle_reopen_def to_go_def
  split_beta serve_end_def Let_def finish_def started_def begin_flush_finish_def split: option.split\<close>)+

text \<open>\<open>state_at\<close>: the writer after the first \<open>n\<close> events of an endless sequence.\<close>

definition state_at :: "(nat \<Rightarrow> writer_event) \<Rightarrow> Writer \<times> fs \<Rightarrow> nat \<Rightarrow> Writer" where
  "state_at ev s n = fst (writer_steps (map ev [0 ..< n]) s)"

definition ended :: "Writer \<Rightarrow> bool" where
  "ended w \<longleftrightarrow> (case w_pc w of PcDone r \<Rightarrow> True | PcPanic \<Rightarrow> True | _ \<Rightarrow> False)"

lemma ended_iff: "ended w \<longleftrightarrow> to_go w = 0"
  by (auto simp: ended_def to_go_0 split: writer_pc.split)

lemma to_go_Suc:
  "stopping (ev n) \<Longrightarrow>
   to_go (state_at ev s (Suc n)) + (if answers (w_pc (state_at ev s n)) (ev n) then 1 else 0)
     \<le> to_go (state_at ev s n)"
  using to_go_step by (cases "writer_steps (map ev [0 ..< n]) s") (simp add: state_at_def writer_steps_def)

lemma to_go_antimono:
  "m \<le> n \<Longrightarrow> \<forall>k\<ge>m. stopping (ev k) \<Longrightarrow> to_go (state_at ev s n) \<le> to_go (state_at ev s m)"
proof (induction n rule: dec_induct)
  case (step n)
  with to_go_Suc [of ev n s] show ?case by simp
qed simp

text \<open>C15: the writer always stops. From some moment on let \<open>Run\<close> take no tick and no reopen request
  any more, and let whatever it waits for be answered sooner or later (the cancelled context, a
  system call, the end of the HTTP server): then it has ended for good, however few bytes each
  write stores and whichever calls fail.\<close>

theorem writer_stops:
  assumes "\<forall>n\<ge>m. stopping (ev n)"
    and "\<forall>n\<ge>m. \<not> ended (state_at ev s n) \<longrightarrow> (\<exists>k\<ge>n. answers (w_pc (state_at ev s k)) (ev k))"
  shows "\<exists>n. \<forall>k\<ge>n. ended (state_at ev s k)"
proof -
  have "m \<le> n \<Longrightarrow> \<exists>k\<ge>m. ended (state_at ev s k)" for n
  proof (induction "to_go (state_at ev s n)" arbitrary: n rule: less_induct)
    case less
    show ?case
    proof (cases "ended (state_at ev s n)")
      case False
      then obtain k where k: "n \<le> k" "answers (w_pc (state_at ev s k)) (ev k)"
        using assms(2) less.prems by blast
      then have "to_go (state_at ev s (Suc k)) < to_go (state_at ev s n)"
        using to_go_Suc [of ev k s] to_go_antimono [of n k ev s] assms(1) less.prems by auto
      with less.hyps less.prems k(1) show ?thesis by simp
    qed (use less.prems in blast)
  qed
  then obtain k where "m \<le> k" "ended (state_at ev s k)" by blast
  then have "ended (state_at ev s n)" if "k \<le> n" for n
    using that to_go_antimono [of k n ev s] assms(1) ended_iff by (metis le_trans le_zero_eq)
  then show ?thesis by blast
qed

definition shutdown_script :: "nat \<Rightarrow> writer_event" where
  "shutdown_script n = (if n < 12 then sample_script ! n else CtxDone)"

lemma shutdown_prefix:
  "map shutdown_script [0 ..< 12] = sample_script"
  "map shutdown_script [0 ..< 11] = butlast sample_script"
  by code_simp+

lemma shutdown_stopping: "9 \<le> n \<Longrightarrow> stopping (shutdown_script n)"
proof (cases "n < 12")
  case True
  assume "9 \<le> n"
  with True have "n = 9 \<or> n = 10 \<or> n = 11" by arith
  then show ?thesis by (auto simp: shutdown_script_def sample_script_def)
qed (simp add: shutdown_script_def)

theorem writer_stops_witness:
  "\<exists>n. \<forall>k\<ge>n. ended (state_at shutdown_script (sample_writer, empty_fs) k)"
proof (rule writer_stops [of 9], safe intro!: shutdown_stopping)
  let ?w = "state_at shutdown_script (sample_writer, empty_fs)"
  fix n :: nat
  assume run: "\<not> ended (?w n)"
  have "answers (w_pc (fst (writer_steps (butlast sample_script) (sample_writer, empty_fs))))
      (ServeEnd None)"
    by code_simp
  moreover have "shutdown_script 11 = ServeEnd None" by code_simp
  ultimately have now: "answers (w_pc (?w 11)) (shutdown_script 11)"
    by (simp add: state_at_def shutdown_prefix)
  have "to_go (?w 12) = 0"
    using sample_run(1) by (simp add: state_at_def shutdown_prefix to_go_0)
  then have "to_go (?w n) = 0" if "12 \<le> n"
    using that to_go_antimono [of 12 n shutdown_script "(sample_writer, empty_fs)"]
      shutdown_stopping by auto
  with run have "n \<le> 11" by (force simp: ended_iff)
  with now show "\<exists>k\<ge>n. answers (w_pc (?w k)) (shutdown_script k)" by blast
qed

definition not_started :: "Writer \<Rightarrow> bool" where
  "not_started w \<longleftrightarrow> wc_ResidentBytes (w_cfg w) < 0 \<and> \<not> w_ready w \<and> generated w = 0 \<and>
     (case w_pc w of PcMkdir \<Rightarrow> True | PcOpen \<Rightarrow> True | PcDone r \<Rightarrow> True | PcPanic \<Rightarrow> True | _ \<Rightarrow> False)"

lemma not_started_step: "not_started (fst s) \<Longrightarrow> not_started (fst (writer_step ev s))"
  by (cases s; cases "w_pc (fst s)"; cases ev)
    (auto simp: not_started_def writer_step_def system_step_def serving_def started_def split_beta)

lemma not_started_steps: "not_started (fst s) \<Longrightarrow> not_started (fst (writer_steps evs s))"
  by (induction evs arbitrary: s) (simp_all add: writer_steps_def not_started_step)

text \<open>C37: a negative resident size is fatal. \<open>New\<close> accepts it, but such a writer never becomes ready
  and generates no record, whatever happens; if the directory and the log can be opened, \<open>Run\<close>
  panics.\<close>

theorem negative_resident_never_ready:
  assumes "new_writer None cfg = Inr w0" and "wc_ResidentBytes cfg < 0"
    and "writer_steps evs (w0, fs) = (w, fs')"
  shows "\<not> WaitReady None w r \<and> generated w = 0 \<and>
    w_pc (fst (writer_steps [SysOk t, SysOk t'] (w0, fs))) = PcPanic"
proof -
  have cfg: "wc_ResidentBytes (w_cfg w0) < 0" "\<not> w_ready w0"
    using assms(1,2) by (auto simp: new_writer_def default_config_def Let_def split: if_splits)
  then have "not_started w0"
    using new_writer_Inr(5,7) [OF assms(1)] by (simp add: not_started_def zero_WriterState_def)
  from not_started_steps [of "(w0, fs)" evs] this assms(3) have "not_started w" by simp
  moreover have "w_pc (fst (writer_steps [SysOk t, SysOk t'] (w0, fs))) = PcPanic"
    using cfg new_writer_Inr(5) [OF assms(1)]
    by (simp add: writer_steps_def writer_step_def system_step_def started_def split_beta)
  ultimately show ?thesis by (simp add: not_started_def WaitReady_def)
qed

theorem negative_resident_never_ready_witness:
  "\<exists>w0. new_writer None (sample_writer_config\<lparr>wc_ResidentBytes := - 1\<rparr>) = Inr w0 \<and>
     w_pc (fst (writer_steps [SysOk 0, SysOk 0] (w0, empty_fs))) = PcPanic"
proof -
  let ?cfg = "sample_writer_config\<lparr>wc_ResidentBytes := - 1\<rparr>"
  obtain w0 where "new_writer None ?cfg = Inr w0"
    by (simp add: new_writer_def valid_writer_config_def sample_writer_config_def)
  with negative_resident_never_ready [OF this _ prod.collapse [symmetric], of "[]" empty_fs None 0 0]
  show ?thesis by simp
qed

end
