(* ===== verification/Retention.thy ===== *)
theory Retention
  imports Rotation
begin

text \<open>
  \<open>EnforceRetention\<close> of \<open>internal/rotator/rotator.go\<close> against what it promises. The abstraction
  \<open>kept_ordinals\<close> of a file system is the set of ordinals whose backup exists, and the abstract
  operation \<open>newest m\<close> drops all but the \<open>m\<close> largest; the program implements it in every
  interleaving with the writer, and when it fails half way it has removed only ordinals that had
  to go.
\<close>

definition kept_ordinals :: "string \<Rightarrow> fs \<Rightarrow> nat set" where
  "kept_ordinals active fs = {k. find_ino fs (BackupPath active (int k)) \<noteq> None}"

definition newest :: "nat \<Rightarrow> nat set \<Rightarrow> nat set" where
  "newest m S = {k \<in> S. card {j \<in> S. k < j} < m}"

text \<open>Every file that looks like a numbered backup was named by \<open>BackupPath\<close>.\<close>

definition own_backups :: "string \<Rightarrow> fs \<Rightarrow> bool" where
  "own_backups active fs \<longleftrightarrow>
     (\<forall>p. find_ino fs p \<noteq> None \<and> backup_name active p \<and>
          snd (atoi (trim_prefix p (active @ ''.''))) = None \<longrightarrow>
        (\<exists>k. p = BackupPath active (int k) \<and> k < 2 ^ 63)) \<and>
     (\<forall>k \<in> kept_ordinals active fs. k < 2 ^ 63)"

subsection \<open>The writer and the directory\<close>

definition same_names :: "string \<Rightarrow> fs \<Rightarrow> fs \<Rightarrow> bool" where
  "same_names active fs fs' \<longleftrightarrow> (\<forall>p. p \<noteq> active \<longrightarrow> find_ino fs' p = find_ino fs p)"

lemma same_names_refl [simp]: "same_names active fs fs"
  by (simp add: same_names_def)

lemma same_names_trans: "same_names active a b \<Longrightarrow> same_names active b c \<Longrightarrow> same_names active a c"
  by (simp add: same_names_def)

lemma same_names_kept: "same_names active fs fs' \<Longrightarrow> kept_ordinals active fs' = kept_ordinals active fs"
  by (simp add: same_names_def kept_ordinals_def)

lemma step_names:
  assumes "writer_step ev (w, fs) = (w', fs')" and "fs_wf fs"
  shows "log_path w' = log_path w \<and> fs_wf fs' \<and> same_names (log_path w) fs fs'"
proof -
  have cfg: "w_cfg w' = w_cfg w"
    using writer_step_effect [of w fs ev] assms(1) by (simp add: writer_effect_def same_run_def)
  consider "fs' = fs" | i s where "fs' = fs_append i s fs"
    | i where "fs_open_create (log_path w) fs = (Inr i, fs')"
    using writer_step_effect [of w fs ev] assms(1) by (auto simp: writer_effect_def)
  then show ?thesis
  proof cases
    case 3
    then show ?thesis
      using assms(2) fs_wf_create [of fs "log_path w"]
      by (auto simp: cfg same_names_def fs_open_create_def case_prod_beta split: option.splits)
  qed (use assms(2) in \<open>simp_all add: cfg same_names_def\<close>)
qed

lemma steps_names:
  "writer_steps evs (w, fs) = (w', fs') \<Longrightarrow> fs_wf fs \<Longrightarrow>
   log_path w' = log_path w \<and> fs_wf fs' \<and> same_names (log_path w) fs fs'"
proof (induction evs arbitrary: w fs)
  case (Cons ev evs)
  obtain w1 fs1 where s: "writer_step ev (w, fs) = (w1, fs1)" by fastforce
  with Cons.prems(1) have "writer_steps evs (w1, fs1) = (w', fs')" by (simp add: writer_steps_def)
  from Cons.IH [OF this] step_names [OF s Cons.prems(2)] show ?case
    using same_names_trans by auto
qed (simp add: writer_steps_def)

text \<open>The worlds in which the log of the writer is \<open>active\<close>.\<close>

definition logs_to :: "string \<Rightarrow> world \<Rightarrow> bool" where
  "logs_to active w \<longleftrightarrow> log_path (writer w) = active \<and> fs_wf (files w)"

lemma slot_names:
  assumes "take_slot w = (s, w')" and "logs_to active w"
  shows "logs_to active w' \<and> same_names active (files w) (files w')"
proof (cases "sched w")
  case (Cons s' ss)
  obtain wr fs where st: "writer_steps (sl_events s') (writer w, files w) = (wr, fs)" by fastforce
  with Cons assms steps_names [OF st] show ?thesis
    by (auto simp: take_slot_def run_events_def logs_to_def)
qed (use assms in \<open>simp add: take_slot_def\<close>)

subsection \<open>Removing\<close>

lemma sys_remove_names:
  assumes "sys_remove p w = (r, w')" and "logs_to active w" and "p \<noteq> active"
  shows "logs_to active w' \<and> (\<forall>q. q \<noteq> active \<longrightarrow>
    find_ino (files w') q = (if r = Inr () \<and> q = p then None else find_ino (files w) q))"
proof -
  obtain s w1 where s: "take_slot w = (s, w1)" by fastforce
  note n = slot_names [OF s assms(2)]
  show ?thesis
  proof (cases "sl_fault s = None \<and> find_ino (files w1) p \<noteq> None")
    case True
    then obtain i where "find_ino (files w1) p = Some i" by blast
    with True n assms(1) find_ino_remove [OF this] fs_wf_remove [of "files w1" p] show ?thesis
      by (auto simp: sys_remove_def syscall_def s fs_remove_def logs_to_def same_names_def)
  next
    case False
    then show ?thesis
      using n assms(1)
      by (auto simp: sys_remove_def syscall_def s fs_remove_def logs_to_def same_names_def
          split: option.splits)
  qed
qed

lemma remove_excess_names:
  assumes "remove_excess (int m) bs w = (r, w')" and "logs_to active w" and "active \<notin> fst ` set bs"
  shows "logs_to active w' \<and> (\<exists>d \<le> length bs - m. (r = Inr () \<longrightarrow> d = length bs - m) \<and>
    (\<forall>q. q \<noteq> active \<longrightarrow>
      find_ino (files w') q = (if q \<in> fst ` set (take d bs) then None else find_ino (files w) q)))"
  using assms
proof (induction bs arbitrary: w)
  case (Cons b bs)
  show ?case
  proof (cases "m < length (b # bs)")
    case False
    with Cons.prems show ?thesis by (auto simp: return_io_def)
  next
    case True
    then have len: "length (b # bs) - m = Suc (length bs - m)" by simp
    obtain r1 w1 where 1: "sys_remove (fst b) w = (r1, w1)" by fastforce
    have "fst b \<noteq> active" using Cons.prems(3) by auto
    note n = sys_remove_names [OF 1 Cons.prems(2) this]
    show ?thesis
    proof (cases r1)
      case (Inl e)
      then have "r = Inl e \<and> w' = w1" using Cons.prems(1) True 1 by (simp add: try_io_def)
      with n Inl show ?thesis by (intro conjI exI [of _ 0]) auto
    next
      case (Inr u)
      then have "remove_excess (int m) bs w1 = (r, w')"
        using Cons.prems(1) True 1 by (simp add: try_io_def)
      from Cons.IH [OF this] n Cons.prems(3) obtain d where d: "logs_to active w'"
          "d \<le> length bs - m" "r = Inr () \<longrightarrow> d = length bs - m"
          "\<forall>q. q \<noteq> active \<longrightarrow>
             find_ino (files w') q = (if q \<in> fst ` set (take d bs) then None else find_ino (files w1) q)"
        by auto
      then show ?thesis
        unfolding len using n Inr by (intro conjI exI [of _ "Suc d"]) auto
    qed
  qed
qed (auto simp: return_io_def)

subsection \<open>The files the glob finds\<close>

lemma atoi_fmt_06d: "k < 2 ^ 63 \<Longrightarrow> atoi (fmt_06d (int k)) = (int k, None)"
proof -
  assume k: "k < 2 ^ 63"
  have d: "fmt_06d (int k) \<noteq> []" "list_all is_digit (fmt_06d (int k))"
      "digits_val (fmt_06d (int k)) = k"
    by (simp_all add: fmt_06d_def)
  then have "is_digit (hd (fmt_06d (int k)))" by (cases "fmt_06d (int k)") auto
  then have "hd (fmt_06d (int k)) \<noteq> CHR ''+''" "hd (fmt_06d (int k)) \<noteq> CHR ''-''"
    by (auto simp: is_digit_def)
  moreover have "unat (of_nat k :: u64) = k" using k by (simp add: unat_of_nat_u64)
  ultimately show ?thesis
    using d k by (simp add: parse_int_def Let_def parse_uint_digits)
qed

lemma trim_BackupPath [simp]: "trim_prefix (BackupPath active n) (active @ ''.'') = fmt_06d n"
  by (simp add: trim_prefix_def has_prefix_def BackupPath_def)

lemma in_backup_ordinals:
  "(p, n) \<in> set (backup_ordinals active ps) \<longleftrightarrow>
   p \<in> set ps \<and> atoi (trim_prefix p (active @ ''.'')) = (n, None)"
  by (induction ps) (auto simp: backup_ordinals_def List.map_filter_simps split: prod.splits option.splits)

lemma map_fst_backup_ordinals:
  "map fst (backup_ordinals active ps) =
   filter (\<lambda>p. snd (atoi (trim_prefix p (active @ ''.''))) = None) ps"
  by (induction ps) (auto simp: backup_ordinals_def List.map_filter_simps split: prod.split option.split)

text \<open>Sorted by ordinal, the matches are the backups of the ordinals that exist, in order.\<close>

lemma sorted_backups:
  assumes own: "own_backups active fs" and wf: "fs_wf fs"
  shows "\<exists>ks. sort_key snd (backup_ordinals active (glob_backups active fs)) =
      map (\<lambda>k. (BackupPath active (int k), int k)) ks \<and>
    sorted ks \<and> distinct ks \<and> set ks = kept_ordinals active fs"
proof -
  let ?L = "sort_key snd (backup_ordinals active (glob_backups active fs))"
  have mem: "(p, n) \<in> set ?L \<longleftrightarrow> (\<exists>k \<in> kept_ordinals active fs. p = BackupPath active (int k) \<and> n = int k)"
    for p n
  proof
    assume "(p, n) \<in> set ?L"
    then have p: "find_ino fs p \<noteq> None" "backup_name active p"
        "atoi (trim_prefix p (active @ ''.'')) = (n, None)"
      by (auto simp: in_backup_ordinals glob_backups_def find_ino_None)
    with own obtain k where "p = BackupPath active (int k)" "k < 2 ^ 63"
      by (auto simp: own_backups_def)
    with p show "\<exists>k \<in> kept_ordinals active fs. p = BackupPath active (int k) \<and> n = int k"
      by (auto simp: kept_ordinals_def atoi_fmt_06d)
  next
    assume "\<exists>k \<in> kept_ordinals active fs. p = BackupPath active (int k) \<and> n = int k"
    then obtain k where k: "k \<in> kept_ordinals active fs" "p = BackupPath active (int k)" "n = int k"
      by blast
    moreover have "k < 2 ^ 63" using own k(1) by (simp add: own_backups_def)
    moreover have "p \<in> set (map fst (dirents fs))"
      using k find_ino_None [of fs p] by (auto simp: kept_ordinals_def)
    ultimately show "(p, n) \<in> set ?L"
      by (simp add: in_backup_ordinals glob_backups_def atoi_fmt_06d backup_name_BackupPath)
  qed
  define ks where "ks = map (nat \<circ> snd) ?L"
  have L: "?L = map (\<lambda>k. (BackupPath active (int k), int k)) ks"
    unfolding ks_def list.map_comp
  proof (rule map_idI [symmetric])
    fix x
    assume "x \<in> set ?L"
    then obtain p n where "x = (p, n)" "(p, n) \<in> set ?L" by (metis prod.collapse)
    with mem [of p n] show "((\<lambda>k. (BackupPath active (int k), int k)) \<circ> (nat \<circ> snd)) x = x" by auto
  qed
  have set_ks: "set ks = kept_ordinals active fs"
    using mem by (force simp: ks_def image_iff)
  have "sorted (map snd ?L)" by simp
  then have s: "sorted ks" unfolding L list.map_comp comp_def by (simp add: sorted_map)
  have "distinct (map fst (backup_ordinals active (glob_backups active fs)))"
    using wf by (simp add: map_fst_backup_ordinals glob_backups_def fs_wf_def)
  then have "distinct (map fst ?L)" by (simp add: distinct_map)
  then have "distinct ks" unfolding L list.map_comp by (simp add: distinct_map)
  with L s set_ks show ?thesis by blast
qed

lemma newest_sorted:
  assumes "sorted ks" and "distinct ks"
  shows "newest m (set ks) = set (drop (length ks - m) ks)"
proof -
  have "card {j \<in> set ks. ks ! i < j} = length ks - Suc i" if "i < length ks" for i
  proof -
    have ss: "sorted_wrt (<) ks" using assms by (simp add: strict_sorted_iff)
    have "{j \<in> set ks. ks ! i < j} = set (drop (Suc i) ks)"
    proof (intro set_eqI iffI)
      fix j
      assume "j \<in> {j \<in> set ks. ks ! i < j}"
      then obtain l where l: "l < length ks" "j = ks ! l" "ks ! i < ks ! l" by (auto simp: in_set_conv_nth)
      then have "i < l" using sorted_nth_mono [OF assms(1), of l i] that by (meson leD leI)
      with l show "j \<in> set (drop (Suc i) ks)"
        by (auto simp: in_set_conv_nth intro!: exI [of _ "l - Suc i"])
    next
      fix j
      assume "j \<in> set (drop (Suc i) ks)"
      then obtain l where "l < length (drop (Suc i) ks)" "j = drop (Suc i) ks ! l"
        by (metis in_set_conv_nth)
      then have "Suc i + l < length ks" "j = ks ! (Suc i + l)" by simp_all
      with sorted_wrt_nth_less [OF ss, of i "Suc i + l"] show "j \<in> {j \<in> set ks. ks ! i < j}" by simp
    qed
    then show ?thesis using assms(2) by (simp add: distinct_card)
  qed
  note card = this
  show ?thesis
  proof (intro set_eqI iffI)
    fix k
    assume "k \<in> newest m (set ks)"
    then obtain i where i: "i < length ks" "k = ks ! i" "length ks - Suc i < m"
      using card by (auto simp: newest_def in_set_conv_nth)
    then show "k \<in> set (drop (length ks - m) ks)"
      by (auto simp: in_set_conv_nth intro!: exI [of _ "i - (length ks - m)"])
  next
    fix k
    assume "k \<in> set (drop (length ks - m) ks)"
    then obtain l where "length ks - m + l < length ks" "k = ks ! (length ks - m + l)"
      by (auto simp: in_set_conv_nth less_diff_conv add.commute)
    with card show "k \<in> newest m (set ks)" by (auto simp: newest_def)
  qed
qed

subsection \<open>Retention keeps the newest\<close>

lemma own_backups_names:
  assumes "same_names active fs fs'" and "own_backups active fs"
  shows "own_backups active fs'"
proof -
  have "p \<noteq> active" if "backup_name active p" for p
    using that by (auto simp: backup_name_def has_prefix_def)
  with assms show ?thesis
    unfolding own_backups_def same_names_kept [OF assms(1)] same_names_def by metis
qed

text \<open>The call that reads the directory is the first one and does not fail.\<close>

definition glob_readable :: "world \<Rightarrow> bool" where
  "glob_readable w \<longleftrightarrow> (case sched w of [] \<Rightarrow> False | s # ss \<Rightarrow> sl_fault s = None)"

lemma sys_glob_names:
  assumes "sys_glob active w = (ps, w')" and "logs_to active w"
  shows "logs_to active w' \<and> same_names active (files w) (files w') \<and>
    (if glob_readable w then ps = glob_backups active (files w') else ps = [])"
proof -
  obtain s w1 where s: "take_slot w = (s, w1)" by fastforce
  have "w' = w1" "ps = (case sl_fault s of Some e \<Rightarrow> [] | None \<Rightarrow> glob_backups active (files w1))"
    using assms(1) by (simp_all add: sys_glob_def s)
  moreover have "glob_readable w \<longleftrightarrow> sl_fault s = None"
    using s by (auto simp: glob_readable_def take_slot_def end_slot_def split: list.splits)
  ultimately show ?thesis using slot_names [OF s assms(2)] by auto
qed

text \<open>C14: retention implements \<open>newest\<close>. Whatever the writer does meanwhile and whichever calls fail,
  the ordinals that are left include the newest \<open>m\<close> of those that were there; they are exactly
  these when \<open>EnforceRetention\<close> returns nil and could read the directory; and no other file is
  removed or renamed.\<close>

theorem retention_keeps_newest:
  assumes "EnforceRetention active (int m) w = (r, w')" and "0 < m"
    and "logs_to active w" and "own_backups active (files w)"
  shows "newest m (kept_ordinals active (files w)) \<subseteq> kept_ordinals active (files w') \<and>
    kept_ordinals active (files w') \<subseteq> kept_ordinals active (files w) \<and>
    (r = Inr () \<and> glob_readable w \<longrightarrow>
      kept_ordinals active (files w') = newest m (kept_ordinals active (files w))) \<and>
    (\<forall>p. p \<noteq> active \<and> p \<notin> (\<lambda>k. BackupPath active (int k)) ` kept_ordinals active (files w) \<longrightarrow>
      find_ino (files w') p = find_ino (files w) p)"
proof -
  obtain ps w1 where g: "sys_glob active w = (ps, w1)" by fastforce
  note n = sys_glob_names [OF g assms(3)]
  let ?S = "kept_ordinals active (files w)"
  let ?b = "\<lambda>k. (BackupPath active (int k), int k)"
  have S: "kept_ordinals active (files w1) = ?S" using same_names_kept [of active "files w" "files w1"] n by simp
  have "own_backups active (files w1)" using own_backups_names n assms(4) by blast
  with sorted_backups [of active "files w1"] n obtain ks where ks: "sorted ks" "distinct ks" "set ks = ?S"
      "sort_key snd (backup_ordinals active (glob_backups active (files w1))) = map ?b ks"
    by (auto simp: logs_to_def S)
  define bs where "bs = (if glob_readable w then map ?b ks else [])"
  have "remove_excess (int m) bs w1 = (r, w')"
    using assms(1,2) n g ks(4) by (auto simp: EnforceRetention_def bs_def backup_ordinals_def List.map_filter_simps)
  moreover have "active \<notin> fst ` set bs" by (auto simp: bs_def)
  ultimately obtain d where d: "d \<le> length bs - m" "r = Inr () \<longrightarrow> d = length bs - m"
      "\<forall>q. q \<noteq> active \<longrightarrow>
         find_ino (files w') q = (if q \<in> fst ` set (take d bs) then None else find_ino (files w1) q)"
    using remove_excess_names n by blast
  have gone: "fst ` set (take d bs) = (\<lambda>k. BackupPath active (int k)) ` set (take d ks)" and dl: "d \<le> length ks - m"
    using d(1) by (auto simp: bs_def take_map image_image split: if_splits)
  have left: "kept_ordinals active (files w') = ?S - set (take d ks)"
    unfolding kept_ordinals_def using d(3) S
    by (auto simp: gone image_iff kept_ordinals_def dest!: BackupPath_inj) 
  have split: "set ks = set (take d ks) \<union> set (drop d ks)" "set (take d ks) \<inter> set (drop d ks) = {}"
    using ks(2) by (metis append_take_drop_id set_append, metis append_take_drop_id distinct_append)
  then have "kept_ordinals active (files w') = set (drop d ks)" using left ks(3) by auto
  moreover have "newest m ?S = set (drop (length ks - m) ks)"
    using newest_sorted [OF ks(1,2)] ks(3) by simp
  moreover have "set (drop (length ks - m) ks) \<subseteq> set (drop d ks)" using dl by (rule set_drop_subset_set_drop)
  moreover have "find_ino (files w') p = find_ino (files w) p"
    if "p \<noteq> active" "p \<notin> (\<lambda>k. BackupPath active (int k)) ` ?S" for p
    using that d(3) n ks(3) set_take_subset [of d ks] by (auto simp: gone same_names_def)
  ultimately show ?thesis using left d(2) by (auto simp: bs_def)
qed

definition crowded :: world where
  "crowded = \<lparr>files = \<lparr>dirents = [(BackupPath ''envoy.log'' 3, 2), (BackupPath ''envoy.log'' 1, 0),
       (BackupPath ''envoy.log'' 2, 1), (''envoy.log'', 3)], contents = \<lambda>_. [], next_ino = 4\<rparr>,
     writer = sample_writer, sched = [ok_slot, ok_slot], clock = 0, url_error = \<lambda>_. None\<rparr>"

lemma sample_backup_eq:
  "BackupPath a (int k) = BackupPath a 1 \<longleftrightarrow> k = 1" "BackupPath a (int k) = BackupPath a 2 \<longleftrightarrow> k = 2"
  "BackupPath a (int k) = BackupPath a 3 \<longleftrightarrow> k = 3"
  using BackupPath_inj [of a k 1] BackupPath_inj [of a k 2] BackupPath_inj [of a k 3] by auto

lemma kept_crowded: "kept_ordinals ''envoy.log'' (files crowded) = {1, 2, 3}"
  by (auto simp: kept_ordinals_def find_ino_def crowded_def sample_backup_eq)

lemma crowded_names:
  "find_ino (files crowded) p \<noteq> None \<Longrightarrow>
   p = ''envoy.log'' \<or> (\<exists>k \<in> {1, 2, 3}. p = BackupPath ''envoy.log'' (int k))"
  by (auto simp: find_ino_def crowded_def split: if_splits)

lemma crowded_ok: "logs_to ''envoy.log'' crowded" "own_backups ''envoy.log'' (files crowded)" "glob_readable crowded"
proof -
  have "distinct (map fst (dirents (files crowded)))"
    using sample_backup_eq [of "''envoy.log''" 1] sample_backup_eq [of "''envoy.log''" 3]
    by (simp add: crowded_def)
  then have "fs_wf (files crowded)" by (simp add: fs_wf_def) (simp add: crowded_def)
  then show "logs_to ''envoy.log'' crowded"
    by (simp add: logs_to_def) (simp add: crowded_def sample_writer_def sample_writer_config_def
        default_config_def)
  have no: "\<not> backup_name ''envoy.log'' ''envoy.log''" by (simp add: backup_name_def has_prefix_def)
  have small: "k < 2 ^ 63" if "k \<in> {1, 2, 3}" for k :: nat using that by auto
  have "\<exists>k. p = BackupPath ''envoy.log'' (int k) \<and> k < 2 ^ 63"
    if "find_ino (files crowded) p \<noteq> None" "backup_name ''envoy.log'' p" for p
    using crowded_names [OF that(1)] no that(2) small by blast
  with small show "own_backups ''envoy.log'' (files crowded)"
    unfolding own_backups_def kept_crowded by blast
  show "glob_readable crowded" by (simp add: glob_readable_def crowded_def ok_slot_def)
qed

lemma crowded_run: "fst (EnforceRetention ''envoy.log'' 2 crowded) = Inr ()"
proof -
  let ?b = "\<lambda>k. (BackupPath ''envoy.log'' (int k), int k)"
  obtain ks where ks: "sorted ks" "distinct ks" "set ks = {1, 2, 3}"
      "sort_key snd (backup_ordinals ''envoy.log'' (glob_backups ''envoy.log'' (files crowded))) = map ?b ks"
    using sorted_backups [OF crowded_ok(2)] crowded_ok(1) by (auto simp: logs_to_def kept_crowded)
  have "ks = [1, 2, 3]" by (rule sorted_distinct_set_unique) (use ks in auto)
  moreover have "fst (sys_remove (BackupPath ''envoy.log'' 1) (crowded\<lparr>sched := [ok_slot]\<rparr>)) = Inr ()"
    using sample_backup_eq(3) [of "''envoy.log''" 1]
    by (simp add: sys_remove_def syscall_def take_slot_def ok_slot_def run_events_def writer_steps_def
        fs_remove_def find_ino_def crowded_def)
  moreover have "take_slot crowded = (ok_slot, crowded\<lparr>sched := [ok_slot]\<rparr>)"
    by (simp add: take_slot_def crowded_def ok_slot_def run_events_def writer_steps_def)
  ultimately show ?thesis
    using ks(4) by (auto simp: EnforceRetention_def sys_glob_def ok_slot_def try_io_def return_io_def
        split: prod.split)
qed

theorem retention_keeps_newest_witness:
  "\<exists>w'. EnforceRetention ''envoy.log'' 2 crowded = (Inr (), w') \<and>
     kept_ordinals ''envoy.log'' (files w') = {2, 3}"
proof -
  obtain w' where run: "EnforceRetention ''envoy.log'' (int 2) crowded = (Inr (), w')"
    using crowded_run by (metis of_nat_numeral prod.collapse)
  moreover have "newest 2 {1, 2, 3} = {2, 3}" using newest_sorted [of "[1, 2, 3]" 2] by simp
  ultimately show ?thesis
    using retention_keeps_newest [OF run _ crowded_ok(1,2)] kept_crowded crowded_ok(3) by simp
qed

end
