(* ===== verification/EventLog.thy ===== *)
theory EventLog
  imports LogIntegrity Retention
begin

text \<open>
  The event log of \<open>internal/rotator/rotator.go\<close> as a CSV table that \<open>ReadEvents\<close> reads back, and
  what keeps it apart from the log: a third invariant that interprets \<open>log_keeper\<close>, by which the
  writer and the calls of a rotation touch a given list of files only, so that nothing but
  \<open>appendEvent\<close> changes the event log.
\<close>

subsection \<open>The rows are read back\<close>

definition good_event :: "RotationEvent \<Rightarrow> bool" where
  "good_event ev \<longleftrightarrow> CR \<notin> set (ev_Timestamp ev @ ev_Phase ev @ ev_Error ev)"

text \<open>An integer that is printed and parsed again; one that does not fit is clipped.\<close>

definition reparsed :: "int \<Rightarrow> int" where
  "reparsed x = fst (parse_int (format_int x))"

definition read_event :: "RotationEvent \<Rightarrow> RotationEvent" where
  "read_event ev = ev\<lparr>ev_ElapsedNS := reparsed (ev_ElapsedNS ev), ev_Ordinal := reparsed (ev_Ordinal ev),
     ev_Bytes := reparsed (ev_Bytes ev)\<rparr>"

interpretation event_table: csv_table event_header event_row good_event decode_event read_event
proof
  show "safe_row event_header" by (simp add: safe_row_def event_header_def)
  fix ev assume "good_event ev"
  then show "safe_row (event_row ev) \<and> length (event_row ev) = length event_header"
    using format_int_CR by (simp add: safe_row_def event_header_def event_row_def good_event_def)
  show "decode_event (event_row ev) = read_event ev"
    by (simp add: decode_event_def event_row_def read_event_def reparsed_def)
qed

lemma decode_event_rows:
  "\<forall>ev \<in> set evs. good_event ev \<Longrightarrow>
   map decode_event (filter (\<lambda>row. 6 \<le> length row) (map event_row evs)) = map read_event evs"
  using event_table.dec_row by (induction evs) (simp_all add: event_row_def)

text \<open>The text of the log. The header is missing when the first \<open>Stat\<close> of the file failed; then
  \<open>ReadEvents\<close> takes the first event for the header.\<close>

definition event_text :: "bool \<Rightarrow> RotationEvent list \<Rightarrow> string" where
  "event_text hdr evs =
     (if evs = [] then [] else (if hdr then csv_row event_header else []) @ concat (map (csv_row \<circ> event_row) evs))"

lemma event_text_Nil: "event_text hdr evs = [] \<longleftrightarrow> evs = []"
proof -
  have "csv_row (event_row ev) \<noteq> []" for ev by (simp add: event_row_def)
  moreover have "csv_row event_header \<noteq> []" by (simp add: event_header_def)
  ultimately show ?thesis by (cases evs) (simp_all add: event_text_def)
qed

lemma event_text_snoc:
  "evs \<noteq> [] \<Longrightarrow> event_text hdr evs @ csv_row (event_row ev) = event_text hdr (evs @ [ev])"
  by (simp add: event_text_def)

lemma read_event_text:
  assumes "\<forall>ev \<in> set evs. good_event ev"
  shows "ReadEvents (Inr (event_text hdr evs)) = Inr (map read_event (if hdr then evs else drop 1 evs))"
proof -
  have rows: "\<forall>row \<in> set (event_header # map event_row evs). safe_row row \<and> length row = 6"
    using assms event_table.header_safe event_table.row_safe
    by (auto simp: event_header_def event_row_def)
  consider "evs = []" | "evs \<noteq> []" "hdr" | "evs \<noteq> []" "\<not> hdr" by blast
  then show ?thesis
  proof cases
    case 1
    then show ?thesis
      using csv_read_written [of "[]" 6] by (simp add: event_text_def ReadEvents_def decode_events_def)
  next
    case 2
    then have "csv_read_all (event_text hdr evs) = Inr (event_header # map event_row evs)"
      using event_table.read_table [OF assms]
      by (simp add: event_text_def event_table.table_text_def comp_def)
    with 2 decode_event_rows [OF assms] show ?thesis by (simp add: ReadEvents_def decode_events_def)
  next
    case 3
    then have "csv_read_all (event_text hdr evs) = Inr (map event_row evs)"
      using csv_read_written [of "map event_row evs" 6] rows by (simp add: event_text_def comp_def)
    with 3 decode_event_rows [of "drop 1 evs"] assms show ?thesis
      by (simp add: ReadEvents_def decode_events_def drop_map in_set_dropD)
  qed
qed

subsection \<open>Processes that touch only given files\<close>

definition touches :: "string list \<Rightarrow> Writer \<Rightarrow> fs \<Rightarrow> bool" where
  "touches ps wr fs \<longleftrightarrow> fs_wf fs \<and> log_path wr \<in> set ps \<and>
     (\<forall>i. w_file wr = Some i \<longrightarrow> i < next_ino fs \<and> (\<forall>p. p \<notin> set ps \<longrightarrow> find_ino fs p \<noteq> Some i))"

lemma next_ino_simps [simp]:
  "next_ino (fs_append i s fs) = next_ino fs" "next_ino (snd (fs_create p fs)) = Suc (next_ino fs)"
  by (simp_all add: fs_append_def fs_create_def)

lemma others_append_in:
  "\<forall>p. p \<notin> set ps \<longrightarrow> find_ino fs p \<noteq> Some i \<Longrightarrow> others_kept ps fs (fs_append i s fs)"
  by (auto simp: others_kept_def)

lemma touches_step:
  assumes "touches ps w fs" and "writer_step ev (w, fs) = (w', fs')"
  shows "touches ps w' fs' \<and> others_kept ps fs fs'"
proof -
  have cfg: "w_cfg w' = w_cfg w"
    using writer_step_effect [of w fs ev] assms(2) by (simp add: writer_effect_def same_run_def)
  consider "fs' = fs" "w_file w' = w_file w \<or> w_file w' = None"
    | i s where "w_file w = Some i" "fs' = fs_append i s fs" "w_file w' = Some i"
    | i where "fs_open_create (log_path w) fs = (Inr i, fs')" "w_file w' = Some i"
    using writer_step_effect [of w fs ev] assms(2) by (auto simp: writer_effect_def)
  then show ?thesis
  proof cases
    case 1
    with assms(1) cfg show ?thesis by (auto simp: touches_def)
  next
    case 2
    with assms(1) cfg others_append_in [of ps fs] show ?thesis by (auto simp: touches_def)
  next
    case 3
    have wf: "fs_wf fs" and p: "log_path w \<in> set ps" using assms(1) by (simp_all add: touches_def)
    show ?thesis
    proof (cases "find_ino fs (log_path w)")
      case None
      then have "fs' = snd (fs_create (log_path w) fs)" "i = next_ino fs"
        using 3(1) by (auto simp: fs_open_create_def case_prod_beta) (simp add: fs_create_def)
      with 3(2) wf p cfg None fs_wf_create others_create [OF wf p] show ?thesis
        by (auto simp: touches_def dest: find_ino_less)
    next
      case (Some j)
      then have "fs' = fs" "i = j" using 3(1) by (simp_all add: fs_open_create_def)
      moreover have "j < next_ino fs" using find_ino_less [OF wf Some] .
      moreover have "find_ino fs q \<noteq> Some j" if "q \<notin> set ps" for q
        using find_ino_inj [OF wf Some, of q] that p by auto
      ultimately show ?thesis using 3(2) wf p cfg by (auto simp: touches_def)
    qed
  qed
qed

lemma touches_steps:
  "touches ps w fs \<Longrightarrow> writer_steps evs (w, fs) = (w', fs') \<Longrightarrow> touches ps w' fs' \<and> others_kept ps fs fs'"
proof (induction evs arbitrary: w fs)
  case (Cons ev evs)
  obtain w1 fs1 where s: "writer_step ev (w, fs) = (w1, fs1)" by fastforce
  note k = touches_step [OF Cons.prems(1) s]
  have "writer_steps evs (w1, fs1) = (w', fs')" using Cons.prems(2) s by (simp add: writer_steps_def)
  with Cons.IH k others_kept_trans show ?case by blast
qed (simp add: writer_steps_def)

interpretation paths_only: log_keeper touches
proof
  show "touches ps wr fs \<Longrightarrow> p \<notin> set ps \<Longrightarrow> find_ino fs p = Some f \<Longrightarrow> touches ps wr (fs_append f s fs)"
    for ps wr fs p f s
    by (simp add: touches_def)
  show "touches ps wr fs \<Longrightarrow> p \<notin> set ps \<Longrightarrow> find_ino fs p = None \<Longrightarrow> touches ps wr (snd (fs_create p fs))"
    for ps wr fs p
    by (auto simp: touches_def fs_wf_create)
  show "touches ps wr fs \<Longrightarrow> writer_steps evs (wr, fs) = (wr', fs') \<Longrightarrow>
      touches ps wr' fs' \<and> others_kept ps fs fs'" for ps wr fs evs wr' fs'
    by (rule touches_steps)
qed (simp_all add: touches_def)

subsection \<open>The calls of a rotation touch only the log's files\<close>

lemma safe_syscall:
  assumes "\<And>wr fs. touches ps wr fs \<Longrightarrow> touches ps wr (snd (f fs)) \<and> others_kept ps fs (snd (f fs))"
  shows "paths_only.safe ps ps (syscall mk f)"
proof -
  have "paths_only.IW ps w' \<and> others_kept ps (files w) (files w')"
    if w: "paths_only.IW ps w" and t: "syscall mk f w = (r, w')" for w r w'
  proof -
    obtain s w1 where s: "take_slot w = (s, w1)" by fastforce
    note k = paths_only.slot_keeps [OF s w]
    have "w' = w1 \<or> w' = w1\<lparr>files := snd (f (files w1))\<rparr>"
      using t by (auto simp: syscall_def s split: option.splits prod.splits sum.splits)
    with k assms [OF k(1)] others_kept_trans show ?thesis by auto
  qed
  then show ?thesis by (simp add: paths_only.safe_def)
qed

text \<open>An operation that changes the names and contents of files of \<open>ps\<close> only.\<close>

lemma touches_change:
  assumes "touches ps wr fs" and "fs_wf fs'" and "next_ino fs \<le> next_ino fs'" and "others_kept ps fs fs'"
  shows "touches ps wr fs'"
  using assms by (auto simp: touches_def others_kept_def dest: order_less_le_trans)

lemma safe_open_excl: "p \<in> set ps \<Longrightarrow> paths_only.safe ps ps (sys_open_excl p)"
  unfolding sys_open_excl_def
proof (rule safe_syscall)
  fix wr fs
  assume p: "p \<in> set ps" and t: "touches ps wr fs"
  then have wf: "fs_wf fs" by (simp add: touches_def)
  show "touches ps wr (snd (fs_open_excl p fs)) \<and> others_kept ps fs (snd (fs_open_excl p fs))"
  proof (cases "find_ino fs p")
    case None
    have "snd (fs_open_excl p fs) = snd (fs_create p fs)" by (simp add: fs_open_excl_def None case_prod_beta)
    with touches_change [OF t fs_wf_create [OF wf None] _ others_create [OF wf p]] others_create [OF wf p]
    show ?thesis by simp
  qed (use t in \<open>simp add: fs_open_excl_def\<close>)
qed

lemma others_named:
  assumes "fs_wf fs" and "p \<in> set ps" and "find_ino fs p = Some i" and "dirents fs' = dirents fs"
    and "\<And>j. j \<noteq> i \<Longrightarrow> contents fs' j = contents fs j"
  shows "others_kept ps fs fs'"
proof -
  have "j \<noteq> i" if "q \<notin> set ps" "find_ino fs q = Some j" for q j
    using find_ino_inj [OF assms(1,3), of q] that assms(2) by auto
  with assms(4,5) show ?thesis by (auto simp: others_kept_def find_ino_def)
qed

lemma safe_truncate: "p \<in> set ps \<Longrightarrow> paths_only.safe ps ps (sys_truncate p)"
  unfolding sys_truncate_def
proof (rule safe_syscall)
  fix wr fs
  assume p: "p \<in> set ps" and t: "touches ps wr fs"
  show "touches ps wr (snd (fs_truncate p fs)) \<and> others_kept ps fs (snd (fs_truncate p fs))"
  proof (cases "find_ino fs p")
    case (Some i)
    have wf: "fs_wf fs" using t by (simp add: touches_def)
    have "others_kept ps fs (snd (fs_truncate p fs))"
      by (rule others_named [OF wf p Some]) (simp_all add: fs_truncate_def Some)
    with touches_change [OF t _ _ this] wf show ?thesis by (simp add: fs_truncate_def Some fs_wf_def)
  qed (use t in \<open>simp add: fs_truncate_def\<close>)
qed

lemma safe_remove: "p \<in> set ps \<Longrightarrow> paths_only.safe ps ps (sys_remove p)"
  unfolding sys_remove_def
proof (rule safe_syscall)
  fix wr fs
  assume p: "p \<in> set ps" and t: "touches ps wr fs"
  show "touches ps wr (snd (fs_remove p fs)) \<and> others_kept ps fs (snd (fs_remove p fs))"
  proof (cases "find_ino fs p")
    case (Some i)
    have same: "contents (snd (fs_remove p fs)) = contents fs" "next_ino (snd (fs_remove p fs)) = next_ino fs"
      by (simp_all add: fs_remove_def Some)
    have "others_kept ps fs (snd (fs_remove p fs))"
      using p by (auto simp: others_kept_def find_ino_remove [OF Some] same)
    with touches_change [OF t fs_wf_remove _ this] t show ?thesis by (simp add: same touches_def)
  qed (use t in \<open>simp add: fs_remove_def\<close>)
qed

lemma safe_rename:
  assumes "a \<in> set ps" and "b \<in> set ps" and "a \<noteq> b"
  shows "paths_only.safe ps ps (sys_rename a b)"
  unfolding sys_rename_def
proof (rule safe_syscall)
  fix wr fs
  assume t: "touches ps wr fs"
  show "touches ps wr (snd (fs_rename a b fs)) \<and> others_kept ps fs (snd (fs_rename a b fs))"
  proof (cases "find_ino fs a")
    case (Some i)
    have wf: "fs_wf fs" using t by (simp add: touches_def)
    have "next_ino (snd (fs_rename a b fs)) = next_ino fs" by (simp add: fs_rename_def Some)
    moreover have "others_kept ps fs (snd (fs_rename a b fs))"
      using assms find_ino_rename [OF Some assms(3)] by (auto simp: others_kept_def)
    ultimately show ?thesis using touches_change [OF t fs_wf_rename [OF wf Some]] by simp
  qed (use t in \<open>simp add: fs_rename_def\<close>)
qed

lemma safe_remove_excess:
  "fst ` set bs \<subseteq> set ps \<Longrightarrow> paths_only.safe ps ps (remove_excess m bs)"
  by (induction bs) (auto intro!: paths_only.safe_try safe_remove)

lemma safe_retention:
  assumes "no_other_backups active N (files w)" and "ps = log_names active N"
    and "paths_only.IW ps w" and "EnforceRetention active m w = (r, w')"
  shows "paths_only.IW ps w' \<and> others_kept ps (files w) (files w')"
proof (cases "m \<le> 0")
  case False
  obtain ms w1 where g: "sys_glob active w = (ms, w1)" by fastforce
  obtain s where s: "take_slot w = (s, w1)" using g by (cases "take_slot w") (simp add: sys_glob_def)
  note k = paths_only.slot_keeps [OF s assms(3)]
  have "p \<in> set ps" if "p \<in> set ms" for p
  proof -
    have "backup_name active p" "find_ino (files w1) p \<noteq> None"
      using that g s by (auto simp: sys_glob_def glob_backups_def find_ino_None split: option.splits)
    with assms(1,2) k(2) show ?thesis by (cases "p \<in> set ps") (auto simp: no_other_backups_def others_kept_def)
  qed
  moreover have "fst b \<in> set ms" if "b \<in> set (backup_ordinals active ms)" for b
    using that in_backup_ordinals [of "fst b" "snd b" active ms] by simp
  ultimately have sub: "fst ` set (sort_key snd (backup_ordinals active ms)) \<subseteq> set ps" by force
  have "remove_excess m (sort_key snd (backup_ordinals active ms)) w1 = (r, w')"
    using assms(4) False g by (simp add: EnforceRetention_def)
  from paths_only.safeD [OF safe_remove_excess [OF sub] k(1) this] others_kept_trans [OF k(2)]
  show ?thesis by simp
qed (use assms(3,4) in \<open>simp add: EnforceRetention_def\<close>)

text \<open>A copy into a file that no path outside \<open>ps\<close> names.\<close>

definition inner :: "string list \<Rightarrow> ino \<Rightarrow> world \<Rightarrow> bool" where
  "inner ps i w \<longleftrightarrow> (\<forall>p. p \<notin> set ps \<longrightarrow> find_ino (files w) p \<noteq> Some i)"

lemma inner_kept: "inner ps i w \<Longrightarrow> others_kept ps (files w) (files w') \<Longrightarrow> inner ps i w'"
  by (simp add: inner_def others_kept_def)

lemma inner_write:
  assumes "paths_only.IW ps w" and "inner ps i w" and "sys_write i d w = (r, w')"
  shows "paths_only.IW ps w' \<and> others_kept ps (files w) (files w')"
proof -
  obtain s w1 where s: "take_slot w = (s, w1)" by fastforce
  note k = paths_only.slot_keeps [OF s assms(1)]
  have "inner ps i w1" using inner_kept [OF assms(2) k(2)] .
  then have o: "others_kept ps (files w1) (fs_append i d' (files w1))" for d'
    by (simp add: inner_def others_append_in)
  have "touches ps (writer w1) (fs_append i d' (files w1))" for d'
    by (rule touches_change [OF k(1) _ _ o]) (use k(1) in \<open>simp_all add: touches_def\<close>)
  moreover obtain d' where "w' = w1\<lparr>files := fs_append i d' (files w1)\<rparr>"
    using assms(3) by (auto simp: sys_write_def s split: option.splits)
  ultimately show ?thesis using others_kept_trans [OF k(2) o] by simp
qed

lemma inner_copy:
  "paths_only.IW ps w \<Longrightarrow> inner ps dst w \<Longrightarrow> copy_loop src dst pos w = (r, w') \<Longrightarrow>
   paths_only.IW ps w' \<and> others_kept ps (files w) (files w')"
proof (induction src dst pos w rule: copy_loop.induct)
  case (1 src dst pos w)
  obtain x w1 where x: "sys_read src pos w = (x, w1)" by fastforce
  note k = paths_only.safeD [OF paths_only.safe_read "1.prems"(1) x]
  note eq = "1.prems"(3) [unfolded copy_loop.simps [of src dst pos w] x]
  show ?case
  proof (cases x)
    case (Inr data)
    show ?thesis
    proof (cases "data = []")
      case False
      obtain y w2 where y: "sys_write dst data w1 = (y, w2)" by fastforce
      note k2 = inner_write [OF k(1) inner_kept [OF "1.prems"(2) k(2)] y]
      note o2 = others_kept_trans [OF k(2) k2 [THEN conjunct2]]
      show ?thesis
      proof (cases y)
        case (Inr u)
        with eq \<open>x = Inr data\<close> False y have "copy_loop src dst (pos + length data) w2 = (r, w')" by simp
        from "1.IH" [OF x [symmetric, unfolded \<open>x = Inr data\<close>] refl False y [symmetric, unfolded Inr] refl
          k2 [THEN conjunct1] inner_kept [OF "1.prems"(2) o2] this] o2 others_kept_trans
        show ?thesis by blast
      qed (use eq \<open>x = Inr data\<close> False y k2 o2 in simp)
    qed (use eq k Inr in simp)
  qed (use eq k in simp)
qed

lemma open_excl_inner:
  assumes "paths_only.IW ps w" and "p \<in> set ps" and "sys_open_excl p w = (Inr i, w')"
  shows "inner ps i w'"
proof -
  obtain s w1 where s: "take_slot w = (s, w1)" by fastforce
  have "touches ps (writer w1) (files w1)" using paths_only.slot_keeps [OF s assms(1)] by simp
  then have "fs_wf (files w1)" by (simp add: touches_def)
  moreover have "find_ino (files w') = find_ino (snd (fs_create p (files w1)))" "i = next_ino (files w1)"
    using assms(3) by (auto simp: sys_open_excl_def syscall_def s fs_open_excl_def fs_create_def find_ino_def
        split: option.splits)
  ultimately show ?thesis using assms(2) by (auto simp: inner_def fun_eq_iff dest: find_ino_less)
qed

lemma safe_copy_backup:
  assumes "BackupPath (rc_ActivePath cfg) ordinal \<in> set ps"
  shows "paths_only.safe ps ps (copy_backup cfg ordinal)"
proof -
  let ?b = "BackupPath (rc_ActivePath cfg) ordinal"
  let ?rest = "\<lambda>src dst. try_io (copy_loop src dst 0) (Wrap ''copy: '') (\<lambda>written.
     try_io (sys_quiet ''sync'' ?b) (Wrap ''sync backup: '') (\<lambda>_.
     try_io (sys_quiet ''close'' ?b) (Wrap ''close backup: '') (\<lambda>_. return_io written)))"
  have tail: "paths_only.safe ps ps (\<lambda>w. try_io (sys_open_excl ?b) (Wrap ''create backup: '') (?rest src) w)" for src
  proof -
    have "paths_only.IW ps w' \<and> others_kept ps (files w) (files w')"
      if w: "paths_only.IW ps w" and t: "try_io (sys_open_excl ?b) (Wrap ''create backup: '') (?rest src) w = (r, w')"
      for w r w'
      using t
    proof (cases rule: try_io_cases)
      case (1 e)
      with paths_only.safeD [OF safe_open_excl [OF assms] w] show ?thesis by blast
    next
      case (2 dst w1)
      note k = paths_only.safeD [OF safe_open_excl [OF assms] w 2(1)]
      note i = open_excl_inner [OF w assms 2(1)]
      from 2(2) show ?thesis
      proof (cases rule: try_io_cases)
        case (1 e)
        with inner_copy [OF k(1) i] k(2) others_kept_trans show ?thesis by blast
      next
        case (2 n w2)
        note k2 = inner_copy [OF k(1) i 2(1)]
        have "paths_only.safe ps ps (\<lambda>w. try_io (sys_quiet ''sync'' ?b) (Wrap ''sync backup: '') (\<lambda>_.
            try_io (sys_quiet ''close'' ?b) (Wrap ''close backup: '') (\<lambda>_. return_io n)) w)"
          by (intro paths_only.safe_try paths_only.safe_calls paths_only.safe_return)
        from paths_only.safeD [OF this _ 2(2)] k2 k(2) others_kept_trans show ?thesis by blast
      qed
    qed
    then show ?thesis by (simp add: paths_only.safe_def)
  qed
  show ?thesis
    unfolding copy_backup_def Let_def
    by (intro paths_only.safe_try paths_only.safe_calls tail)
qed

end
