(* ===== verification/EventRun.thy ===== *)
theory EventRun
  imports EventLog Delivery
begin

text \<open>
  What a run of the rotator writes to its event log. \<open>logged\<close> is the state between two events;
  \<open>grows\<close> says which events a program appends when it succeeds, and is proved along the structure
  of the programs of \<open>Rotator\<close>. When \<open>Run\<close> returns nil, \<open>ReadEvents\<close> gives the phases of every
  rotation in order.
\<close>

subsection \<open>Appending an event\<close>

text \<open>No \<open>Stat\<close> of an open file fails; any other call may.\<close>

definition stats_answered :: "world \<Rightarrow> bool" where
  "stats_answered w \<longleftrightarrow> list_all (\<lambda>s. sl_fstat s = None) (sched w)"

lemma stats_used: "used w w' \<Longrightarrow> stats_answered w \<Longrightarrow> stats_answered w'"
  unfolding used_def stats_answered_def list_all_iff by (metis in_set_dropD)

lemma stats_slot: "take_slot w = (s, w') \<Longrightarrow> stats_answered w \<Longrightarrow> sched w \<noteq> [] \<Longrightarrow> sl_fstat s = None"
  by (auto simp: take_slot_def stats_answered_def split: list.splits)

lemma open_append_bytes:
  assumes "paths_only.IW ps w" and "p \<notin> set ps" and "sys_open_append p w = (Inr f, w')"
  shows "find_ino (files w') p = Some f \<and> file_bytes (files w') p = file_bytes (files w) p"
proof -
  obtain s w1 where s: "take_slot w = (s, w1)" by fastforce
  note k = paths_only.slot_keeps [OF s assms(1)]
  have "file_bytes (files w1) p = file_bytes (files w) p" using file_bytes_kept [OF k(2) assms(2)] .
  moreover have "find_ino (files w') p = Some f \<and> file_bytes (files w') p = file_bytes (files w1) p"
    using assms(3) by (cases "find_ino (files w1) p")
      (auto simp: sys_open_append_def syscall_def s fs_open_create_def fs_create_def file_bytes_def
        find_ino_def split: option.splits)
  ultimately show ?thesis by simp
qed

lemma write_bytes:
  assumes "paths_only.IW ps w" and "p \<notin> set ps" and "find_ino (files w) p = Some f"
    and "sys_write f d w = (Inr u, w')"
  shows "file_bytes (files w') p = file_bytes (files w) p @ d" and "sched w \<noteq> []"
proof -
  obtain s w1 where s: "take_slot w = (s, w1)" by fastforce
  note k = paths_only.slot_keeps [OF s assms(1)]
  have "find_ino (files w1) p = Some f" using k(2) assms(2,3) by (simp add: others_kept_def)
  moreover have "w' = w1\<lparr>files := fs_append f d (files w1)\<rparr>"
    using assms(4) by (auto simp: sys_write_def s split: option.splits)
  ultimately have "file_bytes (files w') p = file_bytes (files w1) p @ d" by (simp add: file_bytes_def)
  with file_bytes_kept [OF k(2) assms(2)] show "file_bytes (files w') p = file_bytes (files w) p @ d" by simp
  show "sched w \<noteq> []"
    using assms(4) by (auto simp: sys_write_def take_slot_def end_slot_def)
qed

text \<open>The header is written in front of the first event, unless \<open>Stat\<close> fails.\<close>

lemma write_event_bytes:
  assumes "paths_only.IW ps w" and "p \<notin> set ps" and "find_ino (files w) p = Some f"
    and "write_event ev f w = (Inr u, w')"
  shows "\<exists>hd. file_bytes (files w') p =
      file_bytes (files w) p @ (if hd then csv_row event_header else []) @ csv_row (event_row ev) \<and>
    (hd \<longrightarrow> file_bytes (files w) p = []) \<and> (stats_answered w \<and> file_bytes (files w) p = [] \<longrightarrow> hd)"
proof -
  obtain n w1 where n: "sys_fstat f w = (n, w1)" by fastforce
  obtain s w0 where s: "take_slot w = (s, w0)" by fastforce
  note k = paths_only.safeD [OF paths_only.safe_fstat assms(1) n]
  have f1: "find_ino (files w1) p = Some f" using k(2) assms(2,3) by (simp add: others_kept_def)
  have bytes: "file_bytes (files w1) p = file_bytes (files w) p" using file_bytes_kept [OF k(2) assms(2)] .
  define hd where "hd = (n = Inr 0)"
  have wr: "sys_write f ((if hd then csv_row event_header else []) @ csv_row (event_row ev)) w1 = (Inr u, w')"
    using assms(4) by (auto simp: write_event_def n hd_def split: sum.splits nat.splits)
  note b = write_bytes [OF k(1) assms(2) f1 wr]
  have w1: "sl_fstat s = None \<Longrightarrow> n = Inr (length (contents (files w1) f))" "sl_fstat s \<noteq> None \<Longrightarrow> \<not> is_ok n"
    using n by (auto simp: sys_fstat_def s split: option.splits)
  have len: "length (contents (files w1) f) = length (file_bytes (files w) p)"
    using f1 bytes by (simp add: file_bytes_def)
  have "hd \<longrightarrow> file_bytes (files w) p = []" using w1 len by (cases "sl_fstat s = None") (auto simp: hd_def)
  moreover have "stats_answered w \<and> file_bytes (files w) p = [] \<longrightarrow> hd"
  proof (intro impI, elim conjE)
    assume c: "stats_answered w" "file_bytes (files w) p = []"
    have "sched w \<noteq> []" using b(2) no_gain_used [OF gain_basic(8) n] by (auto simp: used_def)
    from stats_slot [OF s c(1) this] w1(1) len c(2) show hd by (simp add: hd_def)
  qed
  ultimately show ?thesis using b(1) bytes by auto
qed

subsection \<open>Programs and the events they append\<close>

text \<open>The state: the processes touch the log and its first \<open>N\<close> backups only, and the event log holds
  \<open>evs\<close>; with \<open>c\<close>, no \<open>Stat\<close> fails and the header is there.\<close>

definition logged :: "bool \<Rightarrow> RotatorConfig \<Rightarrow> nat \<Rightarrow> RotationEvent list \<Rightarrow> world \<Rightarrow> bool" where
  "logged c cfg N evs w \<longleftrightarrow> paths_only.IW (log_names (rc_ActivePath cfg) N) w \<and>
     no_other_backups (rc_ActivePath cfg) N (files w) \<and> separate_events cfg \<and> rc_EventPath cfg \<noteq> [] \<and>
     (\<forall>ev \<in> set evs. good_event ev) \<and>
     (\<exists>hdr. file_bytes (files w) (rc_EventPath cfg) = event_text hdr evs \<and> (c \<longrightarrow> hdr)) \<and> (c \<longrightarrow> stats_answered w)"

abbreviation key :: "RotationEvent \<Rightarrow> int \<times> string" where
  "key ev \<equiv> (ev_Ordinal ev, ev_Phase ev)"

text \<open>\<open>grows c cfg N ks m\<close>: when the program \<open>m\<close> succeeds, it has appended events with the keys \<open>ks\<close>.\<close>

definition grows :: "bool \<Rightarrow> RotatorConfig \<Rightarrow> nat \<Rightarrow> (int \<times> string) list \<Rightarrow> (world \<Rightarrow> 'a result \<times> world) \<Rightarrow> bool"
  where
  "grows c cfg N ks m \<longleftrightarrow> (\<forall>w x w' evs. logged c cfg N evs w \<longrightarrow> m w = (Inr x, w') \<longrightarrow>
     (\<exists>evs'. logged c cfg N (evs @ evs') w' \<and> map key evs' = ks))"

lemma growsD:
  assumes "grows c cfg N ks m" and "logged c cfg N evs w" and "m w = (Inr x, w')"
  obtains evs' where "logged c cfg N (evs @ evs') w'" and "map key evs' = ks"
  using assms unfolding grows_def by blast

named_theorems grow \<open>which events programs append\<close>

lemma logged_kept:
  assumes "logged c cfg N evs w" and "touches (log_names (rc_ActivePath cfg) N) (writer w') (files w')"
    and "others_kept (log_names (rc_ActivePath cfg) N) (files w) (files w')" and "used w w'"
  shows "logged c cfg N evs w'"
proof -
  have sep: "separate_events cfg" using assms(1) by (simp add: logged_def)
  then have "rc_EventPath cfg \<notin> set (log_names (rc_ActivePath cfg) N)" by (rule separate_notin)
  from file_bytes_kept [OF assms(3) this] no_other_backups_kept [OF _ sep others_kept_mono [OF assms(3)]]
    assms stats_used [OF assms(4)]
  show ?thesis by (auto simp: logged_def)
qed

lemma logged_safe:
  assumes "logged c cfg N evs w" and "m w = (x, w')" and "no_gain m"
    and "paths_only.safe (log_names (rc_ActivePath cfg) N) (log_names (rc_ActivePath cfg) N) m"
  shows "logged c cfg N evs w'"
  by (rule logged_kept [OF assms(1) paths_only.safeD [OF assms(4) _ assms(2)] no_gain_used [OF assms(3,2)]])
    (use assms(1) in \<open>simp_all add: logged_def\<close>)

lemma grows_safe [grow]:
  assumes "no_gain m"
    and "paths_only.safe (log_names (rc_ActivePath cfg) N) (log_names (rc_ActivePath cfg) N) m"
  shows "grows c cfg N [] m"
  unfolding grows_def using logged_safe [OF _ _ assms] by auto

lemma grows_try:
  assumes "grows c cfg N ks m" and "\<And>x. grows c cfg N ks' (k x)"
  shows "grows c cfg N (ks @ ks') (try_io m f k)"
  unfolding grows_def
proof (intro allI impI)
  fix w x w' evs
  assume l: "logged c cfg N evs w" and t: "try_io m f k w = (Inr x, w')"
  from t obtain y w1 where 1: "m w = (Inr y, w1)" and 2: "k y w1 = (Inr x, w')" by (rule try_ioE)
  from growsD [OF assms(1) l 1] obtain e1 where e1: "logged c cfg N (evs @ e1) w1" "map key e1 = ks" .
  from growsD [OF assms(2) e1(1) 2] obtain e2 where "logged c cfg N ((evs @ e1) @ e2) w'" "map key e2 = ks'" .
  with e1(2) show "\<exists>evs'. logged c cfg N (evs @ evs') w' \<and> map key evs' = ks @ ks'"
    by (intro exI [of _ "e1 @ e2"]) simp
qed

lemma grows_fail [grow]: "grows c cfg N ks (fail_io e)"
  by (simp add: grows_def fail_io_def)

lemma grows_retention [grow]:
  "grows c cfg N [] (EnforceRetention (rc_ActivePath cfg) m)"
  unfolding grows_def
proof (intro allI impI)
  fix w x w' evs
  assume l: "logged c cfg N evs w" and t: "EnforceRetention (rc_ActivePath cfg) m w = (Inr x, w')"
  from l have "no_other_backups (rc_ActivePath cfg) N (files w)"
      "paths_only.IW (log_names (rc_ActivePath cfg) N) w" by (simp_all add: logged_def)
  from safe_retention [OF this(1) refl this(2) t] logged_kept [OF l _ _ no_gain_used [OF gain_retention t]]
  show "\<exists>evs'. logged c cfg N (evs @ evs') w' \<and> map key evs' = []" by simp
qed

text \<open>An event whose texts have no carriage return.\<close>

lemma good_stamped: "CR \<notin> set (ev_Phase ev @ ev_Error ev) \<Longrightarrow> good_event (stamp_event start now ev)"
  using timestamp_chars [of CR now] by (auto simp: good_event_def stamp_event_def is_digit_def)

lemma grows_append [grow]:
  assumes "CR \<notin> set (ev_Phase ev @ ev_Error ev)"
  shows "grows c cfg N [key ev] (appendEvent cfg ev)"
  unfolding grows_def
proof (intro allI impI)
  fix w x w' evs
  assume l: "logged c cfg N evs w" and t: "appendEvent cfg ev w = (Inr x, w')"
  let ?p = "rc_EventPath cfg" and ?ps = "log_names (rc_ActivePath cfg) N"
  have p: "?p \<noteq> []" "?p \<notin> set ?ps" using l separate_notin by (simp_all add: logged_def)
  obtain st w1 where 1: "start_time (rc_StartTime cfg) w = (st, w1)" by fastforce
  obtain n w2 where 2: "sys_now w1 = (n, w2)" by fastforce
  let ?ev = "stamp_event st n ev"
  have now: "logged c cfg N evs v'" if "logged c cfg N evs v" "sys_now v = (y, v')" for v y v'
    by (rule logged_safe [OF that gain_basic(6) paths_only.safe_now])
  have l2: "logged c cfg N evs w2"
    using 1 l now [OF l] now [OF _ 2] by (auto simp: start_time_def split: option.splits prod.splits)
  have "try_io (sys_quiet ''mkdir'' (path_dir ?p)) id (\<lambda>_.
      try_io (sys_open_append ?p) id (\<lambda>f. write_event ?ev f)) w2 = (Inr x, w')"
    using t p(1) 1 2 by (simp add: appendEvent_def)
  then obtain y w3 f w4 where 3: "sys_quiet ''mkdir'' (path_dir ?p) w2 = (Inr y, w3)"
    and 4: "sys_open_append ?p w3 = (Inr f, w4)" and 5: "write_event ?ev f w4 = (Inr x, w')"
    by (elim try_ioE)
  have l3: "logged c cfg N evs w3"
    by (rule logged_safe [OF l2 3 gain_sys(8) paths_only.safe_calls(3)])
  then have i3: "paths_only.IW ?ps w3" by (simp add: logged_def)
  note k4 = paths_only.open_append_keeps [OF i3 p(2) 4]
  note b4 = open_append_bytes [OF i3 p(2) 4]
  note k5 = paths_only.write_event_keeps [OF k4 [THEN conjunct1] p(2) b4 [THEN conjunct1] 5]
  from write_event_bytes [OF k4 [THEN conjunct1] p(2) b4 [THEN conjunct1] 5] obtain hd where
    hd: "file_bytes (files w') ?p = file_bytes (files w3) ?p @ (if hd then csv_row event_header else []) @
        csv_row (event_row ?ev)" "hd \<longrightarrow> file_bytes (files w3) ?p = []"
      "stats_answered w4 \<and> file_bytes (files w3) ?p = [] \<longrightarrow> hd"
    using b4 by auto
  note u = no_gain_used [OF gain_sys(4) 4] no_gain_used [OF gain_write_event 5]
  have o: "others_kept (?p # ?ps) (files w3) (files w')" using k4 k5 others_kept_trans by blast
  have sep: "separate_events cfg" using l by (simp add: logged_def)
  have none: "no_other_backups (rc_ActivePath cfg) N (files w')"
    by (rule no_other_backups_kept [OF _ sep o subset_refl]) (use l3 in \<open>simp add: logged_def\<close>)
  have stats_answered: "c \<longrightarrow> stats_answered w4 \<and> stats_answered w'" using l3 stats_used u by (auto simp: logged_def)
  obtain hdr where h: "file_bytes (files w3) ?p = event_text hdr evs" "c \<longrightarrow> hdr"
    using l3 by (auto simp: logged_def)
  have "\<exists>hdr. file_bytes (files w') ?p = event_text hdr (evs @ [?ev]) \<and> (c \<longrightarrow> hdr)"
  proof (cases "evs = []")
    case True
    with hd h stats_answered show ?thesis by (intro exI [of _ hd]) (simp add: event_text_def)
  next
    case False
    with hd h event_text_Nil [of hdr evs] event_text_snoc [OF False, of hdr ?ev] show ?thesis
      by (intro exI [of _ hdr]) simp
  qed
  with l3 k5 none stats_answered p(1) sep good_stamped [OF assms] have "logged c cfg N (evs @ [?ev]) w'"
    by (simp add: logged_def)
  then show "\<exists>evs'. logged c cfg N (evs @ evs') w' \<and> map key evs' = [key ev]"
    by (intro exI [of _ "[?ev]"]) (simp add: stamp_event_def)
qed

subsection \<open>The events of a run\<close>

definition rotation_phases :: "Strategy \<Rightarrow> string list" where
  "rotation_phases strategy =
     (if strategy = CopyTruncate then [''copy-start'', ''copy-synced'', ''truncate'']
      else [''rename'', ''replacement-created'', ''reopen-requested''])"

definition rotation_keys :: "Strategy \<Rightarrow> nat \<Rightarrow> (int \<times> string) list" where
  "rotation_keys strategy k =
     map (Pair (int k)) (''threshold'' # rotation_phases strategy @ [''retention-complete''])"

definition run_keys :: "Strategy \<Rightarrow> nat \<Rightarrow> (int \<times> string) list" where
  "run_keys strategy n =
     (if strategy = Baseline then [(1, ''threshold''), (1, ''baseline-complete'')]
      else concat (map (rotation_keys strategy) [1 ..< Suc n]))"

lemma grows_event [grow]:
  "CR \<notin> set phase \<Longrightarrow> grows c cfg N [(k, phase)] (appendEvent cfg (event k phase bytes []))"
  using grows_append [of "event k phase bytes []" c cfg N] by (simp add: event_def)

lemma names_in:
  assumes "0 < k" and "k \<le> N"
  shows "BackupPath (rc_ActivePath cfg) (int k) \<in> set (log_names (rc_ActivePath cfg) N)"
    and "rc_ActivePath cfg \<in> set (log_names (rc_ActivePath cfg) N)"
  using assms by (cases "k = N", auto simp: log_names_def)

lemma grows_if [grow]:
  "(b \<Longrightarrow> grows c cfg N ks m) \<Longrightarrow> (\<not> b \<Longrightarrow> grows c cfg N ks m') \<Longrightarrow> grows c cfg N ks (if b then m else m')"
  by simp

lemma safe_request: "paths_only.safe ps ps (new_request url)"
  by (auto simp: paths_only.safe_def new_request_def split: option.splits)

lemma grows_calls [grow]:
  "grows c cfg N [] (sys_stat p)" "grows c cfg N [] (sys_quiet op p)" "grows c cfg N [] (sys_on_path op p)"
  "grows c cfg N [] http_post" "grows c cfg N [] (new_request url)"
  by (intro grows_safe gain paths_only.safe_calls paths_only.safe_post safe_request)+

lemma grows_copytruncate:
  assumes "0 < k" and "k \<le> N"
  shows "grows c cfg N (map (Pair (int k)) [''copy-start'', ''copy-synced'', ''truncate''])
    (rotateCopyTruncate cfg (int k))"
proof -
  have copy: "grows c cfg N [] (copy_backup cfg (int k))"
    by (intro grows_safe safe_copy_backup names_in assms)
      (auto simp: copy_backup_def Let_def intro!: gain)
  have trunc: "grows c cfg N [] (sys_truncate (rc_ActivePath cfg))"
    by (intro grows_safe gain safe_truncate names_in [OF assms])
  have "grows c cfg N ([(int k, ''copy-start'')] @ [] @ [(int k, ''copy-synced'')] @ [] @ [(int k, ''truncate'')])
      (rotateCopyTruncate cfg (int k))"
    unfolding rotateCopyTruncate_def truncate_active_def
    by (intro grows_try copy trunc grows_event) simp_all
  then show ?thesis by simp
qed

lemma grows_rename:
  assumes "0 < k" and "k \<le> N"
  shows "grows c cfg N (map (Pair (int k)) [''rename'', ''replacement-created'', ''reopen-requested''])
    (rotateRenameReopen cfg (int k) info_size)"
proof -
  have ren: "grows c cfg N [] (sys_rename (rc_ActivePath cfg) (BackupPath (rc_ActivePath cfg) (int k)))"
    by (intro grows_safe gain safe_rename names_in [OF assms]) simp
  have new: "grows c cfg N [] (sys_open_excl (rc_ActivePath cfg))"
    by (intro grows_safe gain safe_open_excl names_in [OF assms])
  have ask: "grows c cfg N ([] @ [] @ [(int k, ''reopen-requested'')]) (request_reopen cfg (int k))"
    unfolding request_reopen_def by (intro grows_if grows_fail grows_try grows_calls grows_event) simp_all
  have "grows c cfg N ([] @ [(int k, ''rename'')] @ [] @ [] @ [] @ [] @ [(int k, ''replacement-created'')] @
      [] @ [] @ [(int k, ''reopen-requested'')]) (rotateRenameReopen cfg (int k) info_size)"
    unfolding rotateRenameReopen_def replace_active_def Let_def
    by (intro grows_try ren new ask grows_calls grows_event) simp_all
  then show ?thesis by simp
qed

lemma grows_once:
  assumes "0 < k" and "k \<le> N"
  shows "grows c cfg N (rotation_keys (rc_Strategy cfg) k) (RotateOnce cfg (int k))"
proof -
  have files: "grows c cfg N (map (Pair (int k)) (rotation_phases (rc_Strategy cfg)))
      (rotate_files cfg (int k) info_size)" for info_size
    unfolding rotate_files_def
    by (intro grows_if grows_fail)
      (use grows_copytruncate [OF assms] grows_rename [OF assms] in \<open>simp_all add: rotation_phases_def\<close>)
  have "grows c cfg N ([] @ [(int k, ''threshold'')] @ map (Pair (int k)) (rotation_phases (rc_Strategy cfg)) @
      [] @ [(int k, ''retention-complete'')]) (RotateOnce cfg (int k))"
    unfolding RotateOnce_def
    by (intro grows_try files grows_calls grows_event grows_retention) simp_all
  then show ?thesis by (simp add: rotation_keys_def)
qed

lemma logged_tick:
  "logged c cfg N evs w \<Longrightarrow> select_tick w = (b, w') \<Longrightarrow> logged c cfg N evs w'"
proof -
  assume l: "logged c cfg N evs w" and t: "select_tick w = (b, w')"
  have "used w w'" using t take_slot_used by (auto simp: select_tick_def split: prod.splits)
  with logged_kept [OF l paths_only.safeD [OF paths_only.safe_tick _ t]] l show ?thesis
    by (simp add: logged_def)
qed

lemma run_loop_events:
  assumes "logged c cfg N evs w" and "n < N" and "int N = rc_Rotations cfg" and "rc_Rotations cfg < 2 ^ 63 - 1"
    and "run_loop cfg (int (Suc n)) w = (Inr u, w')"
  shows "\<exists>evs'. logged c cfg N (evs @ evs') w' \<and>
    map key evs' = concat (map (rotation_keys (rc_Strategy cfg)) [Suc n ..< Suc N])"
  using assms
proof (induction "slots w" arbitrary: n w evs rule: less_induct)
  case less
  obtain b w1 where 1: "select_tick w = (b, w1)" by fastforce
  note l1 = logged_tick [OF less.prems(1) 1]
  obtain s w2 where 2: "sys_stat (rc_ActivePath cfg) w1 = (s, w2)" by fastforce
  have l2: "logged c cfg N evs w2"
    by (rule logged_safe [OF l1 2 gain_sys(1) paths_only.safe_calls(1)])
  note eq = less.prems(5) [unfolded run_loop.simps [of cfg "int (Suc n)" w] 1 2]
  then have b: "\<not> b" by (cases b) simp_all
  then have less2: "slots w2 < slots w" using tick_stat_less 1 2 by metis
  let ?next = "wrap64 (int (Suc n) + 1)"
  have eq2: "(case s of
      Inl err \<Rightarrow> if is_not_exist err then run_loop cfg (int (Suc n)) w2 else (Inl err, w2)
    | Inr i \<Rightarrow>
        (if int i < rc_MaxFileBytes cfg then run_loop cfg (int (Suc n)) w2
         else case RotateOnce cfg (int (Suc n)) w2 of
           (Inl err, w3) \<Rightarrow> rotation_failed cfg (int (Suc n)) i err w3
         | (Inr x, w3) \<Rightarrow>
             (if rc_Rotations cfg < ?next then (Inr (), w3) else run_loop cfg ?next w3))) = (Inr u, w')"
    using eq b 2 by (simp del: of_nat_Suc)
  consider (again) "run_loop cfg (int (Suc n)) w2 = (Inr u, w')"
    | (rotate) info where "s = Inr info" "\<not> int info < rc_MaxFileBytes cfg"
    using eq2 by (cases s) (auto simp del: of_nat_Suc split: if_splits)
  then show ?case
  proof cases
    case again
    from less.hyps [OF less2 l2 less.prems(2-4) again] show ?thesis .
  next
    case rotate
    obtain q w3 where 3: "RotateOnce cfg (int (Suc n)) w2 = (q, w3)" by fastforce
    with eq2 rotate obtain v where v: "q = Inr v"
      by (cases q) (auto simp: rotation_failed_def simp del: of_nat_Suc split: prod.splits)
    from growsD [OF grows_once l2 3 [unfolded v]] less.prems(2) obtain e1 where
      e1: "logged c cfg N (evs @ e1) w3" "map key e1 = rotation_keys (rc_Strategy cfg) (Suc n)" by auto
    have wrap: "wrap64 (int (Suc n) + 1) = int (Suc (Suc n))"
      using less.prems(2-4) by (intro wrap64_Suc) linarith
    show ?thesis
    proof (cases "N < Suc (Suc n)")
      case True
      then have "N = Suc n" "rc_Rotations cfg < int (Suc (Suc n))" using less.prems(2,3) by simp_all
      with eq2 rotate 3 v wrap have "w' = w3" by (simp del: of_nat_Suc)
      with e1 \<open>N = Suc n\<close> show ?thesis by (intro exI [of _ e1]) simp
    next
      case False
      then have more: "Suc n < N" "\<not> rc_Rotations cfg < int (Suc (Suc n))" using less.prems(3) by simp_all
      with eq2 rotate 3 v wrap have "run_loop cfg (int (Suc (Suc n))) w3 = (Inr u, w')"
        by (simp del: of_nat_Suc)
      moreover have "slots w3 < slots w" using rotate_once_le 3 less2 by (metis le_less_trans)
      ultimately obtain e2 where e2: "logged c cfg N ((evs @ e1) @ e2) w'"
          "map key e2 = concat (map (rotation_keys (rc_Strategy cfg)) [Suc (Suc n) ..< Suc N])"
        using less.hyps [OF _ e1(1) more(1) less.prems(3,4)] by blast
      have "[Suc n ..< Suc N] = Suc n # [Suc (Suc n) ..< Suc N]" using more(1) by (simp add: upt_conv_Cons)
      with e1(2) e2 show ?thesis by (intro exI [of _ "e1 @ e2"]) simp
    qed
  qed
qed

lemma baseline_loop_events:
  assumes "logged c cfg N evs w" and "baseline_loop cfg target w = (Inr u, w')"
  shows "\<exists>evs'. logged c cfg N (evs @ evs') w' \<and> map key evs' = [(1, ''threshold''), (1, ''baseline-complete'')]"
  using assms
proof (induction "slots w" arbitrary: w rule: less_induct)
  case less
  obtain b w1 where 1: "select_tick w = (b, w1)" by fastforce
  note l1 = logged_tick [OF less.prems(1) 1]
  obtain s w2 where 2: "sys_stat (rc_ActivePath cfg) w1 = (s, w2)" by fastforce
  have l2: "logged c cfg N evs w2"
    by (rule logged_safe [OF l1 2 gain_sys(1) paths_only.safe_calls(1)])
  note eq = less.prems(2) [unfolded baseline_loop.simps [of cfg target w] 1 2]
  then have b: "\<not> b" by (cases b) simp_all
  then have less2: "slots w2 < slots w" using tick_stat_less 1 2 by metis
  let ?m = "\<lambda>info. try_io (appendEvent cfg (event 1 ''threshold'' (int info) [])) id
      (\<lambda>_. appendEvent cfg (event 1 ''baseline-complete'' (int info) []))"
  have g: "grows c cfg N ([(1, ''threshold'')] @ [(1, ''baseline-complete'')]) (?m info)" for info
    by (intro grows_try grows_event) simp_all
  have eq2: "(case s of
      Inl err \<Rightarrow> if is_not_exist err then baseline_loop cfg target w2 else (Inl err, w2)
    | Inr i \<Rightarrow> (if int i < target then baseline_loop cfg target w2 else ?m i w2)) = (Inr u, w')"
    using eq b 2 by simp
  consider (again) "baseline_loop cfg target w2 = (Inr u, w')" | (last) info where "?m info w2 = (Inr u, w')"
    using eq2 by (cases s) (auto split: if_splits)
  then show ?case
  proof cases
    case again
    from less.hyps [OF less2 l2 again] show ?thesis .
  next
    case (last info)
    from growsD [OF g l2 last] obtain evs' where "logged c cfg N (evs @ evs') w'"
      "map key evs' = [(1, ''threshold'')] @ [(1, ''baseline-complete'')]" .
    then show ?thesis by (intro exI [of _ evs']) simp
  qed
qed

subsection \<open>The property\<close>

text \<open>Before a run: the writer writes to the active file or has no file open yet, no backup exists, and
  the event log, which is somewhere else, is absent or empty.\<close>

definition fresh_events :: "RotatorConfig \<Rightarrow> world \<Rightarrow> bool" where
  "fresh_events cfg w \<longleftrightarrow> fs_wf (files w) \<and> log_path (writer w) = rc_ActivePath cfg \<and>
     (w_file (writer w) = None \<or> w_file (writer w) = find_ino (files w) (rc_ActivePath cfg)) \<and>
     no_other_backups (rc_ActivePath cfg) 0 (files w) \<and> separate_events cfg \<and> rc_EventPath cfg \<noteq> [] \<and>
     file_bytes (files w) (rc_EventPath cfg) = []"

lemma fresh_logged:
  assumes "fresh_events cfg w"
  shows "logged (stats_answered w) cfg N [] w"
proof -
  let ?ps = "log_names (rc_ActivePath cfg) N"
  have a: "rc_ActivePath cfg \<in> set ?ps" by (simp add: log_names_def)
  have wf: "fs_wf (files w)" using assms by (simp add: fresh_events_def)
  have "touches ?ps (writer w) (files w)"
    unfolding touches_def
  proof (intro conjI allI impI)
    show "fs_wf (files w)" by (rule wf)
    show "log_path (writer w) \<in> set ?ps" using assms a by (simp add: fresh_events_def)
    fix i
    assume "w_file (writer w) = Some i"
    then have i: "find_ino (files w) (rc_ActivePath cfg) = Some i" using assms by (auto simp: fresh_events_def)
    show "i < next_ino (files w)" by (rule find_ino_less [OF wf i])
    fix p
    assume "p \<notin> set ?ps"
    with find_ino_inj [OF wf i, of p] a show "find_ino (files w) p \<noteq> Some i" by auto
  qed
  moreover have "set (log_names (rc_ActivePath cfg) 0) \<subseteq> set ?ps" by (simp add: log_names_mono)
  ultimately show ?thesis
    using assms by (auto simp: logged_def fresh_events_def no_other_backups_def event_text_def)
qed

lemma run_events:
  assumes "Run cfg w = (Inr u, w')" and "fresh_events cfg w" and "rc_Rotations cfg < 2 ^ 63 - 1"
  shows "\<exists>evs. logged (stats_answered w) cfg (nat (rc_Rotations cfg)) evs w' \<and>
    map key evs = run_keys (rc_Strategy cfg) (nat (rc_Rotations cfg))"
proof -
  let ?cfg = "cfg\<lparr>rc_PollInterval := poll_interval cfg\<rparr>" and ?N = "nat (rc_Rotations cfg)"
  have same: "logged c ?cfg N evs = logged c cfg N evs" for c N evs
    by (simp add: logged_def separate_events_def fun_eq_iff)
  have l: "logged (stats_answered w) ?cfg ?N [] w" using fresh_logged [OF assms(2)] same by simp
  have pos: "0 < rc_Rotations cfg" using assms(1) by (auto simp: Run_def split: if_splits)
  consider (baseline) target where "rc_Strategy cfg = Baseline" "baseline_loop ?cfg target w = (Inr u, w')"
    | (rotate) "rc_Strategy cfg \<noteq> Baseline" "run_loop ?cfg (int (Suc 0)) w = (Inr u, w')"
    using assms(1) by (auto simp: Run_def Let_def split: if_splits)
  then show ?thesis
  proof cases
    case baseline
    from baseline_loop_events [OF l baseline(2)] show ?thesis by (simp add: same run_keys_def baseline(1))
  next
    case rotate
    from run_loop_events [OF l _ _ _ rotate(2)] pos assms(3) rotate(1) show ?thesis
      by (simp add: same run_keys_def del: upt_Suc)
  qed
qed

text \<open>The rotation of \<open>Delivery\<close> with an event log.\<close>

definition told_rotation :: RotatorConfig where
  "told_rotation = sample_rotation\<lparr>rc_EventPath := ''e.csv''\<rparr>"

lemma told_fields [simp]:
  "rc_ActivePath told_rotation = ''envoy.log''" "rc_EventPath told_rotation = ''e.csv''"
  "rc_Strategy told_rotation = RenameReopen" "rc_Rotations told_rotation = 1"
  by (simp_all add: told_rotation_def sample_rotation_def)

text \<open>The first \<open>Stat\<close> of the log fails with \<open>ENOENT\<close>, and \<open>Run\<close> polls again.\<close>

definition told_slots :: "slot list" where
  "told_slots = (replicate 60 ok_slot)[1 := ok_slot\<lparr>sl_fault := Some ENOENT\<rparr>]"

lemma told_run: "fst (Run told_rotation (sample_world told_slots)) = Inr ()"
  by code_simp

lemma told_start:
  "dirents (files (sample_world [])) = [(''envoy.log'', 0)]" "next_ino (files (sample_world [])) = 1"
  "w_file (writer (sample_world [])) = Some 0" "log_path (writer (sample_world [])) = ''envoy.log''"
  by code_simp+

lemma sample_world_sched:
  "files (sample_world told_slots) = files (sample_world [])"
  "writer (sample_world told_slots) = writer (sample_world [])"
  "sched (sample_world ss) = ss"
  by (simp_all add: sample_world_def split: prod.split)

lemma told_fresh: "fresh_events told_rotation (sample_world told_slots)"
proof -
  let ?fs = "files (sample_world [])"
  have find: "find_ino ?fs p = (if p = ''envoy.log'' then Some 0 else None)" for p
    using told_start(1) by (simp add: find_ino_def)
  have "fs_wf ?fs" using told_start by (simp add: fs_wf_def)
  moreover have "\<not> backup_name ''envoy.log'' ''envoy.log''" "\<not> backup_name ''envoy.log'' ''e.csv''"
    by (simp_all add: backup_name_def has_prefix_def)
  then have "no_other_backups ''envoy.log'' 0 ?fs" "separate_events told_rotation"
    by (auto simp: no_other_backups_def separate_events_def find)
  moreover have "file_bytes ?fs ''e.csv'' = []" by (simp add: file_bytes_def find)
  ultimately show ?thesis
    by (simp add: fresh_events_def sample_world_sched told_start find)
qed

text \<open>C20: the event log tells what happened. When \<open>Run\<close> returns nil, reading the event log gives the
  phases of every rotation (or of the baseline), in order and with their ordinals, in every
  interleaving with the writer and whatever other calls fail: all of them when the schedule lets no
  \<open>Stat\<close> of an open file fail (\<open>sl_fstat\<close> is the outcome of this call in a slot, and of no other
  call), and all but possibly the first otherwise.\<close>

theorem events_read_back:
  assumes "Run cfg w = (Inr u, w')" and "fresh_events cfg w" and "rc_Rotations cfg < 2 ^ 63 - 1"
  shows "\<exists>evs. ReadEvents (Inr (file_bytes (files w') (rc_EventPath cfg))) = Inr evs \<and>
    (map (\<lambda>ev. (ev_Ordinal ev, ev_Phase ev)) evs = run_keys (rc_Strategy cfg) (nat (rc_Rotations cfg)) \<or>
     (\<exists>k < length (sched w). sl_fstat (sched w ! k) \<noteq> None) \<and>
     map (\<lambda>ev. (ev_Ordinal ev, ev_Phase ev)) evs = tl (run_keys (rc_Strategy cfg) (nat (rc_Rotations cfg))))"
proof -
  let ?ks = "run_keys (rc_Strategy cfg) (nat (rc_Rotations cfg))"
  from run_events [OF assms] obtain evs where l: "logged (stats_answered w) cfg (nat (rc_Rotations cfg)) evs w'"
    and ks: "map key evs = ?ks" by blast
  from l obtain hdr where h: "file_bytes (files w') (rc_EventPath cfg) = event_text hdr evs" "stats_answered w \<longrightarrow> hdr"
    and good: "\<forall>ev \<in> set evs. good_event ev" by (auto simp: logged_def)
  have "in_int64 (fst x)" if "x \<in> set ?ks" for x
    using that assms(3) by (auto simp: run_keys_def rotation_keys_def in_int64_def split: if_splits)
  then have "key (read_event ev) = key ev" if "ev \<in> set evs" for ev
  proof -
    have "key ev \<in> set (map key evs)" using that by simp
    then have "in_int64 (fst (key ev))" unfolding ks using \<open>\<And>x. x \<in> set ?ks \<Longrightarrow> in_int64 (fst x)\<close> by blast
    then show ?thesis by (simp add: read_event_def reparsed_def)
  qed
  then have keys: "map key (map read_event es) = map key es" if "set es \<subseteq> set evs" for es
    using that by (auto simp: subset_iff)
  show ?thesis
  proof (cases hdr)
    case True
    with read_event_text [OF good, of hdr] h keys [of evs] ks show ?thesis by auto
  next
    case False
    have "map key (map read_event (drop 1 evs)) = tl ?ks"
      using keys [of "drop 1 evs"] set_drop_subset [of 1 evs] ks by (simp add: drop_Suc map_tl)
    moreover have "\<exists>k < length (sched w). sl_fstat (sched w ! k) \<noteq> None"
      using False h(2) by (auto simp: stats_answered_def list_all_length)
    ultimately show ?thesis using False read_event_text [OF good, of hdr] h by auto
  qed
qed

theorem events_read_back_witness:
  "\<exists>evs. ReadEvents (Inr (file_bytes (files (snd (Run told_rotation (sample_world told_slots))))
      ''e.csv'')) = Inr evs \<and>
    map ev_Phase evs = [''threshold'', ''rename'', ''replacement-created'', ''reopen-requested'',
      ''retention-complete'']"
proof -
  let ?w = "sample_world told_slots"
  have run: "Run told_rotation ?w = (Inr (), snd (Run told_rotation ?w))"
    using told_run by (metis prod.collapse)
  have "sl_fstat (sched ?w ! k) = None" if "k < length (sched ?w)" for k
    using that by (simp add: sample_world_sched told_slots_def ok_slot_def nth_list_update)
  with events_read_back [OF run told_fresh] obtain evs where
    e: "ReadEvents (Inr (file_bytes (files (snd (Run told_rotation ?w))) ''e.csv'')) = Inr evs"
      "map (\<lambda>ev. (ev_Ordinal ev, ev_Phase ev)) evs = run_keys RenameReopen 1"
    by auto
  have "map snd (run_keys RenameReopen 1) = [''threshold'', ''rename'', ''replacement-created'',
      ''reopen-requested'', ''retention-complete'']"
    by code_simp
  moreover have "map ev_Phase evs = map snd (map (\<lambda>ev. (ev_Ordinal ev, ev_Phase ev)) evs)" by simp
  ultimately show ?thesis using e by metis
qed

end
