(* ===== verification/CopyProbe.thy ===== *)
theory CopyProbe
  imports Rotator
begin

text \<open>
  \<open>tools/copyprobe/main.go\<close>: the helper that copies one file to another with \<open>io.Copy\<close>, the same
  copy as that of \<open>rotateCopyTruncate\<close> but into a file that \<open>os.Create\<close> truncates. The destination
  is not a file another process writes to, so that writing goes on at its end. A panic and a wrong
  number of arguments end the process with status 2.
\<close>

definition fs_open_trunc :: "string \<Rightarrow> fs \<Rightarrow> (errno + ino) \<times> fs" where
  "fs_open_trunc p fs =
     (case find_ino fs p of
        Some i \<Rightarrow> (Inr i, fs\<lparr>contents := (contents fs)(i := [])\<rparr>)
      | None \<Rightarrow> (case fs_create p fs of (i, fs) \<Rightarrow> (Inr i, fs)))"

definition sys_create :: "string \<Rightarrow> ino io" where
  "sys_create p = syscall (PathError ''open'' p) (fs_open_trunc p)"

datatype probe_exit = ProbeOk | ProbeUsage | ProbePanic go_error

definition probe_copy :: "string \<Rightarrow> string \<Rightarrow> unit io" where
  "probe_copy source destination =
     try_io (sys_open source) id (\<lambda>src.
     try_io (sys_create destination) id (\<lambda>dst.
     try_io (copy_loop src dst 0) id (\<lambda>_.
     try_io (sys_quiet ''sync'' destination) id (\<lambda>_.
     sys_quiet ''close'' destination))))"

definition copyprobe :: "string list \<Rightarrow> world \<Rightarrow> probe_exit \<times> world" where
  "copyprobe os_args w =
     (if length os_args \<noteq> 3 then (ProbeUsage, w)
      else case probe_copy (os_args ! 1) (os_args ! 2) w of
        (Inl e, w) \<Rightarrow> (ProbePanic e, w)
      | (Inr _, w) \<Rightarrow> (ProbeOk, w))"

subsection \<open>A copy while nobody writes\<close>

definition quiet :: "world \<Rightarrow> bool" where
  "quiet w \<longleftrightarrow> list_all (\<lambda>s. sl_events s = []) (sched w)"

lemma quiet_slot: "take_slot w = (s, w') \<Longrightarrow> quiet w \<Longrightarrow> quiet w' \<and> files w' = files w"
  by (auto simp: take_slot_def quiet_def run_events_def writer_steps_def split: list.splits)

lemma quiet_files [simp]: "quiet (w\<lparr>files := fs\<rparr>) = quiet w"
  by (simp add: quiet_def)

lemma quiet_syscall:
  assumes "syscall mk f w = (Inr x, w')" and "quiet w"
  shows "quiet w' \<and> f (files w) = (Inr x, files w')"
proof -
  obtain s w1 where "take_slot w = (s, w1)" by fastforce
  with assms quiet_slot [OF this] show ?thesis
    by (auto simp: syscall_def split: option.splits prod.splits sum.splits)
qed

lemma quiet_read:
  assumes "sys_read i pos w = (Inr data, w')" and "quiet w"
  shows "quiet w' \<and> files w' = files w \<and> (\<exists>n > 0. data = take n (drop pos (contents (files w) i)))"
proof -
  obtain s w1 where "take_slot w = (s, w1)" by fastforce
  with assms quiet_slot [OF this] show ?thesis
    by (auto simp: sys_read_def split: option.splits intro!: exI [of _ "max 1 (sl_count s)"])
qed

lemma quiet_write:
  assumes "sys_write i data w = (Inr u, w')" and "quiet w"
  shows "quiet w' \<and> files w' = fs_append i data (files w)"
proof -
  obtain s w1 where "take_slot w = (s, w1)" by fastforce
  with assms quiet_slot [OF this] show ?thesis by (auto simp: sys_write_def split: option.splits)
qed

lemma copy_loop_quiet:
  assumes "copy_loop src dst pos w = (Inr n, w')" and "quiet w"
    and "src = dst \<Longrightarrow> contents (files w) src = []"
  shows "quiet w' \<and> files w' = fs_append dst (drop pos (contents (files w) src)) (files w)"
  using assms
proof (induction src dst pos w rule: copy_loop.induct)
  case (1 src dst pos w)
  obtain r w1 where r: "sys_read src pos w = (r, w1)" by fastforce
  note eq = "1.prems"(1) [unfolded copy_loop.simps [of src dst pos w] r]
  then obtain data where d: "r = Inr data" by (cases r) auto
  from quiet_read [OF r [unfolded d] "1.prems"(2)] obtain k where
    q1: "quiet w1" "files w1 = files w" "0 < k" "data = take k (drop pos (contents (files w) src))" by blast
  show ?case
  proof (cases "data = []")
    case True
    with eq d q1 show ?thesis by (auto simp: fs_append_def)
  next
    case False
    obtain r2 w2 where 2: "sys_write dst data w1 = (r2, w2)" by fastforce
    with eq d False obtain u where u: "r2 = Inr u" by (cases r2) auto
    note q2 = quiet_write [OF 2 [unfolded u] q1(1)]
    have ne: "src \<noteq> dst" using False q1(4) "1.prems"(3) by auto
    have "copy_loop src dst (pos + length data) w2 = (Inr n, w')" using eq d False 2 u by simp
    with "1.IH" [OF r [symmetric, unfolded d] refl False 2 [symmetric, unfolded u] refl] q2 ne q1(2)
    have "quiet w' \<and> files w' = fs_append dst (drop (pos + length data) (contents (files w) src))
        (fs_append dst data (files w))"
      by simp
    moreover have "data @ drop (pos + length data) (contents (files w) src) = drop pos (contents (files w) src)"
      using q1(4) by (metis add.commute append_take_drop_id drop_drop length_take min_def take_all_iff nat_le_linear append_eq_conv_conj)
    ultimately show ?thesis by (simp add: fs_append_def)
  qed
qed

lemma open_trunc:
  assumes "fs_open_trunc p fs = (Inr j, fs')" and "fs_wf fs"
  shows "find_ino fs' = (find_ino fs)(p \<mapsto> j) \<and> fs_wf fs' \<and>
    contents fs' j = [] \<and> (\<forall>i. i \<noteq> j \<longrightarrow> contents fs' i = contents fs i)"
proof (cases "find_ino fs p")
  case None
  with assms fs_wf_create [OF assms(2) None] show ?thesis
    by (auto simp: fs_open_trunc_def case_prod_beta fs_create_def find_ino_def fun_eq_iff)
next
  case (Some i)
  then have j: "j = i" "fs' = fs\<lparr>contents := (contents fs)(i := [])\<rparr>"
    using assms(1) by (auto simp: fs_open_trunc_def)
  with Some assms(2) show ?thesis by (auto simp: find_ino_def fun_eq_iff fs_wf_def)
qed

lemma probe_run:
  assumes "probe_copy src dst w = (Inr u, w')" and "quiet w"
  shows "\<exists>i j fs. find_ino (files w) src = Some i \<and> fs_open_trunc dst (files w) = (Inr j, fs) \<and>
    (i \<noteq> j \<or> contents fs i = [] \<longrightarrow> files w' = fs_append j (contents fs i) fs)"
proof -
  from assms(1) obtain i w1 j w2 n w3 x w4 where 1: "sys_open src w = (Inr i, w1)"
    and 2: "sys_create dst w1 = (Inr j, w2)"
    and 3: "copy_loop i j 0 w2 = (Inr n, w3)" and 4: "sys_quiet ''sync'' dst w3 = (Inr x, w4)"
    and 5: "sys_quiet ''close'' dst w4 = (Inr u, w')"
    unfolding probe_copy_def by (elim try_ioE)
  note q1 = quiet_syscall [OF 1 [unfolded sys_open_def] assms(2)]
  note q2 = quiet_syscall [OF 2 [unfolded sys_create_def] q1 [THEN conjunct1]]
  have same: "files w' = files w3" if "quiet w3"
    using quiet_syscall [OF 4 [unfolded sys_quiet_def] that] quiet_syscall [OF 5 [unfolded sys_quiet_def]]
    by simp
  have "find_ino (files w) src = Some i" "files w1 = files w"
    using q1 by (auto simp: fs_open_def split: option.splits)
  moreover have "files w' = fs_append j (contents (files w2) i) (files w2)"
    if "i \<noteq> j \<or> contents (files w2) i = []"
    using copy_loop_quiet [OF 3 q2 [THEN conjunct1]] that same by auto
  ultimately show ?thesis using q2 by auto
qed

text \<open>C38: the probe copies the file. When it ends well and nobody writes meanwhile, the destination
  holds exactly the bytes of the source, and no other file has changed; called with one path for
  both, it has emptied the file.\<close>

theorem probe_copies:
  assumes "copyprobe [exe, src, dst] w = (ProbeOk, w')" and "quiet w" and "fs_wf (files w)"
  shows "file_bytes (files w') dst = (if src = dst then [] else file_bytes (files w) src) \<and>
    (\<forall>p. p \<noteq> dst \<longrightarrow> file_bytes (files w') p = file_bytes (files w) p)"
proof -
  obtain u where "probe_copy src dst w = (Inr u, w')"
    using assms(1) by (auto simp: copyprobe_def split: prod.splits sum.splits)
  from probe_run [OF this assms(2)] obtain i j fs where i: "find_ino (files w) src = Some i"
    and j: "fs_open_trunc dst (files w) = (Inr j, fs)"
    and copied: "i \<noteq> j \<or> contents fs i = [] \<longrightarrow> files w' = fs_append j (contents fs i) fs" by blast
  note t = open_trunc [OF j assms(3)]
  have new: "p = dst" if "find_ino fs p = Some j" for p
    by (rule find_ino_inj [of fs p j]) (use that t in auto)
  have ij: "i = j \<longleftrightarrow> src = dst"
  proof
    assume "src = dst"
    with i j show "i = j" by (simp add: fs_open_trunc_def)
  qed (use new [of src] i t in \<open>auto split: if_splits\<close>)
  with copied t have w': "files w' = fs_append j (contents fs i) fs" by auto
  have "find_ino (files w') p = (if p = dst then Some j else find_ino (files w) p)" for p
    using t by (simp add: w')
  moreover have "contents (files w') j = contents fs i" using t by (simp add: w')
  moreover have "contents (files w') k = contents (files w) k" if "k \<noteq> j" for k
    using t that by (simp add: w')
  moreover have "k \<noteq> j" if "p \<noteq> dst" "find_ino (files w) p = Some k" for p k
    using new [of p] that t by auto
  ultimately show ?thesis
    using i ij t by (auto simp: file_bytes_def split: option.splits)
qed

definition probed :: world where
  "probed = \<lparr>files = \<lparr>dirents = [(''a'', 0)], contents = (\<lambda>_. [])(0 := ''log''), next_ino = 1\<rparr>,
     writer = sample_writer, sched = replicate 12 (ok_slot\<lparr>sl_count := 2\<rparr>), clock = 0,
     url_error = \<lambda>_. None\<rparr>"

theorem probe_copies_witness:
  "file_bytes (files (snd (copyprobe [''copyprobe'', ''a'', ''b''] probed))) ''b'' = ''log'' \<and>
   file_bytes (files (snd (copyprobe [''copyprobe'', ''a'', ''a''] probed))) ''a'' = []"
proof -
  have ok: "fst (copyprobe [''copyprobe'', ''a'', ''b''] probed) = ProbeOk"
      "fst (copyprobe [''copyprobe'', ''a'', ''a''] probed) = ProbeOk"
    by code_simp+
  have wf: "quiet probed" "fs_wf (files probed)" "file_bytes (files probed) ''a'' = ''log''"
    by (simp_all add: quiet_def probed_def ok_slot_def fs_wf_def file_bytes_def find_ino_def numeral_eq_Suc)
  have run: "copyprobe args probed = (ProbeOk, snd (copyprobe args probed))"
    if "fst (copyprobe args probed) = ProbeOk" for args
    using that by (metis prod.collapse)
  from probe_copies [OF run [OF ok(1)] wf(1,2)] probe_copies [OF run [OF ok(2)] wf(1,2)] wf(3)
  show ?thesis by simp
qed

end
