(* ===== verification/Spec2Isabelle.thy ===== *)
theory Spec2Isabelle
  imports Outcome CopyGaps AtomicReport Lifecycle EventRun CopyProbe
begin

text \<open>
  Verification library of logrotate-cache-lab.

  \<^bold>\<open>The program.\<close> The \<open>loglab\<close> command measures what log rotation does to the page cache of a memory
  cgroup, and checks that it loses no log record. A \<^emph>\<open>writer\<close> generates numbered records of fixed
  width and appends them to a log; a \<^emph>\<open>rotator\<close> polls the log's size and rotates it, by
  copytruncate or by rename and reopen; a \<^emph>\<open>monitor\<close> samples the cgroup's counters into a CSV
  table. The \<^emph>\<open>harness\<close> (\<open>loglab run\<close>) starts these three as child processes, waits for the rotator,
  stops the others, and turns what they left into a run summary: the integrity analyser's report
  on the rotated files, cache metrics, and a verdict. The \<^emph>\<open>memory sweep\<close> (\<open>loglab memory-sweep\<close>)
  runs the harness in Docker containers and searches the smallest memory limit that passes.

  \<^bold>\<open>Which theory models which source file\<close> (under \<open>src/\<close>; every function of these files has a definition
  of its name, followed by the definitions of its parts):

  \<^item> \<open>LogRecord\<close>: \<open>internal/record/record.go\<close> (\<open>Encode\<close>, \<open>Parse\<close>).
  \<^item> \<open>Writer\<close>, \<open>Lifecycle\<close>: \<open>internal/writer/writer.go\<close>. The record \<open>Writer\<close> has the fields of the Go
    struct and the variables of \<open>Run\<close>; \<open>writer_pc\<close> is where \<open>Run\<close> stands; \<open>writer_step\<close> is one case of
    its select statement, one system call or one HTTP request.
  \<^item> \<open>World\<close>, \<open>Rotator\<close>: \<open>internal/rotator\<close> (\<open>Run\<close>, \<open>RotateOnce\<close>, \<open>rotateCopyTruncate\<close>,
    \<open>rotateRenameReopen\<close>, \<open>EnforceRetention\<close>, \<open>appendEvent\<close>, \<open>ReadEvents\<close>), statement by statement.
  \<^item> \<open>AtomicReport\<close>, \<open>Report\<close>: \<open>internal/report/report.go\<close> (\<open>WriteJSONAtomic\<close>; the report types).
  \<^item> \<open>Integrity\<close>: \<open>internal/integrity/analyze.go\<close>. \<open>Metrics\<close>: \<open>internal/metrics/analyze.go\<close>.
  \<^item> \<open>Cgroup\<close>: \<open>internal/cgroup/reader.go\<close>. \<open>Monitor\<close>: \<open>internal/monitor/monitor.go\<close>.
  \<^item> \<open>SweepSearch\<close>: \<open>internal/sweep/search.go\<close>. \<open>Docker\<close>: \<open>internal/sweep/docker.go\<close>.
  \<^item> \<open>Harness\<close>: \<open>internal/harness/run.go\<close>. \<open>Cli\<close>: \<open>cmd/loglab/main.go\<close>.
  \<^item> \<open>CopyProbe\<close>: \<open>tools/copyprobe/main.go\<close>.
  \<^item> The parts of Go's library they use: \<open>GoText\<close> (\<open>strings\<close>, \<open>strconv\<close>, \<open>fmt\<close>), \<open>Lines\<close>
    (\<open>bufio.Scanner\<close>), \<open>Csv\<close> (\<open>encoding/csv\<close>), \<open>Paths\<close> (\<open>path/filepath\<close>, time stamps), \<open>Flags\<close>
    (\<open>flag\<close>, \<open>ParseDuration\<close>), \<open>GoFloat\<close> (\<open>float64\<close>), \<open>Files\<close> (the file system calls). \<open>Prelude\<close> has
    Go's integers and errors.

  \<^bold>\<open>How the components interact.\<close> Writer, rotator, report writer and copy probe share one file system
  (\<open>Files\<close>: paths name inodes, an open file is its inode). A rotator program is a function on a
  \<open>world\<close>; before each of its system calls the writer takes the steps the schedule says, so the
  theorems quantify over all interleavings at the granularity of system calls and over all
  patterns of failing calls. The reopen request is the one message between the two. The harness
  and the Docker runner see their environment (children, files, clock, \<open>docker\<close>, JSON) through a
  record of functions on a world of any type; \<open>Outcome\<close> puts a file system that a rotated run has left
  behind such an environment, and \<open>Cli\<close> runs the harness as the body of a subcommand, so that the
  verdicts of harness and sweep are theorems about the rotator's runs.

  \<^bold>\<open>Contracts.\<close> Each is a locale, interpreted on the model's definitions:

  \<^item> \<open>log_appender\<close>, \<open>record_appender\<close> (\<open>LogStream\<close>): what the owner of a log may count on from the
    program that appends to it; the Go writer provides it (\<open>go_writer\<close> in \<open>Writer\<close>).
  \<^item> \<open>log_keeper\<close>, \<open>rename_keeper\<close>, \<open>rotation_loop\<close> (\<open>Rotation\<close>): what an invariant of the log needs to
    survive the rotator's programs. \<open>LogIntegrity\<close> interprets them for the two invariants of
    rename and reopen, \<open>CopyGaps\<close> for the gaps of copytruncate, \<open>EventLog\<close> for the separation of log
    and event log.
  \<^item> \<open>line_codec\<close> (\<open>Lines\<close>), \<open>csv_table\<close> (\<open>Csv\<close>), \<open>flag_value\<close> (\<open>Flags\<close>): a text that is written and
    read back; provided by log records, cgroup files, samples, events and the three kinds of flags.
  \<^item> \<open>attempt_runner\<close> and \<open>limit_tester\<close> (\<open>SweepSearch\<close>, the first gives the second): what the search
    needs from whoever tests a limit; \<open>dockerAttempt\<close> provides it (\<open>Docker\<close>).

  \<^bold>\<open>What the lemmas show.\<close>

  \<^item> The log. The bytes on disk and in the writer's buffer are the generated records at every moment
    (\<open>writer_log_exact\<close>, \<open>writer_clean_exit\<close>); rename and reopen keeps this across any run, and the
    analyser and the harness see it (\<open>rename_reopen_loses_nothing\<close>, \<open>rename_reopen_clean_report\<close>,
    \<open>rename_run_accepted\<close>); copytruncate loses at most one gap per rotation, no longer than what the
    writer wrote between the copier's read of the end of the file and the truncation
    (\<open>copytruncate_only_gaps\<close>, whose witness is a schedule without failures that loses a record). The
    writer's rate, its reopen counter, its repeated flush after a failure, its start and its end have
    their own theorems.
  \<^item> Rotation. Retention refines keeping the newest backups (\<open>retention_keeps_newest\<close>); the event log
    tells the phases of a run (\<open>events_read_back\<close>); reports are replaced atomically
    (\<open>report_write_atomic\<close>).
  \<^item> Measurement. The analyser counts what it claims and a clean report holds exactly for the complete
    ordered stream (\<open>analyze_counts\<close>, \<open>clean_report_iff\<close>); samples, cgroup counters, resident sizes,
    percentiles and the rotation transient are specified from the files and events they are read from.
  \<^item> Search. \<open>Search\<close> returns, finds an adjacent failing and passing limit within a logarithmic number of
    tests, claims nothing after an error; the Docker sweep does so for any behaviour of the client, and
    the verdict of an attempt follows from the client's answers (\<open>docker_attempt_verdict\<close>).
  \<^item> Experiment. The harness waits for every child it started, and its summary says what the files say
    after that (\<open>harness_reaps_children\<close>, \<open>harness_summary_faithful\<close>); command lines built by the program
    are parsed back into the same configuration.

  \<^bold>\<open>Bounds and termination.\<close> Schedules are finite lists of slots; when one is used up every call fails and
  the context counts as cancelled, and loops that poll use up a slot in each round, which is their
  termination measure. A theorem about a run that returned is thus about every long enough
  schedule. \<open>Analyze\<close> and \<open>Search\<close> have loops that may not end: they are \<open>partial_function\<close>s with value
  \<open>None\<close> for a run that does not return, and \<open>analyze_returns_iff\<close> and \<open>search_returns\<close> say when they
  return. \<open>writer_stops\<close> is about endless sequences of events. Integers have Go's width: \<open>uint64\<close> is
  \<open>64 word\<close>; \<open>int\<close> and \<open>int64\<close> are \<open>int\<close> with the wrap-around written out (parsing a flag refuses what is
  out of range).

  \<^bold>\<open>Not modelled.\<close> File modes and owners; poll intervals, tickers and timeouts as durations (a round of a
  loop is an event); the bytes of the resident buffer and closing files after errors, which have no
  effect on the results; JSON texts (\<open>encoding/json\<close> is a parameter); the path of \<open>io.Copy\<close> through
  \<open>copy_file_range\<close> (a copy is reads and writes of any size); fused multiply-add of some
  platforms in floating-point expressions; the 4 KiB buffer of the CSV writer in the event log;
  usage texts and Go's quoting of control characters; active paths with pattern characters;
  child processes that never end once killed. \<open>ComparisonReport\<close>, \<open>NowRFC3339\<close> and \<open>Address\<close> are
  not used by the program. The C++ writer (\<open>cpp/writer/main.cc\<close>), scripts, deployment files and
  tests are outside the library.
\<close>

end
